theory Spec2Isabelle
  imports Complex_Main "HOL-Library.Monad_Syntax" "HOL-Library.AList" "HOL-Library.Word"
begin

unbundle bit_operations_syntax

section \<open>Single-precision arithmetic\<close>

text \<open>
  A finite value of the C type \<open>float\<close> is a real number with a significand of 24 bits
  and an exponent of at least \<open>-149\<close> for its last bit (IEEE 754 binary32). The result of
  an arithmetic operation is the exact result rounded to the nearest such number, ties
  going to the even significand: \<open>float_round\<close>. The exponent is not bounded above here;
  \<open>float_op\<close> is the rounded value when it is a finite \<open>float\<close>, and \<open>None\<close> when the
  operation overflows.
\<close>

definition round_even :: "real \<Rightarrow> int" where
  "round_even y =
     (let f = \<lfloor>y\<rfloor>; d = y - of_int f
      in if d < 1 / 2 then f else if 1 / 2 < d then f + 1 else if even f then f else f + 1)"

definition float_exp :: "real \<Rightarrow> int" where
  "float_exp x = max \<lfloor>log 2 \<bar>x\<bar>\<rfloor> (- 126) - 23"

definition float_round :: "real \<Rightarrow> real" where
  "float_round x =
     (if x = 0 then 0
      else of_int (round_even (x / 2 powr of_int (float_exp x))) * 2 powr of_int (float_exp x))"

definition FLT_MAX :: real where
  "FLT_MAX = (2 ^ 24 - 1) * 2 ^ 104"

definition float_op :: "real \<Rightarrow> real option" where
  "float_op x = (if \<bar>float_round x\<bar> \<le> FLT_MAX then Some (float_round x) else None)"


section \<open>Formation grid dimensions (formation.c)\<close>

text \<open>
  \<open>sqrtf\<close> gives the square root rounded to single precision, and \<open>ceilf\<close> the
  ceiling, which needs no rounding. \<open>MIN\<close> is the macro of formation.c on two \<open>float\<close>
  operands.
\<close>

datatype formation_type = FORMATION_RANK | FORMATION_COLUMN

definition COLUMN_WIDTH_RATIO :: real where
  "COLUMN_WIDTH_RATIO = 4"

definition RANK_WIDTH_RATIO :: real where
  "RANK_WIDTH_RATIO = 1 / 4"

definition sqrtf :: "real \<Rightarrow> real" where
  "sqrtf x = float_round (sqrt x)"

definition ceilf :: "real \<Rightarrow> real" where
  "ceilf x = of_int \<lceil>x\<rceil>"

definition MIN_f :: "real \<Rightarrow> real \<Rightarrow> real" where
  "MIN_f a b = (if a < b then a else b)"

text \<open>
  \<open>MIN(ceilf(sqrtf(nunits / RATIO)), nunits)\<close>: \<open>nunits\<close> is converted to \<open>float\<close> for the
  division and for the comparison, the quotient is rounded, and the \<open>return\<close> converts
  the \<open>float\<close> result to \<open>size_t\<close> by truncation.
\<close>

definition ncols :: "formation_type \<Rightarrow> nat \<Rightarrow> nat" where
  "ncols type nunits =
     (case type of
        FORMATION_RANK \<Rightarrow>
          nat \<lfloor>MIN_f (ceilf (sqrtf (float_round (float_round (real nunits) / RANK_WIDTH_RATIO))))
                     (float_round (real nunits))\<rfloor>
      | FORMATION_COLUMN \<Rightarrow>
          nat \<lfloor>MIN_f (ceilf (sqrtf (float_round (float_round (real nunits) / COLUMN_WIDTH_RATIO))))
                     (float_round (real nunits))\<rfloor>)"

text \<open>
  The function \<open>nrows\<close> of formation.c is not called anywhere; the number of rows of a
  grid is computed by \<open>init_subformation\<close> (below, with the cells).
\<close>


section \<open>Movement core: data model (movement.c)\<close>

text \<open>
  Entity UIDs, destination ids and navigation layers are unsigned integers that the
  movement code only compares and stores. Vectors and quaternions are tuples of reals;
  the arithmetic of the movement core is that of the reals (the rounding of its
  single-precision operations is not modelled).
\<close>

type_synonym uid = nat
type_synonym dest_id_t = nat
type_synonym nav_layer = nat
type_synonym vec2 = "real \<times> real"
type_synonym vec3 = "real \<times> real \<times> real"
type_synonym quat = "real \<times> real \<times> real \<times> real"

datatype arrival_state =
    STATE_MOVING
  | STATE_MOVING_IN_FORMATION
  | STATE_ARRIVED
  | STATE_SEEK_ENEMIES
  | STATE_WAITING
  | STATE_SURROUND_ENTITY
  | STATE_ENTER_ENTITY_RANGE
  | STATE_TURNING
  | STATE_ARRIVING_TO_CELL

record movestate =
  state :: arrival_state
  max_speed :: real
  velocity :: vec2
  next_pos :: vec3
  prev_pos :: vec3
  next_rot :: quat
  prev_rot :: quat
  step :: real
  left :: int
  blocking :: bool
  last_stop_pos :: vec2
  last_stop_radius :: real
  wait_prev :: arrival_state
  wait_ticks_left :: int
  vel_hist :: "vec2 list"
  vel_hist_idx :: int
  surround_target_uid :: uid
  surround_target_prev :: vec2
  surround_nearest_prev :: vec2
  using_surround_field :: bool
  target_prev_pos :: vec2
  target_range :: real
  target_dir :: quat

text \<open>
  A flock's entity set is a hash set; it is kept as a list without repetitions, whose
  order stands for the iteration order. A key that is added is put at the end of the
  list: the place that the hash function of \<open>khash\<close> gives it among the other keys is not
  modelled.
\<close>

record flock =
  ents :: "uid list"
  target_xz :: vec2
  dest_id :: dest_id_t

text \<open>
  Calls that leave the movement module (navigation blocker reference counts, event
  notifications, combat stance, the formation module, entity position and rotation
  setters) are recorded in a log, in call order.
\<close>

datatype effect =
    NavBlockersIncref vec2 real int "32 word"
  | NavBlockersDecref vec2 real int "32 word"
  | Notify_MOVABLE_ENTITY_BLOCK uid real vec2
  | Notify_MOVABLE_ENTITY_UNBLOCK uid real vec2
  | Notify_MOTION_START uid
  | Notify_MOTION_END uid
  | Combat_SetStance_AGGRESSIVE uid
  | Formation_RemoveUnit uid
  | Formation_Create vec2 vec2 "uid list" nat
  | Pos_Set uid vec3
  | Entity_SetRot uid quat

text \<open>
  The static variables of the module that the modelled functions touch. The entity state
  table is a hash map; it is kept as an association list whose order stands for the
  table's iteration order (a new key is put at the end: its place among the other keys
  in \<open>khash\<close> is not modelled). The four \<open>gs_\<close> fields are the tables of
  \<open>s_move_work.gamestate\<close>.
\<close>

record move_state =
  s_entity_state_table :: "(uid \<times> movestate) list"
  s_flocks :: "flock list"
  gs_flags :: "uid \<rightharpoonup> 32 word"
  gs_positions :: "uid \<rightharpoonup> vec3"
  gs_postree :: "(real \<times> real \<times> uid) set"
  gs_sel_radiuses :: "uid \<rightharpoonup> real"
  gs_faction_ids :: "uid \<rightharpoonup> int"
  s_click_move_enabled :: bool
  s_last_cmd_dest :: "dest_id_t option"
  effects :: "effect list"

text \<open>
  Functions and constants of other modules (navigation, map, entity flags, formation
  queries, vector math on quaternions) that the movement code calls but that are not part
  of this development are parameters, collected in one record.
\<close>

record extern =
  ENTITY_FLAG_COMBATABLE :: "32 word"
  ENTITY_FLAG_GARRISONED :: "32 word"
  ENTITY_FLAG_WATER :: "32 word"
  ENTITY_FLAG_AIR :: "32 word"
  AIR_UNIT_HEIGHT :: real
  NULL_UID :: uid
  NAV_LAYER_MAX :: nat
  X_COORDS_PER_TILE :: real
  Z_COORDS_PER_TILE :: real
  TILES_PER_CHUNK_WIDTH :: real
  TILES_PER_CHUNK_HEIGHT :: real
  G_FlagsGet :: "uid \<Rightarrow> 32 word"
  G_EntityExists :: "uid \<Rightarrow> bool"
  G_EntityIsZombie :: "uid \<Rightarrow> bool"
  Entity_GetRot :: "uid \<Rightarrow> quat"
  Entity_NavLayerWithRadius :: "32 word \<Rightarrow> real \<Rightarrow> nav_layer"
  M_HeightAtPoint :: "vec2 \<Rightarrow> real"
  M_NavPositionPathable :: "nav_layer \<Rightarrow> vec2 \<Rightarrow> bool"
  M_NavClosestReachableDest :: "nav_layer \<Rightarrow> vec2 \<Rightarrow> vec2 \<Rightarrow> vec2"
  M_NavClosestReachableInRange :: "nav_layer \<Rightarrow> vec2 \<Rightarrow> vec2 \<Rightarrow> real \<Rightarrow> vec2"
  M_NavDestIDForPos :: "vec2 \<Rightarrow> nav_layer \<Rightarrow> dest_id_t"
  M_NavDestIDForPosAttacking :: "vec2 \<Rightarrow> nav_layer \<Rightarrow> int \<Rightarrow> dest_id_t"
  M_NavIsAdjacentToImpassable :: "nav_layer \<Rightarrow> vec2 \<Rightarrow> bool"
  M_NavIsMaximallyClose :: "nav_layer \<Rightarrow> vec2 \<Rightarrow> vec2 \<Rightarrow> real \<Rightarrow> bool"
  M_NavClosestPathable :: "nav_layer \<Rightarrow> vec2 \<Rightarrow> vec2 option"
  M_NavObjAdjacent :: "uid \<Rightarrow> uid \<Rightarrow> bool"
  M_NavClosestReachableAdjacentPos :: "nav_layer \<Rightarrow> vec2 \<Rightarrow> uid \<Rightarrow> vec2 option"
  G_Formation_GetForEnt :: "uid \<Rightarrow> nat option"
  G_Formation_Type :: "nat \<Rightarrow> nat"
  FORMATION_NONE :: nat
  PFM_Quat_PitchDiff :: "quat \<Rightarrow> quat \<Rightarrow> real"
  PFM_Mat4x4_MakeRotY :: "real \<Rightarrow> real list"
  PFM_Quat_FromRotMat :: "real list \<Rightarrow> quat"
  PFM_Quat_MultQuat :: "quat \<Rightarrow> quat \<Rightarrow> quat"
  PFM_Quat_Normal :: "quat \<Rightarrow> quat"
  atan2 :: "real \<Rightarrow> real \<Rightarrow> real"

definition EPSILON :: real where
  "EPSILON = 1 / 1024"

definition VEL_HIST_LEN :: nat where
  "VEL_HIST_LEN = 14"

definition WAIT_TICKS :: int where
  "WAIT_TICKS = 60"

definition MAX_TURN_RATE :: real where
  "MAX_TURN_RATE = 15"

definition ADJACENCY_SEP_DIST :: real where
  "ADJACENCY_SEP_DIST = 5"

definition CHUNK_WIDTH :: "extern \<Rightarrow> real" where
  "CHUNK_WIDTH env = X_COORDS_PER_TILE env * TILES_PER_CHUNK_WIDTH env"

definition CHUNK_HEIGHT :: "extern \<Rightarrow> real" where
  "CHUNK_HEIGHT env = Z_COORDS_PER_TILE env * TILES_PER_CHUNK_HEIGHT env"

definition SURROUND_LOW_WATER_X :: "extern \<Rightarrow> real" where
  "SURROUND_LOW_WATER_X env = CHUNK_WIDTH env / 3"

definition SURROUND_HIGH_WATER_X :: "extern \<Rightarrow> real" where
  "SURROUND_HIGH_WATER_X env = CHUNK_WIDTH env / 2"

definition SURROUND_LOW_WATER_Z :: "extern \<Rightarrow> real" where
  "SURROUND_LOW_WATER_Z env = CHUNK_HEIGHT env / 3"

definition SURROUND_HIGH_WATER_Z :: "extern \<Rightarrow> real" where
  "SURROUND_HIGH_WATER_Z env = CHUNK_HEIGHT env / 2"

subsection \<open>Vector helpers\<close>

definition PFM_Vec2_Sub :: "vec2 \<Rightarrow> vec2 \<Rightarrow> vec2" where
  "PFM_Vec2_Sub a b = (fst a - fst b, snd a - snd b)"

definition PFM_Vec2_Add :: "vec2 \<Rightarrow> vec2 \<Rightarrow> vec2" where
  "PFM_Vec2_Add a b = (fst a + fst b, snd a + snd b)"

definition PFM_Vec2_Scale :: "vec2 \<Rightarrow> real \<Rightarrow> vec2" where
  "PFM_Vec2_Scale a k = (fst a * k, snd a * k)"

definition PFM_Vec2_Len :: "vec2 \<Rightarrow> real" where
  "PFM_Vec2_Len a = sqrt (fst a * fst a + snd a * snd a)"

definition xz_of :: "vec3 \<Rightarrow> vec2" where
  "xz_of p = (case p of (x, y, z) \<Rightarrow> (x, z))"

subsection \<open>Failure\<close>

text \<open>
  A failed \<open>assert\<close>, a dereference of a null \<open>movestate\<close> pointer and a lookup of a key
  that a table does not hold all stop the program; the result is then \<open>None\<close>.
\<close>

definition c_assert :: "bool \<Rightarrow> unit option" where
  "c_assert b = (if b then Some () else None)"

definition emit :: "effect \<Rightarrow> move_state \<Rightarrow> move_state" where
  "emit e s = s\<lparr>effects := effects s @ [e]\<rparr>"

subsection \<open>Table lookups\<close>

definition G_GetSelectionRadiusFrom :: "(uid \<rightharpoonup> real) \<Rightarrow> uid \<Rightarrow> real option" where
  "G_GetSelectionRadiusFrom t u = t u"

definition G_Pos_GetXZFrom :: "(uid \<rightharpoonup> vec3) \<Rightarrow> uid \<Rightarrow> vec2 option" where
  "G_Pos_GetXZFrom t u = map_option xz_of (t u)"

definition G_FlagsGetFrom :: "(uid \<rightharpoonup> 32 word) \<Rightarrow> uid \<Rightarrow> 32 word option" where
  "G_FlagsGetFrom t u = t u"

definition G_GetFactionIDFrom :: "(uid \<rightharpoonup> int) \<Rightarrow> uid \<Rightarrow> int option" where
  "G_GetFactionIDFrom t u = t u"

definition movestate_get :: "move_state \<Rightarrow> uid \<Rightarrow> movestate option" where
  "movestate_get s u = map_of (s_entity_state_table s) u"

text \<open>A write through the pointer returned by \<open>movestate_get\<close>.\<close>

definition ms_write :: "uid \<Rightarrow> (movestate \<Rightarrow> movestate) \<Rightarrow> move_state \<Rightarrow> move_state option" where
  "ms_write u f s =
     (case movestate_get s u of
        None \<Rightarrow> None
      | Some ms \<Rightarrow> Some (s\<lparr>s_entity_state_table := AList.update u (f ms) (s_entity_state_table s)\<rparr>))"


subsection \<open>Flocks\<close>

definition flock_contains :: "flock \<Rightarrow> uid \<Rightarrow> bool" where
  "flock_contains fl u = (u \<in> set (ents fl))"

text \<open>\<open>flock_try_remove\<close> also tells the formation module when the entity was a member.\<close>

definition flock_try_remove :: "flock \<Rightarrow> uid \<Rightarrow> flock \<times> effect list" where
  "flock_try_remove fl u =
     (if u \<in> set (ents fl) then (fl\<lparr>ents := removeAll u (ents fl)\<rparr>, [Formation_RemoveUnit u])
      else (fl, []))"

text \<open>\<open>kh_put\<close> reports an existing key; \<open>flock_add\<close> asserts the key was new.\<close>

definition flock_add :: "flock \<Rightarrow> uid \<Rightarrow> flock option" where
  "flock_add fl u = do {
     c_assert (u \<notin> set (ents fl));
     Some (fl\<lparr>ents := ents fl @ [u]\<rparr>)
   }"

text \<open>The flock lookups return the index of the first match, standing for the pointer.\<close>

fun find_index_from :: "('a \<Rightarrow> bool) \<Rightarrow> nat \<Rightarrow> 'a list \<Rightarrow> nat option" where
  "find_index_from P i [] = None"
| "find_index_from P i (x # xs) = (if P x then Some i else find_index_from P (Suc i) xs)"

definition flock_for_ent :: "move_state \<Rightarrow> uid \<Rightarrow> nat option" where
  "flock_for_ent s u = find_index_from (\<lambda>fl. flock_contains fl u) 0 (s_flocks s)"

definition flock_for_dest :: "move_state \<Rightarrow> dest_id_t \<Rightarrow> nat option" where
  "flock_for_dest s d = find_index_from (\<lambda>fl. dest_id fl = d) 0 (s_flocks s)"

text \<open>
  \<open>vec_flock_del\<close>: the last element of the vector takes the place of the deleted one.
\<close>

definition vec_del :: "'a list \<Rightarrow> nat \<Rightarrow> 'a list" where
  "vec_del xs i = (if Suc i = length xs then butlast xs else (butlast xs)[i := last xs])"

subsection \<open>Blocking and unblocking\<close>

definition entity_block :: "move_state \<Rightarrow> uid \<Rightarrow> move_state option" where
  "entity_block s u = do {
     sel_radius \<leftarrow> G_GetSelectionRadiusFrom (gs_sel_radiuses s) u;
     pos \<leftarrow> G_Pos_GetXZFrom (gs_positions s) u;
     flags \<leftarrow> G_FlagsGetFrom (gs_flags s) u;
     faction_id \<leftarrow> G_GetFactionIDFrom (gs_faction_ids s) u;
     let s1 = emit (NavBlockersIncref pos sel_radius faction_id flags) s;
     ms \<leftarrow> movestate_get s1 u;
     c_assert (\<not> blocking ms);
     s2 \<leftarrow> ms_write u (\<lambda>m. m\<lparr>blocking := True, last_stop_pos := pos,
                               last_stop_radius := sel_radius\<rparr>) s1;
     Some (emit (Notify_MOVABLE_ENTITY_BLOCK u sel_radius pos) s2)
   }"

definition entity_unblock :: "move_state \<Rightarrow> uid \<Rightarrow> move_state option" where
  "entity_unblock s u = do {
     ms \<leftarrow> movestate_get s u;
     c_assert (blocking ms);
     faction_id \<leftarrow> G_GetFactionIDFrom (gs_faction_ids s) u;
     flags \<leftarrow> G_FlagsGetFrom (gs_flags s) u;
     let s1 = emit (NavBlockersDecref (last_stop_pos ms) (last_stop_radius ms) faction_id flags) s;
     s2 \<leftarrow> ms_write u (\<lambda>m. m\<lparr>blocking := False\<rparr>) s1;
     Some (emit (Notify_MOVABLE_ENTITY_UNBLOCK u (last_stop_radius ms) (last_stop_pos ms)) s2)
   }"

definition stationary :: "move_state \<Rightarrow> uid \<Rightarrow> bool" where
  "stationary s u =
     (case movestate_get s u of
        None \<Rightarrow> True
      | Some ms \<Rightarrow> max_speed ms = 0)"

definition ent_still :: "movestate \<Rightarrow> bool" where
  "ent_still ms = (state ms = STATE_ARRIVED \<or> state ms = STATE_WAITING)"

definition entity_finish_moving ::
  "extern \<Rightarrow> move_state \<Rightarrow> uid \<Rightarrow> arrival_state \<Rightarrow> bool \<Rightarrow> move_state option" where
  "entity_finish_moving env s u newstate block = do {
     ms \<leftarrow> movestate_get s u;
     c_assert (\<not> ent_still ms);
     let flags = G_FlagsGet env u;
     let s1 = emit (Notify_MOTION_END u) s;
     let s2 = (if flags AND ENTITY_FLAG_COMBATABLE env \<noteq> 0 \<and> newstate \<noteq> STATE_TURNING
               then emit (Combat_SetStance_AGGRESSIVE u) s1 else s1);
     s3 \<leftarrow> (if newstate = STATE_WAITING
            then ms_write u (\<lambda>m. m\<lparr>wait_prev := state m, wait_ticks_left := WAIT_TICKS\<rparr>) s2
            else Some s2);
     s4 \<leftarrow> ms_write u (\<lambda>m. m\<lparr>state := newstate, velocity := (0, 0)\<rparr>) s3;
     s5 \<leftarrow> (if block then entity_block s4 u else Some s4);
     ms' \<leftarrow> movestate_get s5 u;
     c_assert (ent_still ms');
     Some s5
   }"

text \<open>
  \<open>remove_from_flocks\<close> walks the flock vector from its last index down to 0, removes the
  entity from each flock and deletes every flock that is empty afterwards.
\<close>

fun remove_from_flocks_loop :: "uid \<Rightarrow> nat \<Rightarrow> flock list \<times> effect list \<Rightarrow> flock list \<times> effect list" where
  "remove_from_flocks_loop u 0 st = st"
| "remove_from_flocks_loop u (Suc i) (fls, effs) =
     (let (cur, es) = flock_try_remove (fls ! i) u;
          fls1 = fls[i := cur];
          fls2 = (if length (ents cur) = 0 then vec_del fls1 i else fls1)
      in remove_from_flocks_loop u i (fls2, effs @ es))"

definition remove_from_flocks :: "move_state \<Rightarrow> uid \<Rightarrow> move_state option" where
  "remove_from_flocks s u = do {
     let (fls, effs) = remove_from_flocks_loop u (length (s_flocks s)) (s_flocks s, effects s);
     let s1 = s\<lparr>s_flocks := fls, effects := effs\<rparr>;
     c_assert (flock_for_ent s1 u = None);
     Some s1
   }"

subsection \<open>Command handlers\<close>

definition do_stop :: "extern \<Rightarrow> move_state \<Rightarrow> uid \<Rightarrow> move_state option" where
  "do_stop env s u =
     (case movestate_get s u of
        None \<Rightarrow> Some s
      | Some ms \<Rightarrow> do {
          s1 \<leftarrow> (if \<not> ent_still ms then entity_finish_moving env s u STATE_ARRIVED True
                 else Some s);
          s2 \<leftarrow> remove_from_flocks s1 u;
          ms_write u (\<lambda>m. m\<lparr>state := STATE_ARRIVED\<rparr>) s2
        })"


text \<open>
  \<open>do_add_entity\<close> stores the entity in the gamestate tables, creates a zero-initialised
  \<open>movestate\<close> with the fields the initialiser names, asserts that the key is new, and
  blocks.
\<close>

definition new_movestate :: "vec3 \<Rightarrow> movestate" where
  "new_movestate pos =
     \<lparr> state = STATE_ARRIVED, max_speed = 0, velocity = (0, 0),
       next_pos = pos, prev_pos = pos,
       next_rot = (0, 0, 0, 0), prev_rot = (0, 0, 0, 0),
       step = 0, left = 0, blocking = False,
       last_stop_pos = (0, 0), last_stop_radius = 0,
       wait_prev = STATE_MOVING, wait_ticks_left = 0,
       vel_hist = replicate VEL_HIST_LEN (0, 0), vel_hist_idx = 0,
       surround_target_uid = 0, surround_target_prev = (0, 0),
       surround_nearest_prev = (0, 0), using_surround_field = False,
       target_prev_pos = (0, 0), target_range = 0, target_dir = (0, 0, 0, 0) \<rparr>"

definition do_add_entity ::
  "extern \<Rightarrow> move_state \<Rightarrow> uid \<Rightarrow> vec3 \<Rightarrow> real \<Rightarrow> int \<Rightarrow> move_state option" where
  "do_add_entity env s u pos selection_radius faction_id = do {
     let s1 = s\<lparr> gs_positions := (gs_positions s)(u \<mapsto> pos),
                gs_postree := insert (fst pos, snd (snd pos), u) (gs_postree s),
                gs_sel_radiuses := (gs_sel_radiuses s)(u \<mapsto> selection_radius),
                gs_faction_ids := (gs_faction_ids s)(u \<mapsto> faction_id),
                gs_flags := (gs_flags s)(u \<mapsto> G_FlagsGet env u) \<rparr>;
     c_assert (movestate_get s1 u = None);
     let s2 = s1\<lparr> s_entity_state_table := s_entity_state_table s1 @ [(u, new_movestate pos)] \<rparr>;
     entity_block s2 u
   }"

definition do_remove_entity :: "extern \<Rightarrow> move_state \<Rightarrow> uid \<Rightarrow> move_state option" where
  "do_remove_entity env s u =
     (case movestate_get s u of
        None \<Rightarrow> Some s
      | Some ms \<Rightarrow> do {
          flags \<leftarrow> G_FlagsGetFrom (gs_flags s) u;
          s1 \<leftarrow> do_stop env s u;
          s2 \<leftarrow> (if flags AND ENTITY_FLAG_GARRISONED env = 0 then entity_unblock s1 u
                 else Some s1);
          Some (s2\<lparr> s_entity_state_table := AList.delete u (s_entity_state_table s2) \<rparr>)
        })"

text \<open>
  \<open>unblock_if_still\<close> is the fragment
  \<open>if(ent_still(ms)) { entity_unblock(uid); E_Entity_Notify(EVENT_MOTION_START, ...); }\<close>
  that several handlers repeat; a null \<open>ms\<close> is a failure.
\<close>

definition unblock_if_still :: "move_state \<Rightarrow> uid \<Rightarrow> move_state option" where
  "unblock_if_still s u = do {
     ms \<leftarrow> movestate_get s u;
     if ent_still ms then do {
       s1 \<leftarrow> entity_unblock s u;
       Some (emit (Notify_MOTION_START u) s1)
     } else Some s
   }"

fun remove_all_from_flocks :: "move_state \<Rightarrow> uid list \<Rightarrow> move_state option" where
  "remove_all_from_flocks s [] = Some s"
| "remove_all_from_flocks s (u # us) = do {
     s1 \<leftarrow> remove_from_flocks s u;
     remove_all_from_flocks s1 us
   }"

text \<open>
  The second loop of \<open>make_flock\<close>: every unit that is not stationary is unblocked if it
  was still, added to the new flock and put into the moving state.
\<close>

fun make_flock_add_units ::
  "move_state \<Rightarrow> flock \<Rightarrow> arrival_state \<Rightarrow> uid list \<Rightarrow> (move_state \<times> flock) option" where
  "make_flock_add_units s nf st [] = Some (s, nf)"
| "make_flock_add_units s nf st (u # us) =
     (if stationary s u then make_flock_add_units s nf st us
      else do {
        s1 \<leftarrow> unblock_if_still s u;
        nf1 \<leftarrow> flock_add nf u;
        s2 \<leftarrow> ms_write u (\<lambda>m. m\<lparr>state := st\<rparr>) s1;
        make_flock_add_units s2 nf1 st us
      })"

fun flock_add_all :: "flock \<Rightarrow> uid list \<Rightarrow> flock option" where
  "flock_add_all fl [] = Some fl"
| "flock_add_all fl (u # us) = do {
     fl1 \<leftarrow> flock_add fl u;
     flock_add_all fl1 us
   }"

definition make_flock ::
  "extern \<Rightarrow> move_state \<Rightarrow> uid list \<Rightarrow> vec2 \<Rightarrow> nav_layer \<Rightarrow> bool \<Rightarrow> nat
     \<Rightarrow> (bool \<times> move_state) option" where
  "make_flock env s units target layer attack type =
     (case units of
        [] \<Rightarrow> Some (True, s)
      | first # _ \<Rightarrow> do {
          first_ent_pos_xz \<leftarrow> G_Pos_GetXZFrom (gs_positions s) first;
          let target1 = M_NavClosestReachableDest env layer first_ent_pos_xz target;
          s1 \<leftarrow> remove_all_from_flocks s units;
          let new_flock = \<lparr> ents = [], target_xz = target1, dest_id = 0 \<rparr>;
          (s2, nf) \<leftarrow> make_flock_add_units s1 new_flock
             (if type = FORMATION_NONE env then STATE_MOVING else STATE_MOVING_IN_FORMATION) units;
          d \<leftarrow> (if attack then do {
                  faction_id \<leftarrow> G_GetFactionIDFrom (gs_faction_ids s2) first;
                  Some (M_NavDestIDForPosAttacking env target1 layer faction_id)
                } else Some (M_NavDestIDForPos env target1 layer));
          let nf1 = nf\<lparr> dest_id := d \<rparr>;
          if length (ents nf1) = 0 then Some (False, s2)
          else do {
            s3 \<leftarrow> (case flock_for_dest s2 d of
                     Some m \<Rightarrow> do {
                       merged \<leftarrow> flock_add_all (s_flocks s2 ! m) (ents nf1);
                       Some (s2\<lparr> s_flocks := (s_flocks s2)[m := merged] \<rparr>)
                     }
                   | None \<Rightarrow> Some (s2\<lparr> s_flocks := s_flocks s2 @ [nf1] \<rparr>));
            Some (True, s3\<lparr> s_last_cmd_dest := Some d \<rparr>)
          }
        })"

text \<open>
  In \<open>do_set_dest\<close> the pointer \<open>fl\<close> into the flock vector is taken before
  \<open>remove_from_flocks\<close> runs. \<open>flock_ptr_after_remove\<close> follows the flock that the
  pointer refers to through the deletions of that loop: a deletion of the flock itself
  leaves a dangling pointer (\<open>None\<close>), and a deletion elsewhere moves the flock when it
  was the last element of the vector.
\<close>

fun flock_ptr_after_remove :: "uid \<Rightarrow> nat \<Rightarrow> flock list \<Rightarrow> nat \<Rightarrow> nat option" where
  "flock_ptr_after_remove u 0 fls p = Some p"
| "flock_ptr_after_remove u (Suc i) fls p =
     (let (cur, es) = flock_try_remove (fls ! i) u;
          fls1 = fls[i := cur]
      in if length (ents cur) = 0
         then (if p = i then None
               else flock_ptr_after_remove u i (vec_del fls1 i)
                      (if Suc p = length fls1 then i else p))
         else flock_ptr_after_remove u i fls1 p)"

definition do_set_dest ::
  "extern \<Rightarrow> move_state \<Rightarrow> uid \<Rightarrow> vec2 \<Rightarrow> bool \<Rightarrow> move_state option" where
  "do_set_dest env s u dest_xz attack = do {
     radius \<leftarrow> G_GetSelectionRadiusFrom (gs_sel_radiuses s) u;
     flags \<leftarrow> G_FlagsGetFrom (gs_flags s) u;
     let layer = Entity_NavLayerWithRadius env flags radius;
     pos \<leftarrow> G_Pos_GetXZFrom (gs_positions s) u;
     let dest1 = M_NavClosestReachableDest env layer pos dest_xz;
     d \<leftarrow> (if attack then do {
             faction_id \<leftarrow> G_GetFactionIDFrom (gs_faction_ids s) u;
             Some (M_NavDestIDForPosAttacking env dest1 layer faction_id)
           } else Some (M_NavDestIDForPos env dest1 layer));
     case flock_for_dest s d of
       Some i \<Rightarrow>
         if flock_for_ent s u = Some i then do {
           s1 \<leftarrow> unblock_if_still s u;
           ms_write u (\<lambda>m. m\<lparr>state := STATE_MOVING\<rparr>) s1
         } else do {
           s1 \<leftarrow> remove_from_flocks s u;
           j \<leftarrow> flock_ptr_after_remove u (length (s_flocks s)) (s_flocks s) i;
           fl1 \<leftarrow> flock_add (s_flocks s1 ! j) u;
           let s2 = s1\<lparr> s_flocks := (s_flocks s1)[j := fl1] \<rparr>;
           s3 \<leftarrow> unblock_if_still s2 u;
           s4 \<leftarrow> ms_write u (\<lambda>m. m\<lparr>state := STATE_MOVING\<rparr>) s3;
           c_assert (flock_for_ent s4 u \<noteq> None);
           Some s4
         }
     | None \<Rightarrow> do {
         let type = (case G_Formation_GetForEnt env u of
                       None \<Rightarrow> FORMATION_NONE env
                     | Some fid \<Rightarrow> G_Formation_Type env fid);
         (ret, s1) \<leftarrow> make_flock env s [u] dest1 layer attack type;
         Some s1
       }
   }"

definition do_set_change_direction :: "move_state \<Rightarrow> uid \<Rightarrow> quat \<Rightarrow> move_state option" where
  "do_set_change_direction s u target =
     (case movestate_get s u of
        None \<Rightarrow> Some s
      | Some ms \<Rightarrow> do {
          s1 \<leftarrow> unblock_if_still s u;
          ms_write u (\<lambda>m. m\<lparr>state := STATE_TURNING, target_dir := target\<rparr>) s1
        })"

definition do_set_enter_range ::
  "extern \<Rightarrow> move_state \<Rightarrow> uid \<Rightarrow> uid \<Rightarrow> real \<Rightarrow> move_state option" where
  "do_set_enter_range env s u target rng =
     (case movestate_get s u of
        None \<Rightarrow> Some s
      | Some ms \<Rightarrow> do {
          xz_src \<leftarrow> G_Pos_GetXZFrom (gs_positions s) u;
          xz_dst \<leftarrow> G_Pos_GetXZFrom (gs_positions s) target;
          radius \<leftarrow> G_GetSelectionRadiusFrom (gs_sel_radiuses s) u;
          let range1 = (if 0 > rng - radius then 0 else rng - radius);
          if PFM_Vec2_Len (PFM_Vec2_Sub xz_src xz_dst) \<le> range1 then do_stop env s u
          else do {
            flags \<leftarrow> G_FlagsGetFrom (gs_flags s) u;
            let xz_target = M_NavClosestReachableInRange env
                  (Entity_NavLayerWithRadius env flags radius) xz_src xz_dst (range1 - radius);
            s1 \<leftarrow> do_set_dest env s u xz_target False;
            ms_write u (\<lambda>m. m\<lparr> state := STATE_ENTER_ENTITY_RANGE, surround_target_uid := target,
                                 target_prev_pos := xz_dst, target_range := range1 \<rparr>) s1
          }
        })"

definition using_surround_field_at :: "extern \<Rightarrow> move_state \<Rightarrow> uid \<Rightarrow> uid \<Rightarrow> bool option" where
  "using_surround_field_at env s u target = do {
     pos_xz \<leftarrow> G_Pos_GetXZFrom (gs_positions s) u;
     target_pos_xz \<leftarrow> G_Pos_GetXZFrom (gs_positions s) target;
     let dx = \<bar>fst target_pos_xz - fst pos_xz\<bar>;
     let dz = \<bar>snd target_pos_xz - snd pos_xz\<bar>;
     Some (dx < SURROUND_LOW_WATER_X env \<and> dz < SURROUND_LOW_WATER_Z env)
   }"

definition do_set_surround_entity ::
  "extern \<Rightarrow> move_state \<Rightarrow> uid \<Rightarrow> uid \<Rightarrow> move_state option" where
  "do_set_surround_entity env s u target =
     (case movestate_get s u of
        None \<Rightarrow> Some s
      | Some ms \<Rightarrow> do {
          s1 \<leftarrow> do_stop env s u;
          pos \<leftarrow> G_Pos_GetXZFrom (gs_positions s1) target;
          s2 \<leftarrow> do_set_dest env s1 u pos False;
          ms2 \<leftarrow> movestate_get s2 u;
          c_assert (\<not> blocking ms2);
          usf \<leftarrow> using_surround_field_at env s2 u target;
          ms_write u (\<lambda>m. m\<lparr> state := STATE_SURROUND_ENTITY, surround_target_uid := target,
                               using_surround_field := usf \<rparr>) s2
        })"

definition do_set_seek_enemies :: "move_state \<Rightarrow> uid \<Rightarrow> move_state option" where
  "do_set_seek_enemies s u =
     (case movestate_get s u of
        None \<Rightarrow> Some s
      | Some ms \<Rightarrow> do {
          s1 \<leftarrow> remove_from_flocks s u;
          s2 \<leftarrow> unblock_if_still s1 u;
          ms_write u (\<lambda>m. m\<lparr>state := STATE_SEEK_ENEMIES\<rparr>) s2
        })"

definition unit_height :: "extern \<Rightarrow> move_state \<Rightarrow> uid \<Rightarrow> vec2 \<Rightarrow> real option" where
  "unit_height env s u pos = do {
     flags \<leftarrow> G_FlagsGetFrom (gs_flags s) u;
     if flags AND ENTITY_FLAG_WATER env \<noteq> 0 then Some 0
     else if flags AND ENTITY_FLAG_AIR env \<noteq> 0 then Some (M_HeightAtPoint env pos + AIR_UNIT_HEIGHT env)
     else Some (M_HeightAtPoint env pos)
   }"

definition do_update_pos :: "extern \<Rightarrow> move_state \<Rightarrow> uid \<Rightarrow> vec2 \<Rightarrow> move_state option" where
  "do_update_pos env s u pos =
     (case movestate_get s u of
        None \<Rightarrow> Some s
      | Some ms \<Rightarrow> do {
          h \<leftarrow> unit_height env s u pos;
          let newpos = (fst pos, h, snd pos);
          oldpos \<leftarrow> gs_positions s u;
          let s1 = s\<lparr> gs_postree := insert (fst newpos, snd (snd newpos), u)
                                      (gs_postree s - {(fst oldpos, snd (snd oldpos), u)}),
                     gs_positions := (gs_positions s)(u \<mapsto> newpos) \<rparr>;
          if \<not> blocking ms then Some s1
          else do {
            faction_id \<leftarrow> G_GetFactionIDFrom (gs_faction_ids s1) u;
            flags \<leftarrow> G_FlagsGetFrom (gs_flags s1) u;
            let s2 = emit (NavBlockersDecref (last_stop_pos ms) (last_stop_radius ms) faction_id flags) s1;
            let s3 = emit (NavBlockersIncref pos (last_stop_radius ms) faction_id flags) s2;
            ms_write u (\<lambda>m. m\<lparr> last_stop_pos := pos, prev_pos := newpos, next_pos := newpos \<rparr>) s3
          }
        })"

definition do_update_faction_id :: "move_state \<Rightarrow> uid \<Rightarrow> int \<Rightarrow> int \<Rightarrow> move_state option" where
  "do_update_faction_id s u oldfac newfac =
     (case movestate_get s u of
        None \<Rightarrow> Some s
      | Some ms \<Rightarrow> do {
          c_assert (gs_faction_ids s u \<noteq> None);
          let s1 = s\<lparr> gs_faction_ids := (gs_faction_ids s)(u \<mapsto> newfac) \<rparr>;
          if \<not> blocking ms then Some s1
          else do {
            flags \<leftarrow> G_FlagsGetFrom (gs_flags s1) u;
            let s2 = emit (NavBlockersDecref (last_stop_pos ms) (last_stop_radius ms) oldfac flags) s1;
            Some (emit (NavBlockersIncref (last_stop_pos ms) (last_stop_radius ms) newfac flags) s2)
          }
        })"

definition do_update_selection_radius :: "move_state \<Rightarrow> uid \<Rightarrow> real \<Rightarrow> move_state option" where
  "do_update_selection_radius s u sel_radius =
     (case movestate_get s u of
        None \<Rightarrow> Some s
      | Some ms \<Rightarrow> do {
          c_assert (gs_sel_radiuses s u \<noteq> None);
          let s1 = s\<lparr> gs_sel_radiuses := (gs_sel_radiuses s)(u \<mapsto> sel_radius) \<rparr>;
          if \<not> blocking ms then Some s1
          else do {
            faction_id \<leftarrow> G_GetFactionIDFrom (gs_faction_ids s1) u;
            flags \<leftarrow> G_FlagsGetFrom (gs_flags s1) u;
            let s2 = emit (NavBlockersDecref (last_stop_pos ms) (last_stop_radius ms) faction_id flags) s1;
            let s3 = emit (NavBlockersIncref (last_stop_pos ms) sel_radius faction_id flags) s2;
            ms_write u (\<lambda>m. m\<lparr> last_stop_radius := sel_radius \<rparr>) s3
          }
        })"

definition do_set_max_speed :: "move_state \<Rightarrow> uid \<Rightarrow> real \<Rightarrow> move_state option" where
  "do_set_max_speed s u speed =
     (case movestate_get s u of
        None \<Rightarrow> Some s
      | Some ms \<Rightarrow> ms_write u (\<lambda>m. m\<lparr> max_speed := speed \<rparr>) s)"

definition do_block :: "move_state \<Rightarrow> uid \<Rightarrow> vec3 \<Rightarrow> move_state option" where
  "do_block s u newpos = do {
     oldpos \<leftarrow> gs_positions s u;
     let s1 = s\<lparr> gs_postree := insert (fst newpos, snd (snd newpos), u)
                                 (gs_postree s - {(fst oldpos, snd (snd oldpos), u)}),
                gs_positions := (gs_positions s)(u \<mapsto> newpos) \<rparr>;
     entity_block s1 u
   }"


fun filter_selection_pathable :: "extern \<Rightarrow> move_state \<Rightarrow> uid list \<Rightarrow> uid list option" where
  "filter_selection_pathable env s [] = Some []"
| "filter_selection_pathable env s (cur # rest) =
     (case movestate_get s cur of
        None \<Rightarrow> filter_selection_pathable env s rest
      | Some ms \<Rightarrow> do {
          xz_pos \<leftarrow> G_Pos_GetXZFrom (gs_positions s) cur;
          radius \<leftarrow> G_GetSelectionRadiusFrom (gs_sel_radiuses s) cur;
          flags \<leftarrow> G_FlagsGetFrom (gs_flags s) cur;
          out \<leftarrow> filter_selection_pathable env s rest;
          if \<not> M_NavPositionPathable env (Entity_NavLayerWithRadius env flags radius) xz_pos
          then Some out else Some (cur # out)
        })"

text \<open>
  \<open>split_into_layers\<close> pushes every entity on the vector of its navigation layer; a layer
  outside the array of \<open>NAV_LAYER_MAX\<close> vectors is an out-of-bounds write.
\<close>

fun split_into_layers :: "extern \<Rightarrow> move_state \<Rightarrow> uid list \<Rightarrow> (uid \<times> nav_layer) list option" where
  "split_into_layers env s [] = Some []"
| "split_into_layers env s (cur # rest) = do {
     radius \<leftarrow> G_GetSelectionRadiusFrom (gs_sel_radiuses s) cur;
     flags \<leftarrow> G_FlagsGetFrom (gs_flags s) cur;
     let layer = Entity_NavLayerWithRadius env flags radius;
     c_assert (layer < NAV_LAYER_MAX env);
     out \<leftarrow> split_into_layers env s rest;
     Some ((cur, layer) # out)
   }"

fun make_flocks_loop ::
  "extern \<Rightarrow> move_state \<Rightarrow> (uid \<times> nav_layer) list \<Rightarrow> vec2 \<Rightarrow> bool \<Rightarrow> nat \<Rightarrow> nav_layer list
     \<Rightarrow> move_state option" where
  "make_flocks_loop env s layered target attack type [] = Some s"
| "make_flocks_loop env s layered target attack type (i # ls) = do {
     (ret, s1) \<leftarrow> make_flock env s (map fst (filter (\<lambda>p. snd p = i) layered)) target i attack type;
     make_flocks_loop env s1 layered target attack type ls
   }"

definition make_flocks ::
  "extern \<Rightarrow> move_state \<Rightarrow> uid list \<Rightarrow> vec2 \<Rightarrow> vec2 \<Rightarrow> nat \<Rightarrow> bool \<Rightarrow> move_state option" where
  "make_flocks env s sel target target_orientation type attack = do {
     fsel \<leftarrow> filter_selection_pathable env s sel;
     if length fsel = 0 then Some s
     else do {
       layered \<leftarrow> split_into_layers env s fsel;
       s1 \<leftarrow> make_flocks_loop env s layered target attack type [0 ..< NAV_LAYER_MAX env];
       Some (emit (Formation_Create target target_orientation fsel type) s1)
     }
   }"

subsection \<open>The command queue\<close>

datatype move_cmd =
    MOVE_CMD_ADD uid vec3 real int
  | MOVE_CMD_REMOVE uid
  | MOVE_CMD_STOP uid
  | MOVE_CMD_SET_DEST uid vec2 bool
  | MOVE_CMD_CHANGE_DIRECTION uid quat
  | MOVE_CMD_SET_ENTER_RANGE uid uid real
  | MOVE_CMD_SET_SEEK_ENEMIES uid
  | MOVE_CMD_SET_SURROUND_ENTITY uid uid
  | MOVE_CMD_UPDATE_POS uid vec2
  | MOVE_CMD_UPDATE_FACTION_ID uid int int
  | MOVE_CMD_UPDATE_SELECTION_RADIUS uid real
  | MOVE_CMD_SET_MAX_SPEED uid real
  | MOVE_CMD_MAKE_FLOCKS "uid list" vec2 nat bool vec2
  | MOVE_CMD_UNBLOCK uid
  | MOVE_CMD_BLOCK uid vec3

text \<open>One iteration of the \<open>switch\<close> of \<open>move_process_cmds\<close>.\<close>

fun process_cmd :: "extern \<Rightarrow> move_state \<Rightarrow> move_cmd \<Rightarrow> move_state option" where
  "process_cmd env s (MOVE_CMD_ADD u pos radius faction_id) = do_add_entity env s u pos radius faction_id"
| "process_cmd env s (MOVE_CMD_REMOVE u) = do_remove_entity env s u"
| "process_cmd env s (MOVE_CMD_STOP u) = do_stop env s u"
| "process_cmd env s (MOVE_CMD_SET_DEST u dest_xz attack) = do_set_dest env s u dest_xz attack"
| "process_cmd env s (MOVE_CMD_CHANGE_DIRECTION u target) = do_set_change_direction s u target"
| "process_cmd env s (MOVE_CMD_SET_ENTER_RANGE u target rng) = do_set_enter_range env s u target rng"
| "process_cmd env s (MOVE_CMD_SET_SEEK_ENEMIES u) = do_set_seek_enemies s u"
| "process_cmd env s (MOVE_CMD_SET_SURROUND_ENTITY u target) = do_set_surround_entity env s u target"
| "process_cmd env s (MOVE_CMD_UPDATE_POS u pos) = do_update_pos env s u pos"
| "process_cmd env s (MOVE_CMD_UPDATE_FACTION_ID u oldfac newfac) = do_update_faction_id s u oldfac newfac"
| "process_cmd env s (MOVE_CMD_UPDATE_SELECTION_RADIUS u radius) = do_update_selection_radius s u radius"
| "process_cmd env s (MOVE_CMD_SET_MAX_SPEED u speed) = do_set_max_speed s u speed"
| "process_cmd env s (MOVE_CMD_MAKE_FLOCKS sel target type attack orientation) =
     make_flocks env s sel target orientation type attack"
| "process_cmd env s (MOVE_CMD_UNBLOCK u) =
     (case movestate_get s u of
        None \<Rightarrow> Some s
      | Some ms \<Rightarrow> if blocking ms then entity_unblock s u else Some s)"
| "process_cmd env s (MOVE_CMD_BLOCK u pos) =
     (case movestate_get s u of
        None \<Rightarrow> Some s
      | Some ms \<Rightarrow> if \<not> blocking ms then do_block s u pos else Some s)"

text \<open>
  \<open>move_process_cmds\<close> pops the queue until it is empty; an entry carries the
  \<open>deleted\<close> flag and is skipped when the flag is set.
\<close>

fun move_process_cmds :: "extern \<Rightarrow> move_state \<Rightarrow> (bool \<times> move_cmd) list \<Rightarrow> move_state option" where
  "move_process_cmds env s [] = Some s"
| "move_process_cmds env s ((deleted, cmd) # rest) =
     (if deleted then move_process_cmds env s rest
      else do {
        s1 \<leftarrow> process_cmd env s cmd;
        move_process_cmds env s1 rest
      })"


section \<open>Movement core: the tick\<close>

subsection \<open>Velocity history\<close>

definition update_vel_hist :: "movestate \<Rightarrow> vec2 \<Rightarrow> movestate option" where
  "update_vel_hist ms vnew = do {
     c_assert (vel_hist_idx ms \<ge> 0 \<and> vel_hist_idx ms < int VEL_HIST_LEN);
     Some (ms\<lparr> vel_hist := (vel_hist ms)[nat (vel_hist_idx ms) := vnew],
               vel_hist_idx := (vel_hist_idx ms + 1) mod int VEL_HIST_LEN \<rparr>)
   }"

text \<open>
  The weighted moving average. An index outside the array of \<open>VEL_HIST_LEN\<close> entries is
  a failure; for a history index that is not negative the C remainder is \<open>mod\<close>.
\<close>

fun vel_wma_loop :: "movestate \<Rightarrow> nat list \<Rightarrow> vec2 \<times> real \<Rightarrow> (vec2 \<times> real) option" where
  "vel_wma_loop ms [] acc = Some acc"
| "vel_wma_loop ms (i # rest) (ret, denom) = do {
     c_assert (vel_hist_idx ms \<ge> 0 \<and> length (vel_hist ms) = VEL_HIST_LEN);
     let term = vel_hist ms ! (nat (vel_hist_idx ms + int i) mod VEL_HIST_LEN);
     let term1 = PFM_Vec2_Scale term (real (VEL_HIST_LEN - i));
     vel_wma_loop ms rest (PFM_Vec2_Add ret term1, denom + real (VEL_HIST_LEN - i))
   }"

definition vel_wma :: "movestate \<Rightarrow> vec2 option" where
  "vel_wma ms = do {
     (ret, denom) \<leftarrow> vel_wma_loop ms [0 ..< VEL_HIST_LEN] ((0, 0), 0);
     if denom > EPSILON then Some (PFM_Vec2_Scale ret (1 / denom)) else Some ret
   }"

subsection \<open>Helpers of the state update\<close>

datatype movement_hz = MOVE_HZ_20 | MOVE_HZ_10 | MOVE_HZ_5 | MOVE_HZ_1

fun hz_count :: "movement_hz \<Rightarrow> int" where
  "hz_count MOVE_HZ_20 = 20"
| "hz_count MOVE_HZ_10 = 10"
| "hz_count MOVE_HZ_5 = 5"
| "hz_count MOVE_HZ_1 = 1"

definition interpolate_positions :: "vec3 \<Rightarrow> vec3 \<Rightarrow> real \<Rightarrow> vec3 option" where
  "interpolate_positions from to fraction = do {
     c_assert (fraction \<ge> 0 \<and> fraction \<le> 1);
     if \<bar>1 - fraction\<bar> < EPSILON then Some to
     else (case (from, to) of
             ((fx, fy, fz), (tx, ty, tz)) \<Rightarrow>
               Some (fx + (tx - fx) * fraction, fy + (ty - fy) * fraction, fz + (tz - fz) * fraction))
   }"

definition dir_quat_from_velocity :: "extern \<Rightarrow> vec2 \<Rightarrow> quat option" where
  "dir_quat_from_velocity env v = do {
     c_assert (PFM_Vec2_Len v > EPSILON);
     let angle_rad = atan2 env (snd v) (fst v) - pi / 2;
     Some (0, 1 * sin (angle_rad / 2), 0, cos (angle_rad / 2))
   }"

definition entity_exists :: "move_state \<Rightarrow> uid \<Rightarrow> bool" where
  "entity_exists s u = (gs_positions s u \<noteq> None)"

definition new_pos_for_vel :: "move_state \<Rightarrow> uid \<Rightarrow> vec2 \<Rightarrow> vec2 option" where
  "new_pos_for_vel s u v = do {
     xz_pos \<leftarrow> G_Pos_GetXZFrom (gs_positions s) u;
     Some (PFM_Vec2_Add xz_pos v)
   }"

definition arrived :: "extern \<Rightarrow> move_state \<Rightarrow> uid \<Rightarrow> vec2 \<Rightarrow> bool option" where
  "arrived env s u xz_pos = do {
     fi \<leftarrow> flock_for_ent s u;
     let fl = s_flocks s ! fi;
     let diff_to_target = PFM_Vec2_Sub (target_xz fl) xz_pos;
     radius \<leftarrow> G_GetSelectionRadiusFrom (gs_sel_radiuses s) u;
     let arrive_thresh = radius * 1.5;
     flags \<leftarrow> G_FlagsGetFrom (gs_flags s) u;
     let layer = Entity_NavLayerWithRadius env flags radius;
     if PFM_Vec2_Len diff_to_target < arrive_thresh
        \<or> (M_NavIsAdjacentToImpassable env layer xz_pos
            \<and> M_NavIsMaximallyClose env layer xz_pos (target_xz fl) arrive_thresh)
     then Some True
     else (case M_NavClosestPathable env layer (target_xz fl) of
             Some nearest \<Rightarrow>
               if PFM_Vec2_Len (PFM_Vec2_Sub nearest xz_pos) < arrive_thresh then Some True
               else Some False
           | None \<Rightarrow> Some False)
   }"

fun adjacent_flock_members :: "move_state \<Rightarrow> uid \<Rightarrow> uid list \<Rightarrow> uid list option" where
  "adjacent_flock_members s u [] = Some []"
| "adjacent_flock_members s u (cur # rest) =
     (if cur = u then adjacent_flock_members s u rest
      else do {
        ent_xz_pos \<leftarrow> G_Pos_GetXZFrom (gs_positions s) u;
        cur_xz_pos \<leftarrow> G_Pos_GetXZFrom (gs_positions s) cur;
        radius_uid \<leftarrow> G_GetSelectionRadiusFrom (gs_sel_radiuses s) u;
        radius_cur \<leftarrow> G_GetSelectionRadiusFrom (gs_sel_radiuses s) cur;
        out \<leftarrow> adjacent_flock_members s u rest;
        if PFM_Vec2_Len (PFM_Vec2_Sub ent_xz_pos cur_xz_pos)
             \<le> radius_uid + radius_cur + ADJACENCY_SEP_DIST
        then Some (cur # out) else Some out
      })"

text \<open>The loop over the adjacent flock members: is one of them in the arrived state?\<close>

fun any_adjacent_arrived :: "move_state \<Rightarrow> uid list \<Rightarrow> bool option" where
  "any_adjacent_arrived s [] = Some False"
| "any_adjacent_arrived s (a # rest) = do {
     adj_ms \<leftarrow> movestate_get s a;
     if state adj_ms = STATE_ARRIVED then Some True else any_adjacent_arrived s rest
   }"

subsection \<open>The patch\<close>

datatype movestate_flags =
    UPDATE_SET_STATE
  | UPDATE_SET_VELOCITY
  | UPDATE_SET_POSITION
  | UPDATE_SET_ROTATION
  | UPDATE_SET_NEXT_POS
  | UPDATE_SET_PREV_POS
  | UPDATE_SET_STEP
  | UPDATE_SET_LEFT
  | UPDATE_SET_NEXT_ROT
  | UPDATE_SET_PREV_ROT
  | UPDATE_SET_DEST
  | UPDATE_SET_TARGET_PREV
  | UPDATE_SET_MOVING
  | UPDATE_SET_TARGET_DIR

text \<open>
  The bit mask \<open>flags\<close> of the patch is the set of the flags whose bit is set. The other
  fields carry the prefix \<open>p_\<close>.
\<close>

record movestate_patch =
  p_flags :: "movestate_flags set"
  p_next_state :: arrival_state
  p_next_velocity :: vec2
  p_next_pos :: vec3
  p_next_rot :: quat
  p_next_block :: bool
  p_next_ppos :: vec3
  p_next_npos :: vec3
  p_next_step :: real
  p_next_left :: int
  p_next_nrot :: quat
  p_next_prot :: quat
  p_next_dest :: vec2
  p_next_attack :: bool
  p_next_target_prev :: vec2
  p_next_target_dir :: quat

text \<open>The part of \<open>struct move_work_in\<close> that the state update reads.\<close>

record formation_state =
  fid :: "nat option"
  assignment_ready :: bool
  assigned_to_cell :: bool
  in_range_of_cell :: bool
  arrived_at_cell :: bool
  target_orientation :: quat


subsection \<open>Computing the patch: \<open>entity_compute_update\<close>\<close>

text \<open>
  The patch lives in memory that is not initialised; the function receives its previous
  content as \<open>out\<close>. The two writes that the function makes to the \<open>movestate\<close> itself
  (in the surround and the waiting case) are returned in the state.
\<close>

definition patch_arrive :: "movestate_patch \<Rightarrow> movestate_patch" where
  "patch_arrive out = out\<lparr> p_flags := p_flags out \<union> {UPDATE_SET_STATE},
                             p_next_state := STATE_ARRIVED, p_next_block := True \<rparr>"

definition patch_wait :: "movestate_patch \<Rightarrow> movestate_patch" where
  "patch_wait out = out\<lparr> p_flags := p_flags out \<union> {UPDATE_SET_STATE},
                           p_next_state := STATE_WAITING, p_next_block := True \<rparr>"

text \<open>Flushing an interpolation that was not completed.\<close>

definition compute_flush :: "movestate \<Rightarrow> movestate_patch \<Rightarrow> movestate_patch" where
  "compute_flush ms out =
     (let out1 = out\<lparr> p_flags := {} \<rparr>
      in if left ms > 0
         then out1\<lparr> p_flags := p_flags out1 \<union> {UPDATE_SET_POSITION, UPDATE_SET_ROTATION, UPDATE_SET_LEFT},
                    p_next_pos := next_pos ms, p_next_rot := next_rot ms, p_next_left := 0 \<rparr>
         else out1)"

text \<open>The branch taken when the new velocity is not zero and the new position is pathable.\<close>

definition compute_motion ::
  "extern \<Rightarrow> movement_hz \<Rightarrow> move_state \<Rightarrow> uid \<Rightarrow> movestate \<Rightarrow> vec2 \<Rightarrow> vec2 \<Rightarrow> movestate_patch
     \<Rightarrow> (vec2 \<times> movestate_patch) option" where
  "compute_motion env hz s u ms new_vel new_pos_xz out = do {
     h \<leftarrow> unit_height env s u new_pos_xz;
     let new_pos = (fst new_pos_xz, h, snd new_pos_xz);
     let out1 = out\<lparr> p_flags := p_flags out \<union> {UPDATE_SET_PREV_POS, UPDATE_SET_NEXT_POS,
                                                  UPDATE_SET_STEP, UPDATE_SET_LEFT},
                      p_next_ppos := next_pos ms, p_next_npos := new_pos,
                      p_next_step := 1 / of_int (20 div hz_count hz),
                      p_next_left := 20 div hz_count hz - 1 \<rparr>;
     (xz1, out2) \<leftarrow>
        (if p_next_left out1 = 0
         then Some (new_pos_xz, out1\<lparr> p_flags := p_flags out1 \<union> {UPDATE_SET_POSITION},
                                      p_next_pos := new_pos \<rparr>)
         else do {
           intermediate \<leftarrow> interpolate_positions (p_next_ppos out1) (p_next_npos out1) (step ms);
           Some (xz_of intermediate, out1\<lparr> p_flags := p_flags out1 \<union> {UPDATE_SET_POSITION},
                                           p_next_pos := intermediate \<rparr>)
         });
     let out3 = out2\<lparr> p_flags := p_flags out2 \<union> {UPDATE_SET_VELOCITY, UPDATE_SET_PREV_ROT},
                       p_next_velocity := new_vel, p_next_prot := next_rot ms \<rparr>;
     wma \<leftarrow> vel_wma ms;
     nrot \<leftarrow> (if PFM_Vec2_Len wma > EPSILON then dir_quat_from_velocity env wma
              else Some (prev_rot ms));
     Some (xz1, out3\<lparr> p_flags := p_flags out3 \<union> {UPDATE_SET_NEXT_ROT, UPDATE_SET_ROTATION},
                      p_next_nrot := nrot, p_next_rot := next_rot ms \<rparr>)
   }"

text \<open>The cases \<open>STATE_MOVING\<close> and \<open>STATE_MOVING_IN_FORMATION\<close> of the \<open>switch\<close>.\<close>

definition compute_moving ::
  "extern \<Rightarrow> move_state \<Rightarrow> uid \<Rightarrow> vec2 \<Rightarrow> vec2 \<Rightarrow> formation_state \<Rightarrow> movestate_patch
     \<Rightarrow> movestate_patch option" where
  "compute_moving env s u new_pos_xz vdes inp out =
     (if fid inp \<noteq> None \<and> \<not> assignment_ready inp then Some out
      else if fid inp \<noteq> None \<and> assigned_to_cell inp \<and> in_range_of_cell inp
      then Some (out\<lparr> p_flags := p_flags out \<union> {UPDATE_SET_STATE},
                       p_next_state := STATE_ARRIVING_TO_CELL \<rparr>)
      else do {
        fi \<leftarrow> flock_for_ent s u;
        arr \<leftarrow> arrived env s u new_pos_xz;
        if arr then Some (patch_arrive out)
        else do {
          adjacent \<leftarrow> adjacent_flock_members s u (ents (s_flocks s ! fi));
          done \<leftarrow> any_adjacent_arrived s adjacent;
          if done then Some (patch_arrive out)
          else if PFM_Vec2_Len vdes < EPSILON then do {
            c_assert (flock_for_ent s u \<noteq> None);
            Some (patch_wait out)
          }
          else Some out
        }
      })"

definition compute_surround ::
  "extern \<Rightarrow> move_state \<Rightarrow> uid \<Rightarrow> movestate \<Rightarrow> vec2 \<Rightarrow> vec2 \<Rightarrow> nav_layer \<Rightarrow> movestate_patch
     \<Rightarrow> (move_state \<times> movestate_patch) option" where
  "compute_surround env s u ms new_pos_xz vdes layer out =
     (if surround_target_uid ms = NULL_UID env then Some (s, patch_arrive out)
      else if \<not> entity_exists s (surround_target_uid ms)
              \<or> M_NavObjAdjacent env u (surround_target_uid ms)
      then Some (s, patch_arrive out)
      else do {
        target_pos \<leftarrow> G_Pos_GetXZFrom (gs_positions s) (surround_target_uid ms);
        let delta = PFM_Vec2_Sub target_pos (surround_target_prev ms);
        let hasdest =
              (if PFM_Vec2_Len delta > EPSILON \<or> PFM_Vec2_Len (velocity ms) < EPSILON
               then M_NavClosestReachableAdjacentPos env layer new_pos_xz (surround_target_uid ms)
               else Some (surround_nearest_prev ms));
        case hasdest of
          None \<Rightarrow> Some (s, patch_arrive out)
        | Some dest \<Rightarrow> do {
            fi \<leftarrow> flock_for_ent s u;
            let diff = PFM_Vec2_Sub (target_xz (s_flocks s ! fi)) dest;
            s1 \<leftarrow> ms_write u (\<lambda>m. m\<lparr> surround_target_prev := target_pos,
                                       surround_nearest_prev := dest \<rparr>) s;
            if PFM_Vec2_Len diff > EPSILON
            then Some (s1, out\<lparr> p_flags := p_flags out \<union> {UPDATE_SET_DEST, UPDATE_SET_STATE},
                                 p_next_dest := dest, p_next_attack := False,
                                 p_next_state := STATE_SURROUND_ENTITY \<rparr>)
            else if PFM_Vec2_Len vdes < EPSILON then Some (s1, patch_wait out)
            else Some (s1, out)
          }
      })"

definition compute_enter_range ::
  "extern \<Rightarrow> move_state \<Rightarrow> movestate \<Rightarrow> vec2 \<Rightarrow> nav_layer \<Rightarrow> movestate_patch
     \<Rightarrow> movestate_patch option" where
  "compute_enter_range env s ms new_pos_xz layer out =
     (if surround_target_uid ms = NULL_UID env then Some (patch_arrive out)
      else do {
        xz_target \<leftarrow> G_Pos_GetXZFrom (gs_positions s) (surround_target_uid ms);
        let delta = PFM_Vec2_Sub new_pos_xz xz_target;
        if PFM_Vec2_Len delta \<le> target_range ms
           \<or> (M_NavIsAdjacentToImpassable env layer new_pos_xz
               \<and> M_NavIsMaximallyClose env layer new_pos_xz xz_target 0)
        then Some (patch_wait out)
        else if PFM_Vec2_Len (PFM_Vec2_Sub xz_target (target_prev_pos ms)) > 5
        then Some (out\<lparr> p_flags := p_flags out \<union> {UPDATE_SET_DEST, UPDATE_SET_TARGET_PREV},
                         p_next_dest := xz_target, p_next_attack := False,
                         p_next_target_prev := xz_target \<rparr>)
        else Some out
      })"

definition compute_turning :: "extern \<Rightarrow> uid \<Rightarrow> movestate \<Rightarrow> movestate_patch \<Rightarrow> movestate_patch" where
  "compute_turning env u ms out =
     (let ent_rot = Entity_GetRot env u;
          angle_diff = PFM_Quat_PitchDiff env ent_rot (target_dir ms);
          degrees = angle_diff * 180 / pi
      in if \<bar>degrees\<bar> \<le> 5 then patch_arrive out
         else
           let turn_deg = min MAX_TURN_RATE \<bar>degrees\<bar> * - sgn degrees;
               turn_rad = turn_deg * pi / 180;
               rot = PFM_Quat_FromRotMat env (PFM_Mat4x4_MakeRotY env turn_rad);
               final = PFM_Quat_Normal env (PFM_Quat_MultQuat env rot ent_rot)
           in out\<lparr> p_flags := p_flags out \<union> {UPDATE_SET_ROTATION, UPDATE_SET_PREV_ROT},
                    p_next_rot := final, p_next_prot := final \<rparr>)"

definition compute_waiting ::
  "move_state \<Rightarrow> uid \<Rightarrow> movestate \<Rightarrow> movestate_patch \<Rightarrow> (move_state \<times> movestate_patch) option" where
  "compute_waiting s u ms out = do {
     c_assert (wait_ticks_left ms > 0);
     s1 \<leftarrow> ms_write u (\<lambda>m. m\<lparr> wait_ticks_left := wait_ticks_left m - 1 \<rparr>) s;
     if wait_ticks_left ms - 1 = 0 then do {
       c_assert (wait_prev ms = STATE_MOVING \<or> wait_prev ms = STATE_MOVING_IN_FORMATION
                 \<or> wait_prev ms = STATE_SEEK_ENEMIES \<or> wait_prev ms = STATE_SURROUND_ENTITY);
       Some (s1, out\<lparr> p_flags := p_flags out \<union> {UPDATE_SET_MOVING}, p_next_state := wait_prev ms \<rparr>)
     } else Some (s1, out)
   }"

definition compute_arriving_to_cell :: "formation_state \<Rightarrow> movestate_patch \<Rightarrow> movestate_patch" where
  "compute_arriving_to_cell inp out =
     (if fid inp = None
      then out\<lparr> p_flags := p_flags out \<union> {UPDATE_SET_STATE}, p_next_state := STATE_MOVING \<rparr>
      else if \<not> assignment_ready inp then out
      else if \<not> in_range_of_cell inp
      then out\<lparr> p_flags := p_flags out \<union> {UPDATE_SET_STATE},
                 p_next_state := STATE_MOVING_IN_FORMATION \<rparr>
      else if arrived_at_cell inp
      then out\<lparr> p_flags := p_flags out \<union> {UPDATE_SET_STATE, UPDATE_SET_TARGET_DIR},
                 p_next_target_dir := target_orientation inp, p_next_state := STATE_TURNING \<rparr>
      else out)"

text \<open>The \<open>switch\<close> on the arrival state.\<close>

definition compute_switch ::
  "extern \<Rightarrow> move_state \<Rightarrow> uid \<Rightarrow> movestate \<Rightarrow> vec2 \<Rightarrow> vec2 \<Rightarrow> nav_layer \<Rightarrow> formation_state
     \<Rightarrow> movestate_patch \<Rightarrow> (move_state \<times> movestate_patch) option" where
  "compute_switch env s u ms new_pos_xz vdes layer inp out =
     (case state ms of
        STATE_MOVING \<Rightarrow> map_option (Pair s) (compute_moving env s u new_pos_xz vdes inp out)
      | STATE_MOVING_IN_FORMATION \<Rightarrow>
          map_option (Pair s) (compute_moving env s u new_pos_xz vdes inp out)
      | STATE_SEEK_ENEMIES \<Rightarrow>
          Some (s, if PFM_Vec2_Len vdes < EPSILON then patch_wait out else out)
      | STATE_SURROUND_ENTITY \<Rightarrow> compute_surround env s u ms new_pos_xz vdes layer out
      | STATE_ENTER_ENTITY_RANGE \<Rightarrow>
          map_option (Pair s) (compute_enter_range env s ms new_pos_xz layer out)
      | STATE_TURNING \<Rightarrow> Some (s, compute_turning env u ms out)
      | STATE_WAITING \<Rightarrow> compute_waiting s u ms out
      | STATE_ARRIVED \<Rightarrow> Some (s, out)
      | STATE_ARRIVING_TO_CELL \<Rightarrow> Some (s, compute_arriving_to_cell inp out))"

definition entity_compute_update ::
  "extern \<Rightarrow> movement_hz \<Rightarrow> move_state \<Rightarrow> uid \<Rightarrow> vec2 \<Rightarrow> vec2 \<Rightarrow> formation_state
     \<Rightarrow> movestate_patch \<Rightarrow> (move_state \<times> movestate_patch) option" where
  "entity_compute_update env hz s u new_vel vdes inp out = do {
     ms \<leftarrow> movestate_get s u;
     let out1 = compute_flush ms out;
     c_assert (hz_count hz \<le> 20);
     c_assert (20 mod hz_count hz = 0);
     new_pos_xz \<leftarrow> new_pos_for_vel s u new_vel;
     radius \<leftarrow> G_GetSelectionRadiusFrom (gs_sel_radiuses s) u;
     flags \<leftarrow> G_FlagsGetFrom (gs_flags s) u;
     let layer = Entity_NavLayerWithRadius env flags radius;
     if flags AND ENTITY_FLAG_GARRISONED env \<noteq> 0
     then Some (s, if \<not> ent_still ms
                   then out1\<lparr> p_flags := p_flags out1 \<union> {UPDATE_SET_STATE},
                              p_next_state := STATE_ARRIVED, p_next_block := False \<rparr>
                   else out1)
     else do {
       (xz1, out2) \<leftarrow>
          (if PFM_Vec2_Len new_vel > 0 \<and> M_NavPositionPathable env layer new_pos_xz
           then compute_motion env hz s u ms new_vel new_pos_xz out1
           else Some (new_pos_xz, out1\<lparr> p_flags := p_flags out1 \<union> {UPDATE_SET_VELOCITY},
                                         p_next_velocity := (0, 0) \<rparr>));
       if \<not> M_NavPositionPathable env layer xz1 then Some (s, out2)
       else compute_switch env s u ms xz1 vdes layer inp out2
     }
   }"

subsection \<open>Applying the patch: \<open>entity_apply_update\<close>\<close>

definition ent_update_using_surround_field :: "extern \<Rightarrow> move_state \<Rightarrow> uid \<Rightarrow> move_state option" where
  "ent_update_using_surround_field env s u = do {
     ms \<leftarrow> movestate_get s u;
     pos_xz \<leftarrow> G_Pos_GetXZFrom (gs_positions s) u;
     target_pos_xz \<leftarrow> G_Pos_GetXZFrom (gs_positions s) (surround_target_uid ms);
     let dx = \<bar>fst target_pos_xz - fst pos_xz\<bar>;
     let dz = \<bar>snd target_pos_xz - snd pos_xz\<bar>;
     if \<not> using_surround_field ms then
       (if dx < SURROUND_LOW_WATER_X env \<and> dz < SURROUND_LOW_WATER_Z env
        then ms_write u (\<lambda>m. m\<lparr> using_surround_field := True \<rparr>) s
        else Some s)
     else
       (if dx \<ge> SURROUND_HIGH_WATER_X env \<or> dz \<ge> SURROUND_HIGH_WATER_Z env
        then ms_write u (\<lambda>m. m\<lparr> using_surround_field := False \<rparr>) s
        else Some s)
   }"

text \<open>The assignments of the interpolation, rotation and target fields, in source order.\<close>

definition apply_patch_fields :: "movestate_patch \<Rightarrow> movestate \<Rightarrow> movestate" where
  "apply_patch_fields patch m =
     (let m1 = (if UPDATE_SET_PREV_POS \<in> p_flags patch then m\<lparr> prev_pos := p_next_ppos patch \<rparr> else m);
          m2 = (if UPDATE_SET_NEXT_POS \<in> p_flags patch then m1\<lparr> next_pos := p_next_npos patch \<rparr> else m1);
          m3 = (if UPDATE_SET_STEP \<in> p_flags patch then m2\<lparr> step := p_next_step patch \<rparr> else m2);
          m4 = (if UPDATE_SET_LEFT \<in> p_flags patch then m3\<lparr> left := p_next_left patch \<rparr> else m3);
          m5 = (if UPDATE_SET_PREV_ROT \<in> p_flags patch then m4\<lparr> prev_rot := p_next_prot patch \<rparr> else m4);
          m6 = (if UPDATE_SET_NEXT_ROT \<in> p_flags patch then m5\<lparr> next_rot := p_next_nrot patch \<rparr> else m5);
          m7 = (if UPDATE_SET_TARGET_PREV \<in> p_flags patch
                then m6\<lparr> target_prev_pos := p_next_target_prev patch \<rparr> else m6)
      in if UPDATE_SET_TARGET_DIR \<in> p_flags patch then m7\<lparr> target_dir := p_next_target_dir patch \<rparr>
         else m7)"

text \<open>
  In the source the test of \<open>UPDATE_SET_MOVING\<close> is the body of the \<open>if\<close> statement
  that precedes it (that statement has no body of its own), so both conditions guard the
  wake-up.
\<close>

definition entity_apply_update ::
  "extern \<Rightarrow> move_state \<Rightarrow> uid \<Rightarrow> movestate_patch \<Rightarrow> move_state option" where
  "entity_apply_update env s u patch =
     (if \<not> G_EntityExists env u \<or> G_EntityIsZombie env u then Some s
      else case movestate_get s u of
        None \<Rightarrow> Some s
      | Some ms \<Rightarrow> do {
          s1 \<leftarrow> (if UPDATE_SET_STATE \<in> p_flags patch
                 then (if p_next_state patch = STATE_ARRIVED \<or> p_next_state patch = STATE_WAITING
                       then entity_finish_moving env s u (p_next_state patch) (p_next_block patch)
                       else ms_write u (\<lambda>m. m\<lparr> state := p_next_state patch \<rparr>) s)
                 else Some s);
          s2 \<leftarrow> (if UPDATE_SET_VELOCITY \<in> p_flags patch
                 then do {
                   m \<leftarrow> movestate_get s1 u;
                   m1 \<leftarrow> update_vel_hist (m\<lparr> velocity := p_next_velocity patch \<rparr>) (p_next_velocity patch);
                   ms_write u (\<lambda>_. m1) s1
                 }
                 else Some s1);
          let s3 = (if UPDATE_SET_POSITION \<in> p_flags patch then emit (Pos_Set u (p_next_pos patch)) s2 else s2);
          let s4 = (if UPDATE_SET_ROTATION \<in> p_flags patch then emit (Entity_SetRot u (p_next_rot patch)) s3 else s3);
          s5 \<leftarrow> ms_write u (apply_patch_fields patch) s4;
          s6 \<leftarrow> (if UPDATE_SET_STATE \<in> p_flags patch
                    \<and> (p_next_state patch = STATE_ARRIVED \<or> p_next_state patch = STATE_WAITING)
                 then (if UPDATE_SET_MOVING \<in> p_flags patch
                       then do {
                         s' \<leftarrow> entity_unblock s5 u;
                         ms_write u (\<lambda>m. m\<lparr> state := p_next_state patch \<rparr>)
                           (emit (Notify_MOTION_START u) s')
                       }
                       else Some s5)
                 else Some s5);
          ms6 \<leftarrow> movestate_get s6 u;
          if state ms6 = STATE_SURROUND_ENTITY then ent_update_using_surround_field env s6 u
          else Some s6
        })"


subsection \<open>The tick on the owning thread: \<open>move_do_tick\<close>\<close>

fun all_arrived :: "move_state \<Rightarrow> uid list \<Rightarrow> bool option" where
  "all_arrived s [] = Some True"
| "all_arrived s (u # us) = do {
     ms \<leftarrow> movestate_get s u;
     if state ms \<noteq> STATE_ARRIVED then Some False else all_arrived s us
   }"

fun disband_empty_flocks_loop :: "move_state \<Rightarrow> nat \<Rightarrow> move_state option" where
  "disband_empty_flocks_loop s 0 = Some s"
| "disband_empty_flocks_loop s (Suc i) = do {
     let fl = s_flocks s ! i;
     disband \<leftarrow> all_arrived s (ents fl);
     let s1 = (if disband
               then s\<lparr> s_flocks := vec_del (s_flocks s) i,
                        effects := effects s @ map Formation_RemoveUnit (ents fl) \<rparr>
               else s);
     disband_empty_flocks_loop s1 i
   }"

definition disband_empty_flocks :: "move_state \<Rightarrow> move_state option" where
  "disband_empty_flocks s = disband_empty_flocks_loop s (length (s_flocks s))"

fun move_consume_work_results ::
  "extern \<Rightarrow> move_state \<Rightarrow> (uid \<times> movestate_patch) list \<Rightarrow> move_state option" where
  "move_consume_work_results env s [] = Some s"
| "move_consume_work_results env s ((u, patch) # rest) = do {
     s1 \<leftarrow> entity_apply_update env s u patch;
     move_consume_work_results env s1 rest
   }"

text \<open>
  \<open>move_copy_gamestate\<close> replaces the gamestate tables by fresh copies of the engine's
  tables, which are an argument here.
\<close>

record move_gamestate =
  flags_copy :: "uid \<rightharpoonup> 32 word"
  positions_copy :: "uid \<rightharpoonup> vec3"
  postree_copy :: "(real \<times> real \<times> uid) set"
  sel_radiuses_copy :: "uid \<rightharpoonup> real"
  faction_ids_copy :: "uid \<rightharpoonup> int"

definition move_copy_gamestate :: "move_gamestate \<Rightarrow> move_state \<Rightarrow> move_state" where
  "move_copy_gamestate g s =
     s\<lparr> gs_flags := flags_copy g, gs_positions := positions_copy g,
        gs_postree := postree_copy g, gs_sel_radiuses := sel_radiuses_copy g,
        gs_faction_ids := faction_ids_copy g \<rparr>"

text \<open>
  The synchronous part of a tick: the patches of the previous tick are applied, the
  command queue is drained, flocks whose members have all arrived are disbanded, the
  gamestate is copied, and a work item is pushed for every entity that is not still. The
  result is the new state and the UIDs of the work items.
\<close>

definition move_do_tick ::
  "extern \<Rightarrow> move_state \<Rightarrow> (uid \<times> movestate_patch) list \<Rightarrow> (bool \<times> move_cmd) list
     \<Rightarrow> move_gamestate \<Rightarrow> (move_state \<times> uid list) option" where
  "move_do_tick env s work_out cmds g = do {
     s1 \<leftarrow> move_consume_work_results env s work_out;
     s2 \<leftarrow> move_process_cmds env s1 cmds;
     s3 \<leftarrow> disband_empty_flocks s2;
     let s4 = move_copy_gamestate g s3;
     Some (s4, map fst (filter (\<lambda>(u, ms). \<not> ent_still ms) (s_entity_state_table s4)))
   }"


section \<open>Sample data\<close>

text \<open>
  A concrete environment and concrete states, on which the theorems below are
  instantiated: every position is pathable, the navigation layer is always 0, and the
  destination id of a point is the integer part of its x coordinate.
\<close>

definition sample_extern :: extern where
  "sample_extern =
     \<lparr> ENTITY_FLAG_COMBATABLE = 2, ENTITY_FLAG_GARRISONED = 4, ENTITY_FLAG_WATER = 8,
       ENTITY_FLAG_AIR = 16, AIR_UNIT_HEIGHT = 20, NULL_UID = 4294967295, NAV_LAYER_MAX = 4,
       X_COORDS_PER_TILE = 8, Z_COORDS_PER_TILE = 8,
       TILES_PER_CHUNK_WIDTH = 32, TILES_PER_CHUNK_HEIGHT = 32,
       G_FlagsGet = (\<lambda>u. 0), G_EntityExists = (\<lambda>u. True), G_EntityIsZombie = (\<lambda>u. False),
       Entity_GetRot = (\<lambda>u. (0, 0, 0, 1)),
       Entity_NavLayerWithRadius = (\<lambda>f r. 0),
       M_HeightAtPoint = (\<lambda>p. 0),
       M_NavPositionPathable = (\<lambda>l p. True),
       M_NavClosestReachableDest = (\<lambda>l p d. d),
       M_NavClosestReachableInRange = (\<lambda>l p d r. d),
       M_NavDestIDForPos = (\<lambda>d l. nat \<lfloor>fst d\<rfloor>),
       M_NavDestIDForPosAttacking = (\<lambda>d l f. nat \<lfloor>fst d\<rfloor> + 1000),
       M_NavIsAdjacentToImpassable = (\<lambda>l p. False),
       M_NavIsMaximallyClose = (\<lambda>l p t r. False),
       M_NavClosestPathable = (\<lambda>l t. Some t),
       M_NavObjAdjacent = (\<lambda>a b. False),
       M_NavClosestReachableAdjacentPos = (\<lambda>l p t. None),
       G_Formation_GetForEnt = (\<lambda>u. None),
       G_Formation_Type = (\<lambda>f. 0),
       FORMATION_NONE = 2,
       PFM_Quat_PitchDiff = (\<lambda>a b. 0),
       PFM_Mat4x4_MakeRotY = (\<lambda>a. []),
       PFM_Quat_FromRotMat = (\<lambda>m. (0, 0, 0, 1)),
       PFM_Quat_MultQuat = (\<lambda>a b. b),
       PFM_Quat_Normal = (\<lambda>q. q),
       atan2 = (\<lambda>y x. 0) \<rparr>"

text \<open>Entity 4 is moving at \<open>(10, 0)\<close>; entity 2 has arrived at \<open>(50, 0)\<close> and blocks.\<close>

definition sample_moving :: movestate where
  "sample_moving = (new_movestate (10, 0, 0))\<lparr> state := STATE_MOVING, max_speed := 5,
                                                velocity := (1, 0) \<rparr>"

definition sample_arrived :: movestate where
  "sample_arrived = (new_movestate (50, 0, 0))\<lparr> max_speed := 5, blocking := True,
                                                 last_stop_pos := (50, 0), last_stop_radius := 1 \<rparr>"

text \<open>
  Entities 4 and 2 are registered with the movement system and form the flock of
  destination 110; entity 3 is known to the game (it has a position, a radius, a
  faction and flags) but has no \<open>movestate\<close>.
\<close>

definition sample_state :: move_state where
  "sample_state =
     \<lparr> s_entity_state_table = [(4, sample_moving), (2, sample_arrived)],
       s_flocks = [\<lparr> ents = [4, 2], target_xz = (110, 0), dest_id = 110 \<rparr>],
       gs_flags = [4 \<mapsto> 0, 2 \<mapsto> 0, 3 \<mapsto> 0],
       gs_positions = [4 \<mapsto> (10, 0, 0), 2 \<mapsto> (50, 0, 0), 3 \<mapsto> (70, 0, 0)],
       gs_postree = {(10, 0, 4), (50, 0, 2), (70, 0, 3)},
       gs_sel_radiuses = [4 \<mapsto> 1, 2 \<mapsto> 1, 3 \<mapsto> 1],
       gs_faction_ids = [4 \<mapsto> 1, 2 \<mapsto> 1, 3 \<mapsto> 1],
       s_click_move_enabled = True,
       s_last_cmd_dest = Some 110,
       effects = [] \<rparr>"

definition sample_gamestate :: move_gamestate where
  "sample_gamestate =
     \<lparr> flags_copy = [4 \<mapsto> 0, 2 \<mapsto> 0, 3 \<mapsto> 0],
       positions_copy = [4 \<mapsto> (10, 0, 0), 2 \<mapsto> (50, 0, 0), 3 \<mapsto> (70, 0, 0)],
       postree_copy = {(10, 0, 4), (50, 0, 2), (70, 0, 3)},
       sel_radiuses_copy = [4 \<mapsto> 1, 2 \<mapsto> 1, 3 \<mapsto> 1],
       faction_ids_copy = [4 \<mapsto> 1, 2 \<mapsto> 1, 3 \<mapsto> 1] \<rparr>"

definition sample_patch :: movestate_patch where
  "sample_patch =
     \<lparr> p_flags = {}, p_next_state = STATE_MOVING, p_next_velocity = (0, 0),
       p_next_pos = (0, 0, 0), p_next_rot = (0, 0, 0, 0), p_next_block = False,
       p_next_ppos = (0, 0, 0), p_next_npos = (0, 0, 0), p_next_step = 0, p_next_left = 0,
       p_next_nrot = (0, 0, 0, 0), p_next_prot = (0, 0, 0, 0), p_next_dest = (0, 0),
       p_next_attack = False, p_next_target_prev = (0, 0), p_next_target_dir = (0, 0, 0, 0) \<rparr>"

definition sample_no_formation :: formation_state where
  "sample_no_formation =
     \<lparr> fid = None, assignment_ready = False, assigned_to_cell = False,
       in_range_of_cell = False, arrived_at_cell = False, target_orientation = (0, 0, 0, 0) \<rparr>"

text \<open>
  Entity 4 surrounds entity 2, which stands at the offset \<open>(dx, dz)\<close> from it; the chunk is
  256 by 256, so the low-water marks are 256/3 and the high-water marks 128.
\<close>

definition sample_surround_state :: "real \<Rightarrow> real \<Rightarrow> bool \<Rightarrow> move_state" where
  "sample_surround_state dx dz flag =
     sample_state\<lparr>
       s_entity_state_table :=
         [(4, sample_moving\<lparr> state := STATE_SURROUND_ENTITY, surround_target_uid := 2,
                              using_surround_field := flag \<rparr>),
          (2, sample_arrived)],
       gs_positions := [4 \<mapsto> (0, 0, 0), 2 \<mapsto> (dx, 0, dz)] \<rparr>"

text \<open>The sample state after an Unblock command for entity 2.\<close>

definition sample_after_unblock :: move_state where
  "sample_after_unblock =
     sample_state\<lparr>
       s_entity_state_table := [(4, sample_moving), (2, sample_arrived\<lparr> blocking := False \<rparr>)],
       effects := [NavBlockersDecref (50, 0) 1 1 0, Notify_MOVABLE_ENTITY_UNBLOCK 2 1 (50, 0)] \<rparr>"

text \<open>
  The patch that a tick computes for entity 4 of the sample state when both its new
  velocity and its desired velocity are zero.
\<close>

definition sample_wait_patch :: movestate_patch where
  "sample_wait_patch =
     sample_patch\<lparr> p_flags := {UPDATE_SET_VELOCITY, UPDATE_SET_STATE},
                   p_next_velocity := (0, 0), p_next_state := STATE_WAITING,
                   p_next_block := True \<rparr>"

section \<open>Auxiliary notions of the proofs\<close>

text \<open>A flock from which \<open>remove_from_flocks\<close> has nothing to remove and that it keeps.\<close>

definition flock_clean :: "uid \<Rightarrow> flock \<Rightarrow> bool" where
  "flock_clean u fl = (u \<notin> set (ents fl) \<and> ents fl \<noteq> [])"



section \<open>Cell assignment (formation.c)\<close>

text \<open>
  A subformation holds its entities, a grid of \<open>nrows\<close> by \<open>ncols\<close> cells stored row by
  row, and the assignment of entities to cells. The \<open>khash\<close> set of entities is the list of
  its keys in iteration order; a \<open>struct coord\<close> is a pair of a row and a column.
\<close>

datatype cell_state = CELL_NOT_PLACED | CELL_OCCUPIED | CELL_NOT_OCCUPIED | CELL_NOT_USED

type_synonym coord = "nat \<times> nat"

record cell =
  cell_st :: cell_state
  ideal_raw :: vec2
  ideal_binned :: vec2
  cell_pos :: vec2

record subformation =
  f_nrows :: nat
  f_ncols :: nat
  f_ents :: "uid list"
  f_cells :: "cell list"
  f_assignment :: "uid \<rightharpoonup> coord"

definition CELL_IDX :: "nat \<Rightarrow> nat \<Rightarrow> nat \<Rightarrow> nat" where
  "CELL_IDX row col n_cols = row * n_cols + col"

definition INT_MAX :: int where
  "INT_MAX = 2147483647"

definition INT_MIN :: int where
  "INT_MIN = - 2147483648"

text \<open>
  The part of \<open>init_subformation\<close> that sizes the grid, for \<open>ncols\<close> columns and \<open>nents\<close>
  entities: the number of rows is \<open>(nents / ncols) + !!(nents % ncols)\<close> on values of
  type \<open>size_t\<close>, and every cell starts as \<open>(struct cell){CELL_NOT_PLACED}\<close>. The
  function reads \<open>ents[0]\<close> and divides by \<open>ncols\<close>: there is no defined result without
  an entity or without a column. The result is the number of rows, the number of columns
  and the cells.
\<close>

definition init_subformation :: "nat \<Rightarrow> nat \<Rightarrow> (nat \<times> nat \<times> cell list) option" where
  "init_subformation n_cols nents =
     (if n_cols = 0 \<or> nents = 0 then None
      else
        let n_rows = nents div n_cols + (if nents mod n_cols \<noteq> 0 then 1 else 0);
            total = n_rows * n_cols
        in Some (n_rows, n_cols,
                 replicate total \<lparr> cell_st = CELL_NOT_PLACED, ideal_raw = (0, 0),
                                     ideal_binned = (0, 0), cell_pos = (0, 0) \<rparr>))"

subsection \<open>Square matrices\<close>

text \<open>
  The arrays of \<open>nents * nents\<close> elements are read through a pointer to rows of \<open>nents\<close>
  elements; they are lists of rows here.
\<close>

type_synonym 'a matrix = "'a list list"

definition mat_at :: "'a matrix \<Rightarrow> nat \<Rightarrow> nat \<Rightarrow> 'a" where
  "mat_at m i j = m ! i ! j"

definition mat_set :: "'a matrix \<Rightarrow> nat \<Rightarrow> nat \<Rightarrow> 'a \<Rightarrow> 'a matrix" where
  "mat_set m i j v = m[i := (m ! i)[j := v]]"

definition mat_const :: "nat \<Rightarrow> 'a \<Rightarrow> 'a matrix" where
  "mat_const n v = replicate n (replicate n v)"

subsection \<open>The cost matrix\<close>

text \<open>
  The \<open>do ... while\<close> loop that skips the cells that are not used: it returns the index
  after the next used cell. Reading past the end of the vector is \<open>None\<close>.
\<close>

function next_used_cell :: "cell list \<Rightarrow> nat \<Rightarrow> nat option" where
  "next_used_cell cells cell_idx =
     (if length cells \<le> cell_idx then None
      else if cell_st (cells ! cell_idx) = CELL_NOT_USED then next_used_cell cells (Suc cell_idx)
      else Some (Suc cell_idx))"
  by pat_completeness auto
termination
  by (relation "measure (\<lambda>(cells, cell_idx). length cells - cell_idx)") auto

declare next_used_cell.simps [simp del]

text \<open>The first loop of \<open>create_cost_matrix\<close>, for \<open>k\<close> more entities.\<close>

fun index_cells :: "cell list \<Rightarrow> nat \<Rightarrow> nat \<Rightarrow> nat \<Rightarrow> (nat \<times> coord list) option" where
  "index_cells cells n_cols 0 cell_idx = Some (cell_idx, [])"
| "index_cells cells n_cols (Suc k) cell_idx = do {
     idx \<leftarrow> next_used_cell cells cell_idx;
     c_assert (n_cols \<noteq> 0);
     (last_idx, rest) \<leftarrow> index_cells cells n_cols k idx;
     Some (last_idx, ((idx - 1) div n_cols, (idx - 1) mod n_cols) # rest)
   }"

text \<open>
  The conversion of a \<open>float\<close> to \<open>int\<close> truncates; it has no defined result when the
  value is out of the range of \<open>int\<close>.
\<close>

definition float_to_int :: "real \<Rightarrow> int option" where
  "float_to_int x =
     (if real_of_int INT_MIN - 1 < x \<and> x < real_of_int INT_MAX + 1
      then Some (if 0 \<le> x then \<lfloor>x\<rfloor> else \<lceil>x\<rceil>) else None)"

text \<open>
  \<open>PFM_Vec2_Sub\<close> and \<open>PFM_Vec2_Len\<close> (pf_math.c), \<open>powf\<close> (the C library), the
  multiplication of two \<open>float\<close> values and \<open>G_Pos_GetXZ\<close> are not part of formation.c:
  they are parameters. A result of \<open>None\<close> is a result that is not a finite number (an
  infinity or a NaN); an operation on such a value yields one again, and its conversion
  to \<open>int\<close> has no defined result.
\<close>

record formation_env =
  fe_G_Pos_GetXZ :: "uid \<Rightarrow> vec2"
  fe_PFM_Vec2_Sub :: "vec2 \<Rightarrow> vec2 \<Rightarrow> vec2 option"
  fe_PFM_Vec2_Len :: "vec2 \<Rightarrow> real option"
  fe_mul :: "real \<Rightarrow> real \<Rightarrow> real option"
  fe_powf :: "real \<Rightarrow> real \<Rightarrow> real option"

definition cell_cost :: "formation_env \<Rightarrow> cell list \<Rightarrow> nat \<Rightarrow> vec2 \<Rightarrow> coord \<Rightarrow> int option" where
  "cell_cost env cells n_cols pos cell_coord =
     (let cell_idx = CELL_IDX (fst cell_coord) (snd cell_coord) n_cols in
      if length cells \<le> cell_idx then None
      else if cell_st (cells ! cell_idx) = CELL_NOT_PLACED then Some INT_MAX
      else do {
        delta \<leftarrow> fe_PFM_Vec2_Sub env (cell_pos (cells ! cell_idx)) pos;
        len \<leftarrow> fe_PFM_Vec2_Len env delta;
        scaled \<leftarrow> fe_mul env len 100;
        squared_distance \<leftarrow> fe_powf env scaled 2;
        float_to_int squared_distance
      })"

text \<open>All elements of a list of optional values, when each is defined.\<close>

fun those_all :: "'a option list \<Rightarrow> 'a list option" where
  "those_all [] = Some []"
| "those_all (x # xs) = do { y \<leftarrow> x; ys \<leftarrow> those_all xs; Some (y # ys) }"

definition create_cost_matrix ::
  "formation_env \<Rightarrow> subformation \<Rightarrow> (int matrix \<times> coord list) option" where
  "create_cost_matrix env formation = do {
     let nents = length (f_ents formation);
     (cell_idx, out_idx_to_cell) \<leftarrow>
        index_cells (f_cells formation) (f_ncols formation) nents 0;
     c_assert (cell_idx = f_nrows formation * f_ncols formation);
     out_costs \<leftarrow> those_all (map (\<lambda>u.
        those_all (map (cell_cost env (f_cells formation) (f_ncols formation)
                          (fe_G_Pos_GetXZ env u))
                     out_idx_to_cell)) (f_ents formation));
     Some (out_costs, out_idx_to_cell)
   }"

subsection \<open>The helpers of the Hungarian algorithm\<close>

definition row_minimum :: "int matrix \<Rightarrow> nat \<Rightarrow> nat \<Rightarrow> int" where
  "row_minimum costs irow nents =
     fold (\<lambda>i m. min m (mat_at costs irow i)) [1 ..< nents] (mat_at costs irow 0)"

definition column_minimum :: "int matrix \<Rightarrow> nat \<Rightarrow> nat \<Rightarrow> int" where
  "column_minimum costs icol nents =
     fold (\<lambda>i m. min m (mat_at costs i icol)) [1 ..< nents] (mat_at costs 0 icol)"

definition assigned_in_column :: "bool matrix \<Rightarrow> nat \<Rightarrow> nat \<Rightarrow> bool" where
  "assigned_in_column starred nents icol = list_ex (\<lambda>i. mat_at starred i icol) [0 ..< nents]"

definition row_is_covered :: "bool matrix \<Rightarrow> nat \<Rightarrow> nat \<Rightarrow> bool" where
  "row_is_covered covered nents irow =
     (length (filter (\<lambda>i. mat_at covered irow i) [0 ..< nents]) = nents)"

definition cover_column :: "bool matrix \<Rightarrow> nat \<Rightarrow> nat \<Rightarrow> bool matrix" where
  "cover_column covered nents icol = fold (\<lambda>i cv. mat_set cv i icol True) [0 ..< nents] covered"

definition uncover_column :: "bool matrix \<Rightarrow> nat \<Rightarrow> nat \<Rightarrow> bool matrix" where
  "uncover_column covered nents icol =
     fold (\<lambda>i cv. if \<not> row_is_covered cv nents i then mat_set cv i icol False else cv)
       [0 ..< nents] covered"

definition cover_row :: "bool matrix \<Rightarrow> nat \<Rightarrow> nat \<Rightarrow> bool matrix" where
  "cover_row covered nents irow = fold (\<lambda>i cv. mat_set cv irow i True) [0 ..< nents] covered"

definition row_has_starred :: "bool matrix \<Rightarrow> nat \<Rightarrow> nat \<Rightarrow> nat option" where
  "row_has_starred starred nents irow = find (\<lambda>i. mat_at starred irow i) [0 ..< nents]"

definition column_is_covered :: "bool matrix \<Rightarrow> nat \<Rightarrow> nat \<Rightarrow> bool" where
  "column_is_covered covered nents icol =
     (length (filter (\<lambda>i. mat_at covered i icol) [0 ..< nents]) = nents)"

definition column_has_starred :: "bool matrix \<Rightarrow> nat \<Rightarrow> nat \<Rightarrow> nat option" where
  "column_has_starred starred nents icol = find (\<lambda>i. mat_at starred i icol) [0 ..< nents]"

text \<open>\<open>None\<close> is the \<open>assert(0)\<close> after the loop.\<close>

definition primed_zero_at_row :: "bool matrix \<Rightarrow> nat \<Rightarrow> nat \<Rightarrow> nat option" where
  "primed_zero_at_row primed nents irow = find (\<lambda>i. mat_at primed irow i) [0 ..< nents]"

definition count_covered_rows :: "bool matrix \<Rightarrow> nat \<Rightarrow> nat" where
  "count_covered_rows covered nents =
     length (filter (\<lambda>i. length (filter (\<lambda>j. mat_at covered i j) [0 ..< nents]) = nents)
               [0 ..< nents])"

definition count_covered_columns :: "bool matrix \<Rightarrow> nat \<Rightarrow> nat" where
  "count_covered_columns covered nents =
     length (filter (\<lambda>i. length (filter (\<lambda>j. mat_at covered j i) [0 ..< nents]) = nents)
               [0 ..< nents])"

definition min_uncovered_value :: "int matrix \<Rightarrow> bool matrix \<Rightarrow> nat \<Rightarrow> int" where
  "min_uncovered_value costs covered nents =
     fold (\<lambda>row m. fold (\<lambda>col m. if \<not> mat_at covered row col then min (mat_at costs row col) m else m)
                      [0 ..< nents] m)
       [0 ..< nents] INT_MAX"

subsection \<open>\<open>min_lines_to_cover_zeroes\<close>\<close>

text \<open>
  The loops at the label \<open>iterate\<close>: every row without a starred zero gets a star on its
  first zero whose column has none, and every column that holds a star is covered.
\<close>

definition star_row :: "int matrix \<Rightarrow> nat \<Rightarrow> nat \<Rightarrow> bool matrix \<Rightarrow> bool matrix" where
  "star_row costs nents row starred =
     (case find (\<lambda>col. mat_at starred row col \<or>
                        (mat_at costs row col = 0 \<and> \<not> assigned_in_column starred nents col))
             [0 ..< nents] of
        None \<Rightarrow> starred
      | Some col \<Rightarrow> if mat_at starred row col then starred else mat_set starred row col True)"

definition star_zeroes :: "int matrix \<Rightarrow> nat \<Rightarrow> bool matrix \<Rightarrow> bool matrix" where
  "star_zeroes costs nents starred = fold (star_row costs nents) [0 ..< nents] starred"

definition cover_starred_columns :: "bool matrix \<Rightarrow> nat \<Rightarrow> bool matrix \<Rightarrow> bool matrix" where
  "cover_starred_columns starred nents covered =
     fold (\<lambda>row cv. fold (\<lambda>col cv. if mat_at starred row col then cover_column cv nents col else cv)
                       [0 ..< nents] cv)
       [0 ..< nents] covered"

text \<open>The first zero that is not covered, rows first.\<close>

definition find_uncovered_zero :: "int matrix \<Rightarrow> bool matrix \<Rightarrow> nat \<Rightarrow> coord option" where
  "find_uncovered_zero costs covered nents =
     find (\<lambda>(row, col). mat_at costs row col = 0 \<and> \<not> mat_at covered row col)
       (List.product [0 ..< nents] [0 ..< nents])"

text \<open>
  The loop at the label \<open>next_path_zero\<close>. The array \<open>path\<close> has \<open>nents * nents\<close>
  elements; a write past its end is \<open>None\<close>.
\<close>

function next_path_zero ::
  "bool matrix \<Rightarrow> bool matrix \<Rightarrow> nat \<Rightarrow> nat \<Rightarrow> coord list \<Rightarrow> coord list option" where
  "next_path_zero starred primed nents primed_c path =
     (case column_has_starred starred nents primed_c of
        None \<Rightarrow> Some path
      | Some starred_r \<Rightarrow>
          if nents * nents < length path + 2 then None
          else (case primed_zero_at_row primed nents starred_r of
                  None \<Rightarrow> None
                | Some next_c \<Rightarrow>
                    next_path_zero starred primed nents next_c
                      (path @ [(starred_r, primed_c), (starred_r, next_c)])))"
  by pat_completeness auto
termination
  by (relation "measure (\<lambda>(starred, primed, nents, primed_c, path). nents * nents + 2 - length path)")
     auto

declare next_path_zero.simps [simp del]

text \<open>Stars the primed zeros of the path and unstars its starred zeros.\<close>

fun flip_path :: "bool matrix \<Rightarrow> bool matrix \<Rightarrow> coord list \<Rightarrow> bool matrix option" where
  "flip_path starred primed [] = Some starred"
| "flip_path starred primed (cur # rest) =
     (if mat_at starred (fst cur) (snd cur) = mat_at primed (fst cur) (snd cur) then None
      else if mat_at starred (fst cur) (snd cur)
           then flip_path (mat_set starred (fst cur) (snd cur) False) primed rest
           else flip_path (mat_set starred (fst cur) (snd cur) True) primed rest)"

text \<open>
  The \<open>do ... while(has_uncovered)\<close> loop. When the primed zero has no star on its row the
  stars are changed along the path, the primes and the cover are cleared, and the control
  goes back to \<open>iterate\<close>; the loop is then entered again. The result is the final stars
  and cover.
\<close>

partial_function (option) cover_loop ::
  "int matrix \<Rightarrow> nat \<Rightarrow> bool matrix \<Rightarrow> bool matrix \<Rightarrow> bool matrix \<Rightarrow> (bool matrix \<times> bool matrix) option" where
  "cover_loop costs nents starred covered primed =
     (case find_uncovered_zero costs covered nents of
        None \<Rightarrow> Some (starred, covered)
      | Some (primed_r, primed_c) \<Rightarrow>
          (case row_has_starred starred nents primed_r of
             Some starred_c \<Rightarrow>
               cover_loop costs nents starred
                 (cover_row (uncover_column covered nents starred_c) nents primed_r)
                 (mat_set primed primed_r primed_c True)
           | None \<Rightarrow>
               (case next_path_zero starred (mat_set primed primed_r primed_c True) nents primed_c
                       [(primed_r, primed_c)] of
                  None \<Rightarrow> None
                | Some path \<Rightarrow>
                    (case flip_path starred (mat_set primed primed_r primed_c True) path of
                       None \<Rightarrow> None
                     | Some flipped \<Rightarrow>
                         cover_loop costs nents (star_zeroes costs nents flipped)
                           (cover_starred_columns (star_zeroes costs nents flipped) nents
                              (mat_const nents False))
                           (mat_const nents False)))))"

text \<open>
  Step 4. An \<open>int\<close> sum or difference out of the range of \<open>int\<close> has no defined result.
\<close>

definition subtract_uncovered_rows :: "int matrix \<Rightarrow> bool matrix \<Rightarrow> nat \<Rightarrow> int \<Rightarrow> int matrix" where
  "subtract_uncovered_rows costs covered nents mn =
     fold (\<lambda>row nx. if \<not> row_is_covered covered nents row
                     then fold (\<lambda>col nx. mat_set nx row col (mat_at nx row col - mn)) [0 ..< nents] nx
                     else nx)
       [0 ..< nents] costs"

definition add_covered_columns :: "int matrix \<Rightarrow> bool matrix \<Rightarrow> nat \<Rightarrow> int \<Rightarrow> int matrix" where
  "add_covered_columns next covered nents mn =
     fold (\<lambda>col nx. if column_is_covered covered nents col
                     then fold (\<lambda>row nx. mat_set nx row col (mat_at nx row col + mn)) [0 ..< nents] nx
                     else nx)
       [0 ..< nents] next"

definition int_range :: "int matrix \<Rightarrow> bool" where
  "int_range m = list_all (list_all (\<lambda>x. INT_MIN \<le> x \<and> x \<le> INT_MAX)) m"

text \<open>
  The result is the returned number of lines with the arrays \<open>out_next\<close> and
  \<open>out_assignment\<close>, of which the function writes one.
\<close>

definition min_lines_to_cover_zeroes ::
  "int matrix \<Rightarrow> int matrix \<Rightarrow> coord list \<Rightarrow> nat \<Rightarrow> (nat \<times> int matrix \<times> coord list) option" where
  "min_lines_to_cover_zeroes costs out_next out_assignment nents = do {
     let starred0 = star_zeroes costs nents (mat_const nents False);
     (starred, covered) \<leftarrow>
        cover_loop costs nents starred0
          (cover_starred_columns starred0 nents (mat_const nents False)) (mat_const nents False);
     let ncovered_rows = count_covered_rows covered nents;
     let ncovered_cols = count_covered_columns covered nents;
     let ret = (if ncovered_rows = nents \<or> ncovered_cols = nents then nents
                else ncovered_rows + ncovered_cols);
     if ret < nents then do {
       let mn = min_uncovered_value costs covered nents;
       let next1 = subtract_uncovered_rows costs covered nents mn;
       let next2 = add_covered_columns next1 covered nents mn;
       c_assert (int_range next1 \<and> int_range next2);
       Some (ret, next2, out_assignment)
     } else do {
       let assignment = filter (\<lambda>(row, col). mat_at starred row col)
                          (List.product [0 ..< nents] [0 ..< nents]);
       c_assert (length assignment = nents);
       Some (ret, out_next, assignment)
     }
   }"

subsection \<open>\<open>compute_cell_assignment\<close>\<close>

definition subtract_row_minima :: "int matrix \<Rightarrow> nat \<Rightarrow> int matrix" where
  "subtract_row_minima costs nents =
     fold (\<lambda>i m. let row_min = row_minimum m i nents in
                  fold (\<lambda>j m. mat_set m i j (mat_at m i j - row_min)) [0 ..< nents] m)
       [0 ..< nents] costs"

definition subtract_column_minima :: "int matrix \<Rightarrow> nat \<Rightarrow> int matrix" where
  "subtract_column_minima costs nents =
     fold (\<lambda>i m. let col_min = column_minimum m i nents in
                  fold (\<lambda>j m. mat_set m j i (mat_at m j i - col_min)) [0 ..< nents] m)
       [0 ..< nents] costs"

text \<open>The \<open>do ... while(min_lines < nents)\<close> loop of steps 3 and 4.\<close>

partial_function (option) assignment_loop ::
  "int matrix \<Rightarrow> int matrix \<Rightarrow> coord list \<Rightarrow> nat \<Rightarrow> coord list option" where
  "assignment_loop costs next assignment nents =
     (case min_lines_to_cover_zeroes costs next assignment nents of
        None \<Rightarrow> None
      | Some (min_lines, next1, assignment1) \<Rightarrow>
          if min_lines < nents then assignment_loop next1 next1 assignment1 nents
          else Some assignment1)"

text \<open>The last loop: the entity of row \<open>i\<close> gets the cell of its starred column.\<close>

definition assign_cell :: "coord list \<Rightarrow> coord list \<Rightarrow> (uid \<times> nat) \<Rightarrow> subformation \<Rightarrow> subformation" where
  "assign_cell assignment idx_to_cell ui formation =
     (let meta_idx = snd (assignment ! snd ui);
          cell_coord = idx_to_cell ! meta_idx;
          cell_idx = CELL_IDX (fst cell_coord) (snd cell_coord) (f_ncols formation);
          cell = f_cells formation ! cell_idx
      in formation\<lparr> f_assignment := (f_assignment formation)(fst ui \<mapsto> cell_coord),
                     f_cells := (if cell_st cell \<noteq> CELL_NOT_PLACED
                                 then (f_cells formation)[cell_idx := cell\<lparr> cell_st := CELL_OCCUPIED \<rparr>]
                                 else f_cells formation) \<rparr>)"

definition compute_cell_assignment :: "formation_env \<Rightarrow> subformation \<Rightarrow> subformation option" where
  "compute_cell_assignment env formation = do {
     let nents = length (f_ents formation);
     (costs, idx_to_cell) \<leftarrow> create_cost_matrix env formation;
     let costs1 = subtract_row_minima costs nents;
     let costs2 = subtract_column_minima costs1 nents;
     assignment \<leftarrow> assignment_loop costs2 (mat_const nents 0) (replicate nents (0, 0)) nents;
     Some (fold (assign_cell assignment idx_to_cell) (zip (f_ents formation) [0 ..< nents]) formation)
   }"


section \<open>Auxiliary notions of the proofs about the cell assignment\<close>

text \<open>A square matrix of dimension \<open>n\<close>.\<close>

definition sq :: "nat \<Rightarrow> 'a matrix \<Rightarrow> bool" where
  "sq n m = (length m = n \<and> (\<forall>row \<in> set m. length row = n))"

text \<open>
  The stars are a matching on the zeros of the matrix: at most one star in a row and in a
  column. Moreover every zero to the left of a star has a star in its column; this is what
  makes the loop at \<open>iterate\<close> leave a row with a star alone.
\<close>

definition star_inv :: "nat \<Rightarrow> int matrix \<Rightarrow> bool matrix \<Rightarrow> bool" where
  "star_inv n M st =
     (sq n st \<and>
      (\<forall>r < n. \<forall>c < n. mat_at st r c \<longrightarrow> mat_at M r c = 0) \<and>
      (\<forall>r < n. \<forall>c < n. \<forall>c' < n. mat_at st r c \<longrightarrow> mat_at st r c' \<longrightarrow> c = c') \<and>
      (\<forall>c < n. \<forall>r < n. \<forall>r' < n. mat_at st r c \<longrightarrow> mat_at st r' c \<longrightarrow> r = r') \<and>
      (\<forall>r < n. \<forall>c < n. mat_at st r c \<longrightarrow>
          (\<forall>c' < c. mat_at M r c' = 0 \<longrightarrow> (\<exists>r' < n. mat_at st r' c'))))"

text \<open>The rows that hold a star.\<close>

definition srows :: "nat \<Rightarrow> bool matrix \<Rightarrow> nat set" where
  "srows n st = {r. r < n \<and> (\<exists>c < n. mat_at st r c)}"

text \<open>
  The cover during the \<open>do ... while\<close> loop: \<open>R\<close> is the set of covered rows, and a column
  is covered when it holds a star whose row is not covered.
\<close>

definition cover_inv :: "nat \<Rightarrow> bool matrix \<Rightarrow> nat set \<Rightarrow> bool matrix \<Rightarrow> bool" where
  "cover_inv n st R cv =
     (sq n cv \<and> R \<subseteq> {..<n} \<and>
      (\<forall>r < n. \<forall>c < n. mat_at cv r c = (r \<in> R \<or> (\<exists>r' < n. mat_at st r' c \<and> r' \<notin> R))))"

text \<open>
  A primed zero: it is not starred, a star in its column lies on a row that was covered
  earlier (\<open>rank\<close> orders the covered rows by the time they were covered), and the zeros to
  its left have a star in their column.
\<close>

definition prime_ok :: "nat \<Rightarrow> int matrix \<Rightarrow> bool matrix \<Rightarrow> nat set \<Rightarrow> (nat \<Rightarrow> nat) \<Rightarrow> nat \<Rightarrow> nat \<Rightarrow> bool" where
  "prime_ok n M st R rank r c =
     (mat_at M r c = 0 \<and> \<not> mat_at st r c \<and>
      (\<forall>r' < n. mat_at st r' c \<longrightarrow> r' \<in> R \<and> rank r' < rank r) \<and>
      (\<forall>c' < c. mat_at M r c' = 0 \<longrightarrow> (\<exists>r' < n. mat_at st r' c')))"

definition prime_inv :: "nat \<Rightarrow> int matrix \<Rightarrow> bool matrix \<Rightarrow> nat set \<Rightarrow> (nat \<Rightarrow> nat) \<Rightarrow> bool matrix \<Rightarrow> bool" where
  "prime_inv n M st R rank pr =
     (sq n pr \<and>
      (\<forall>r < n. \<forall>c < n. mat_at pr r c \<longrightarrow> r \<in> R \<and> prime_ok n M st R rank r c) \<and>
      (\<forall>r \<in> R. (\<exists>c < n. mat_at st r c) \<and> (\<exists>c < n. mat_at pr r c) \<and> rank r < card R))"

text \<open>
  The rest of a path from the column \<open>pc\<close>: a starred zero of the column, on a covered row
  of rank below \<open>m\<close>, then a primed zero of that row, and so on until a column without a
  star.
\<close>

inductive alt_path ::
  "nat \<Rightarrow> int matrix \<Rightarrow> bool matrix \<Rightarrow> bool matrix \<Rightarrow> nat set \<Rightarrow> (nat \<Rightarrow> nat)
     \<Rightarrow> nat \<Rightarrow> nat \<Rightarrow> coord list \<Rightarrow> bool"
  for n :: nat and M :: "int matrix" and st :: "bool matrix" and pr :: "bool matrix"
    and R :: "nat set" and rank :: "nat \<Rightarrow> nat" where
  alt_end: "(\<forall>r < n. \<not> mat_at st r pc) \<Longrightarrow> alt_path n M st pr R rank m pc []"
| alt_step: "sr < n \<Longrightarrow> mat_at st sr pc \<Longrightarrow> sr \<in> R \<Longrightarrow> rank sr < m \<Longrightarrow> nc < n \<Longrightarrow>
     mat_at pr sr nc \<Longrightarrow> prime_ok n M st R rank sr nc \<Longrightarrow>
     alt_path n M st pr R rank (rank sr) nc rest \<Longrightarrow>
     alt_path n M st pr R rank m pc ((sr, pc) # (sr, nc) # rest)"

text \<open>
  The stars while the path is flipped, when the next element of the path is the starred
  zero of the column \<open>pc\<close>: the covered rows of rank below \<open>m\<close> are as before, and the only
  column that may hold two stars is \<open>pc\<close>, where the second one is on such a row.
\<close>

definition flip_inv ::
  "nat \<Rightarrow> int matrix \<Rightarrow> bool matrix \<Rightarrow> nat set \<Rightarrow> (nat \<Rightarrow> nat) \<Rightarrow> nat \<Rightarrow> nat \<Rightarrow> nat
     \<Rightarrow> bool matrix \<Rightarrow> bool" where
  "flip_inv n M st R rank r0 m pc cur =
     (sq n cur \<and>
      (\<forall>r \<in> R. rank r < m \<longrightarrow> (\<forall>c < n. mat_at cur r c = mat_at st r c)) \<and>
      (\<forall>r < n. \<forall>c < n. \<forall>c' < n. mat_at cur r c \<longrightarrow> mat_at cur r c' \<longrightarrow> c = c') \<and>
      (\<forall>c < n. \<forall>r < n. \<forall>r' < n. mat_at cur r c \<longrightarrow> mat_at cur r' c \<longrightarrow> r \<noteq> r' \<longrightarrow>
          c = pc \<and> ((r \<in> R \<and> rank r < m) \<or> (r' \<in> R \<and> rank r' < m))) \<and>
      (\<forall>r < n. \<forall>c < n. mat_at cur r c \<longrightarrow> \<not> mat_at st r c \<longrightarrow>
          c = pc \<or> (\<exists>x < n. mat_at st x c \<and> \<not> (x \<in> R \<and> rank x < m))) \<and>
      (\<forall>r < n. \<forall>c < n. mat_at cur r c \<longrightarrow>
          mat_at M r c = 0 \<and> (\<forall>c' < c. mat_at M r c' = 0 \<longrightarrow> (\<exists>r' < n. mat_at st r' c'))) \<and>
      (\<forall>c < n. (\<exists>r < n. mat_at st r c) \<longrightarrow> (\<exists>r < n. mat_at cur r c)) \<and>
      (\<exists>x < n. mat_at cur x pc \<and> \<not> (x \<in> R \<and> rank x < m)) \<and>
      insert r0 (srows n st) \<subseteq> srows n cur)"

text \<open>The covered columns: they hold a star on a row that is not covered.\<close>

definition ccols :: "nat \<Rightarrow> bool matrix \<Rightarrow> nat set \<Rightarrow> nat set" where
  "ccols n st R = {c. c < n \<and> (\<exists>r < n. mat_at st r c \<and> r \<notin> R)}"

text \<open>
  The matrix of the main loop: its elements are not negative, and it is the cost matrix
  \<open>C0\<close> minus a value for each row and a value for each column. The sum of its elements
  decreases at each step 4, and bounds what step 4 can add to an element.
\<close>

definition msum :: "nat \<Rightarrow> int matrix \<Rightarrow> int" where
  "msum n M = (\<Sum>r < n. \<Sum>c < n. mat_at M r c)"

definition reduced :: "nat \<Rightarrow> int matrix \<Rightarrow> int matrix \<Rightarrow> bool" where
  "reduced n C0 M =
     (sq n M \<and> (\<forall>r < n. \<forall>c < n. 0 \<le> mat_at M r c) \<and>
      (\<exists>u v. \<forall>r < n. \<forall>c < n. mat_at M r c = mat_at C0 r c - u r - v c))"

definition in_bound :: "nat \<Rightarrow> int matrix \<Rightarrow> bool" where
  "in_bound n M =
     (\<exists>K. (\<forall>r < n. \<forall>c < n. mat_at M r c \<le> K) \<and> int n * K + msum n M \<le> int n * INT_MAX)"

text \<open>
  The notions of the claim about the assignment: the indices and the coordinates of the
  cells that are used, and the cost of giving a cell to an entity.
\<close>

definition used_idx :: "cell list \<Rightarrow> nat list" where
  "used_idx cells = filter (\<lambda>k. cell_st (cells ! k) \<noteq> CELL_NOT_USED) [0 ..< length cells]"

definition coord_of :: "nat \<Rightarrow> nat \<Rightarrow> coord" where
  "coord_of n_cols k = (k div n_cols, k mod n_cols)"

definition used_coords :: "subformation \<Rightarrow> coord set" where
  "used_coords formation = coord_of (f_ncols formation) ` set (used_idx (f_cells formation))"

definition assignment_cost :: "formation_env \<Rightarrow> subformation \<Rightarrow> uid \<Rightarrow> coord \<Rightarrow> int" where
  "assignment_cost env formation u cc =
     the (cell_cost env (f_cells formation) (f_ncols formation) (fe_G_Pos_GetXZ env u) cc)"

text \<open>
  What \<open>create_cost_matrix\<close> asserts of the grid: there are as many used cells as
  entities, and the last used cell is the last cell of the grid. The entities of the
  \<open>khash\<close> set are distinct.
\<close>

definition grid_ok :: "subformation \<Rightarrow> bool" where
  "grid_ok formation =
     (distinct (f_ents formation) \<and>
      length (used_idx (f_cells formation)) = length (f_ents formation) \<and>
      (if f_ents formation = [] then f_nrows formation * f_ncols formation = 0
       else f_ncols formation \<noteq> 0 \<and>
            Suc (last (used_idx (f_cells formation))) = f_nrows formation * f_ncols formation))"

text \<open>
  Every cost is defined and not negative: the squared distance of an entity to a placed
  cell is a finite number in the range of \<open>int\<close>. (The differences of steps 1 and 2 are
  then between 0 and \<open>INT_MAX\<close>.)
\<close>

definition costs_fit :: "formation_env \<Rightarrow> subformation \<Rightarrow> bool" where
  "costs_fit env formation =
     (\<forall>u \<in> set (f_ents formation). \<forall>k \<in> set (used_idx (f_cells formation)).
        (case cell_cost env (f_cells formation) (f_ncols formation) (fe_G_Pos_GetXZ env u)
                (coord_of (f_ncols formation) k) of
           None \<Rightarrow> False
         | Some c \<Rightarrow> 0 \<le> c))"

text \<open>The cost matrix of the claim: one row for each entity, one column for each used cell.\<close>

definition cost_matrix :: "formation_env \<Rightarrow> subformation \<Rightarrow> int matrix" where
  "cost_matrix env formation =
     map (\<lambda>u. map (assignment_cost env formation u)
                 (map (coord_of (f_ncols formation)) (used_idx (f_cells formation))))
       (f_ents formation)"

text \<open>
  The sums of step 4 stay in the range of \<open>int\<close> when the elements of the matrix are small
  after steps 1 and 2: it is enough that \<open>nents + 1\<close> times the largest of them is at most
  \<open>INT_MAX\<close>.
\<close>

definition no_overflow :: "formation_env \<Rightarrow> subformation \<Rightarrow> bool" where
  "no_overflow env formation =
     in_bound (length (f_ents formation))
       (subtract_column_minima
          (subtract_row_minima (cost_matrix env formation) (length (f_ents formation)))
          (length (f_ents formation)))"

text \<open>
  The cost as the claim words it: the square of 100 times the exact distance, cut to an
  integer, and \<open>INT_MAX\<close> for a cell that is not placed.
\<close>

definition claimed_cost :: "(uid \<Rightarrow> vec2) \<Rightarrow> subformation \<Rightarrow> uid \<Rightarrow> coord \<Rightarrow> int" where
  "claimed_cost G_Pos_GetXZ formation u cc =
     (let cell = f_cells formation ! CELL_IDX (fst cc) (snd cc) (f_ncols formation)
      in if cell_st cell = CELL_NOT_PLACED then INT_MAX
         else \<lfloor>(PFM_Vec2_Len (PFM_Vec2_Sub (cell_pos cell) (G_Pos_GetXZ u)) * 100) ^ 2\<rfloor>)"

text \<open>
  Sample data. The operations on \<open>float\<close> values round the exact result to single
  precision. A subformation of two entities on a grid of one row and two columns: in the
  first sample entity 4 stands on the second cell and entity 2 on the first one; in the
  second one the two entities are about 255 units away from the two cells, which are
  1/32 apart, as the entities are; in the third one entity 4 is 500 units away from the first cell.
\<close>

definition sample_float_env :: "(uid \<Rightarrow> vec2) \<Rightarrow> formation_env" where
  "sample_float_env pos =
     \<lparr> fe_G_Pos_GetXZ = pos,
       fe_PFM_Vec2_Sub = (\<lambda>a b. do {
          x \<leftarrow> float_op (fst a - fst b);
          z \<leftarrow> float_op (snd a - snd b);
          Some (x, z) }),
       fe_PFM_Vec2_Len = (\<lambda>v. float_op (sqrt (fst v * fst v + snd v * snd v))),
       fe_mul = (\<lambda>x y. float_op (x * y)),
       fe_powf = (\<lambda>x y. float_op (x powr y)) \<rparr>"

definition sample_unit_pos :: "uid \<Rightarrow> vec2" where
  "sample_unit_pos u = (if u = 4 then (0, 0) else (1, 0))"

definition sample_formation :: subformation where
  "sample_formation =
     \<lparr> f_nrows = 1, f_ncols = 2, f_ents = [4, 2],
       f_cells = [\<lparr> cell_st = CELL_NOT_OCCUPIED, ideal_raw = (1, 0), ideal_binned = (1, 0),
                    cell_pos = (1, 0) \<rparr>,
                  \<lparr> cell_st = CELL_NOT_OCCUPIED, ideal_raw = (0, 0), ideal_binned = (0, 0),
                    cell_pos = (0, 0) \<rparr>],
       f_assignment = Map.empty \<rparr>"

definition rounding_unit_pos :: "uid \<Rightarrow> vec2" where
  "rounding_unit_pos u = (if u = 4 then (0, 0) else (- 1 / 32, 0))"

definition rounding_formation :: subformation where
  "rounding_formation =
     \<lparr> f_nrows = 1, f_ncols = 2, f_ents = [4, 2],
       f_cells = [\<lparr> cell_st = CELL_NOT_OCCUPIED, ideal_raw = (255, 0), ideal_binned = (255, 0),
                    cell_pos = (255, 0) \<rparr>,
                  \<lparr> cell_st = CELL_NOT_OCCUPIED, ideal_raw = (255 + 1 / 32, 0),
                    ideal_binned = (255 + 1 / 32, 0), cell_pos = (255 + 1 / 32, 0) \<rparr>],
       f_assignment = Map.empty \<rparr>"

definition far_unit_pos :: "uid \<Rightarrow> vec2" where
  "far_unit_pos u = (if u = 4 then (501, 0) else (1, 0))"

section \<open>Verification\<close>

subsection \<open>Basic facts\<close>
lemma c_assert_simps [simp]:
  "c_assert True = Some ()" "c_assert False = None"
  "(c_assert b = Some x) = b" "(c_assert b = None) = (\<not> b)"
  by (simp_all add: c_assert_def)

lemma emit_simps [simp]:
  "s_entity_state_table (emit e s) = s_entity_state_table s"
  "s_flocks (emit e s) = s_flocks s"
  "gs_flags (emit e s) = gs_flags s"
  "gs_positions (emit e s) = gs_positions s"
  "gs_postree (emit e s) = gs_postree s"
  "gs_sel_radiuses (emit e s) = gs_sel_radiuses s"
  "gs_faction_ids (emit e s) = gs_faction_ids s"
  "s_click_move_enabled (emit e s) = s_click_move_enabled s"
  "s_last_cmd_dest (emit e s) = s_last_cmd_dest s"
  "effects (emit e s) = effects s @ [e]"
  by (simp_all add: emit_def)

lemma movestate_get_emit [simp]: "movestate_get (emit e s) u = movestate_get s u"
  by (simp add: movestate_get_def)

lemma ms_write_eq:
  "ms_write u f s = (case movestate_get s u of None \<Rightarrow> None
     | Some ms \<Rightarrow> Some (s\<lparr>s_entity_state_table := AList.update u (f ms) (s_entity_state_table s)\<rparr>))"
  by (simp add: ms_write_def)

lemma ms_write_Some:
  "movestate_get s u = Some ms \<Longrightarrow>
   ms_write u f s = Some (s\<lparr>s_entity_state_table := AList.update u (f ms) (s_entity_state_table s)\<rparr>)"
  by (simp add: ms_write_def)

lemma ms_write_None [simp]: "movestate_get s u = None \<Longrightarrow> ms_write u f s = None"
  by (simp add: ms_write_def)

lemma movestate_get_upd [simp]:
  "movestate_get (s\<lparr>s_entity_state_table := AList.update u m (s_entity_state_table s)\<rparr>) u'
     = (if u' = u then Some m else movestate_get s u')"
  by (simp add: movestate_get_def update_conv')

lemma movestate_get_other_fields [simp]:
  "movestate_get (s\<lparr>s_flocks := a\<rparr>) u = movestate_get s u"
  "movestate_get (s\<lparr>effects := b\<rparr>) u = movestate_get s u"
  "movestate_get (s\<lparr>gs_positions := c\<rparr>) u = movestate_get s u"
  "movestate_get (s\<lparr>gs_postree := d\<rparr>) u = movestate_get s u"
  "movestate_get (s\<lparr>gs_sel_radiuses := e\<rparr>) u = movestate_get s u"
  "movestate_get (s\<lparr>gs_faction_ids := f\<rparr>) u = movestate_get s u"
  "movestate_get (s\<lparr>gs_flags := g\<rparr>) u = movestate_get s u"
  "movestate_get (s\<lparr>s_last_cmd_dest := h\<rparr>) u = movestate_get s u"
  "movestate_get (s\<lparr>s_click_move_enabled := i\<rparr>) u = movestate_get s u"
  by (simp_all add: movestate_get_def)


subsection \<open>Facts about the sample data\<close>

lemma sample_get_4: "movestate_get sample_state 4 = Some sample_moving"
  by (simp add: movestate_get_def sample_state_def)

lemma sample_get_2: "movestate_get sample_state 2 = Some sample_arrived"
  by (simp add: movestate_get_def sample_state_def)

lemma sample_get_3: "movestate_get sample_state 3 = None"
  by (simp add: movestate_get_def sample_state_def)

lemma sample_moving_simps [simp]:
  "state sample_moving = STATE_MOVING" "\<not> blocking sample_moving"
  "velocity sample_moving = (1, 0)" "\<not> ent_still sample_moving"
  by (simp_all add: sample_moving_def new_movestate_def ent_still_def)

lemma sample_arrived_simps [simp]:
  "state sample_arrived = STATE_ARRIVED" "blocking sample_arrived"
  "velocity sample_arrived = (0, 0)" "ent_still sample_arrived"
  "last_stop_pos sample_arrived = (50, 0)" "last_stop_radius sample_arrived = 1"
  by (simp_all add: sample_arrived_def new_movestate_def ent_still_def)


section \<open>Properties of the single-precision rounding\<close>

lemma round_even_of_int [simp]: "round_even (of_int k) = k"
  by (simp add: round_even_def)

lemma round_even_close: "\<bar>of_int (round_even y) - y\<bar> \<le> 1 / 2"
  unfolding round_even_def Let_def by (auto; linarith)

lemma round_even_eqI:
  assumes "of_int m - 1 / 2 < y" "y < of_int m + 1 / 2"
  shows "round_even y = m"
proof -
  have "\<bar>of_int (round_even y) - y\<bar> \<le> 1 / 2" by (rule round_even_close)
  then have "\<bar>of_int (round_even y) - (of_int m :: real)\<bar> < 1" using assms by linarith
  then have "\<bar>round_even y - m\<bar> < 1" by (metis of_int_diff of_int_abs of_int_less_1_iff)
  then show ?thesis by simp
qed

lemma round_even_le:
  assumes "y \<le> of_int c"
  shows "round_even y \<le> c"
proof (rule ccontr)
  assume "\<not> round_even y \<le> c"
  then have "c + 1 \<le> round_even y" by simp
  then have "(of_int c :: real) + 1 \<le> of_int (round_even y)" by (metis of_int_le_iff of_int_add of_int_1)
  moreover have "\<bar>of_int (round_even y) - y\<bar> \<le> 1 / 2" by (rule round_even_close)
  ultimately show False using assms by linarith
qed

lemma round_even_gt:
  assumes "of_int k + 1 / 2 < y"
  shows "k < round_even y"
proof (rule ccontr)
  assume "\<not> k < round_even y"
  then have "round_even y \<le> k" by simp
  then have "(of_int (round_even y) :: real) \<le> of_int k" by simp
  moreover have "\<bar>of_int (round_even y) - y\<bar> \<le> 1 / 2" by (rule round_even_close)
  ultimately show False using assms by linarith
qed

lemma float_exp_eq:
  assumes "2 powr of_int l \<le> \<bar>x\<bar>" "\<bar>x\<bar> < 2 powr of_int (l + 1)"
  shows "float_exp x = max l (- 126) - 23"
proof -
  have "0 < (2::real) powr of_int l" by simp
  then have pos: "0 < \<bar>x\<bar>" using assms(1) by linarith
  have "\<lfloor>log 2 \<bar>x\<bar>\<rfloor> = l"
    using assms pos by (subst floor_log_eq_powr_iff) simp_all
  then show ?thesis by (simp add: float_exp_def)
qed

lemma float_round_eq:
  assumes "2 powr of_int l \<le> \<bar>x\<bar>" "\<bar>x\<bar> < 2 powr of_int (l + 1)"
    and "e = max l (- 126) - 23"
  shows "float_round x = of_int (round_even (x / 2 powr of_int e)) * 2 powr of_int e"
proof -
  have "0 < (2::real) powr of_int l" by simp
  then have "x \<noteq> 0" using assms(1) by auto
  then show ?thesis
    unfolding float_round_def float_exp_eq[OF assms(1,2)] assms(3) by simp
qed

text \<open>Numbers with a significand of 24 bits are not changed.\<close>

lemma float_round_dyadic:
  assumes m: "\<bar>m\<bar> < 2 ^ 24" and e: "- 149 \<le> e"
  shows "float_round (of_int m * 2 powr of_int e) = of_int m * 2 powr of_int e"
proof (cases "m = 0")
  case True
  then show ?thesis by (simp add: float_round_def)
next
  case False
  let ?x = "of_int m * 2 powr of_int e :: real"
  have x0: "?x \<noteq> 0" using False by simp
  have ax: "\<bar>?x\<bar> = of_int \<bar>m\<bar> * 2 powr of_int e" by (simp add: abs_mult)
  have "of_int \<bar>m\<bar> < (2 ^ 24 :: real)" using m by (metis of_int_less_iff of_int_numeral of_int_power)
  then have "\<bar>?x\<bar> < 2 ^ 24 * 2 powr of_int e" unfolding ax by simp
  also have "\<dots> = 2 powr (24 + of_int e)" by (simp add: powr_add)
  finally have lt: "\<bar>?x\<bar> < 2 powr (24 + of_int e)" .
  have "log 2 \<bar>?x\<bar> < 24 + of_int e"
    using lt x0 by (subst log_less_iff) simp_all
  then have "\<lfloor>log 2 \<bar>?x\<bar>\<rfloor> < 24 + e" by (simp add: floor_less_iff)
  then have le: "float_exp ?x \<le> e" using e by (simp add: float_exp_def)
  define E where "E = float_exp ?x"
  define d where "d = nat (e - E)"
  have ed: "real_of_int e = of_int E + real d" using le by (simp add: d_def E_def)
  have p: "2 powr real_of_int e = 2 powr of_int E * 2 ^ d"
    by (simp only: ed powr_add powr_realpow[of 2 d, simplified])
  have "?x / 2 powr of_int E = of_int m * 2 ^ d"
    by (simp only: p) simp
  also have "\<dots> = of_int (m * 2 ^ d)" by simp
  finally have q: "?x / 2 powr of_int E = of_int (m * 2 ^ d)" .
  have "float_round ?x = of_int (round_even (?x / 2 powr of_int E)) * 2 powr of_int E"
    using x0 unfolding float_round_def E_def by simp
  also have "\<dots> = of_int (m * 2 ^ d) * 2 powr of_int E"
    by (simp only: q round_even_of_int)
  also have "\<dots> = of_int m * (2 powr of_int E * 2 ^ d)" by simp
  also have "\<dots> = ?x" by (simp only: p)
  finally show ?thesis .
qed

lemma float_round_of_int:
  assumes "\<bar>m\<bar> < 2 ^ 24"
  shows "float_round (of_int m) = of_int m"
  using float_round_dyadic[OF assms, of 0] by simp

lemma float_round_of_nat:
  assumes "n < 2 ^ 24"
  shows "float_round (real n) = real n"
  using float_round_of_int[of "int n"] assms by simp


lemma powr_of_int_nat: "(2::real) powr of_int (int n) = 2 ^ n"
  by (simp add: powr_realpow)

lemma powr_of_int_neg_nat: "(2::real) powr of_int (- int n) = 1 / 2 ^ n"
  by (simp add: powr_minus powr_realpow divide_inverse)

lemma float_round_big:
  assumes "2 ^ (23 + n) \<le> \<bar>x\<bar>" "\<bar>x\<bar> < 2 ^ (24 + n)"
  shows "float_round x = of_int (round_even (x / 2 ^ n)) * 2 ^ n"
proof -
  have a: "2 powr of_int (int (23 + n)) \<le> \<bar>x\<bar>"
    unfolding powr_of_int_nat using assms(1) .
  have "int (23 + n) + 1 = int (24 + n)" by simp
  then have b: "\<bar>x\<bar> < 2 powr of_int (int (23 + n) + 1)"
    using assms(2) by (simp only: powr_of_int_nat)
  have "float_round x = of_int (round_even (x / 2 powr of_int (int n))) * 2 powr of_int (int n)"
    by (rule float_round_eq[OF a b]) simp
  then show ?thesis by (simp only: powr_of_int_nat)
qed

lemma float_round_small:
  assumes "2 ^ 23 \<le> \<bar>x\<bar> * 2 ^ n" "\<bar>x\<bar> * 2 ^ n < 2 ^ 24" "n \<le> 149"
  shows "float_round x = of_int (round_even (x * 2 ^ n)) / 2 ^ n"
proof -
  have p: "(2::real) powr of_int (23 - int n) = 2 ^ 23 / 2 ^ n"
    by (simp add: powr_diff powr_realpow[of 2 n, simplified])
  have p': "(2::real) powr of_int (23 - int n + 1) = 2 ^ 24 / 2 ^ n"
    by (simp add: powr_diff powr_add powr_realpow[of 2 n, simplified])
  have a: "2 powr of_int (23 - int n) \<le> \<bar>x\<bar>"
    unfolding p using assms(1) by (simp add: field_simps)
  have b: "\<bar>x\<bar> < 2 powr of_int (23 - int n + 1)"
    unfolding p' using assms(2) by (simp add: field_simps)
  have "float_round x = of_int (round_even (x / 2 powr of_int (- int n))) * 2 powr of_int (- int n)"
    by (rule float_round_eq[OF a b]) (use assms(3) in simp)
  then show ?thesis by (simp only: powr_of_int_neg_nat) simp
qed

text \<open>
  Rounding does not move a number across an integer from which it is farther than half
  a unit in the last place.
\<close>

lemma ceiling_float_round:
  assumes lo: "1 / 2 \<le> x" and hi: "x < 2 ^ 24"
    and gap: "of_int \<lceil>x\<rceil> - 1 + x / 2 ^ 24 < x"
  shows "\<lceil>float_round x\<rceil> = \<lceil>x\<rceil>"
proof -
  have x0: "0 < x" using lo by simp
  define l where "l = \<lfloor>log 2 x\<rfloor>"
  have l1: "2 powr of_int l \<le> x" and l2: "x < 2 powr of_int (l + 1)"
    using floor_log_eq_powr_iff[of x 2 l] x0 by (simp_all add: l_def)
  have "log 2 x < 24" using hi x0 by (subst log_less_iff) (simp_all add: powr_realpow[of 2 24, simplified])
  then have lu: "l \<le> 23" by (simp add: l_def floor_less_iff[symmetric] less_le_trans)
  have "- 1 \<le> log 2 x" using lo x0 by (subst le_log_iff) (simp_all add: powr_minus)
  then have ll: "- 1 \<le> l" by (simp add: l_def le_floor_iff)
  define d where "d = nat (23 - l)"
  have de: "of_int (l - 23) = - real d" using lu by (simp add: d_def)
  define q where "q = (2::real) powr of_int (l - 23)"
  have qd: "q = 1 / 2 ^ d" unfolding q_def de by (simp add: powr_minus powr_realpow divide_inverse)
  have q0: "0 < q" by (simp add: q_def)
  have "max l (- 126) - 23 = l - 23" using ll by simp
  then have fr: "float_round x = of_int (round_even (x / q)) * q"
    unfolding q_def using float_round_eq[of l x "l - 23"] l1 l2 x0 by simp
  have "q * 2 ^ 23 = 2 powr of_int l"
    unfolding q_def by (simp add: powr_diff)
  then have qx: "q * 2 ^ 23 \<le> x" using l1 by simp
  have half: "q / 2 \<le> x / 2 ^ 24" using qx by simp
  let ?c = "\<lceil>x\<rceil>"
  have up: "x / q \<le> of_int (?c * 2 ^ d)"
    using q0 by (simp add: qd le_of_int_ceiling)
  have r_le: "round_even (x / q) \<le> ?c * 2 ^ d" by (rule round_even_le[OF up])
  have "of_int (?c - 1) + q / 2 < x" using gap half by simp
  then have "(of_int (?c - 1) + q / 2) / q < x / q" using q0 by (simp add: divide_strict_right_mono)
  moreover have "(of_int (?c - 1) + q / 2) / q = of_int ((?c - 1) * 2 ^ d) + 1 / 2"
    using q0 by (simp add: qd field_simps)
  ultimately have "of_int ((?c - 1) * 2 ^ d) + 1 / 2 < x / q" by simp
  then have r_gt: "(?c - 1) * 2 ^ d < round_even (x / q)" by (rule round_even_gt)
  have "float_round x \<le> of_int ?c"
  proof -
    have "of_int (round_even (x / q)) \<le> (of_int (?c * 2 ^ d) :: real)" using r_le by (simp only: of_int_le_iff)
    then have "of_int (round_even (x / q)) * q \<le> of_int (?c * 2 ^ d) * q"
      using q0 by (simp add: mult_right_mono)
    also have "of_int (?c * 2 ^ d) * q = of_int ?c" by (simp add: qd)
    finally show ?thesis unfolding fr .
  qed
  moreover have "of_int ?c - 1 < float_round x"
  proof -
    have "(of_int ((?c - 1) * 2 ^ d) :: real) < of_int (round_even (x / q))" using r_gt by (simp only: of_int_less_iff)
    then have "of_int ((?c - 1) * 2 ^ d) * q < of_int (round_even (x / q)) * q"
      using q0 by (simp add: mult_strict_right_mono)
    moreover have "of_int ((?c - 1) * 2 ^ d) * q = (of_int ?c - 1 :: real)" by (simp add: qd)
    ultimately show ?thesis unfolding fr by (simp only:)
  qed
  ultimately show ?thesis by (simp add: ceiling_eq_iff)
qed

subsection \<open>Formation grid dimensions\<close>

lemma ceiling_sqrtf:
  fixes N D :: nat
  assumes D: "0 < D" and lo: "D \<le> 4 * N" and hi: "N \<le> 2 ^ 23"
  shows "\<lceil>sqrtf (real N / real D)\<rceil> = \<lceil>sqrt (real N / real D)\<rceil>"
proof -
  define x where "x = sqrt (real N / real D)"
  have N0: "0 < N" using D lo by simp
  have x0: "0 < x" using N0 D by (simp add: x_def)
  have xx: "x * x = real N / real D" using N0 D by (simp add: x_def)
  have "1 / 4 \<le> real N / real D" using D lo by (simp add: field_simps)
  then have "sqrt (1 / 4) \<le> x" unfolding x_def by (simp only: real_sqrt_le_iff)
  moreover have "sqrt (1 / 4) = 1 / 2" using real_sqrt_abs[of "1 / 2"] by (simp add: power2_eq_square)
  ultimately have l: "1 / 2 \<le> x" by simp
  have "1 \<le> real D" using D by simp
  then have "1 * real N \<le> real D * real N" by (intro mult_right_mono) simp_all
  then have "real N / real D \<le> real N" using D by (simp add: field_simps)
  also have "real N \<le> 2 ^ 23" using hi by (metis of_nat_le_iff of_nat_numeral of_nat_power)
  finally have nd: "real N / real D \<le> 2 ^ 23" .
  then have Dx: "real D * (x * x) \<le> 2 ^ 23"
    unfolding xx using D hi by (simp add: \<open>real N \<le> 2 ^ 23\<close>)
  have "x * x < 2 ^ 24 * 2 ^ 24" unfolding xx using nd by simp
  have h: "x < 2 ^ 24"
  proof (rule ccontr)
    assume "\<not> x < 2 ^ 24"
    then have "2 ^ 24 \<le> x" by simp
    then have "2 ^ 24 * 2 ^ 24 \<le> x * x" by (intro mult_mono) simp_all
    with \<open>x * x < 2 ^ 24 * 2 ^ 24\<close> show False by simp
  qed
  define k where "k = \<lceil>x\<rceil> - 1"
  have kx: "of_int k < x" by (simp add: k_def) linarith
  have k0: "0 \<le> k" using x0 by (simp add: k_def)
  have "of_int k * of_int k < x * x" using kx k0 x0 by (simp add: mult_strict_mono')
  then have "real D * (of_int k * of_int k) < real N"
    unfolding xx using D by (simp add: field_simps)
  then have "real_of_int (int D * (k * k)) < real_of_int (int N)" by simp
  then have "int D * (k * k) < int N" by (simp only: of_int_less_iff)
  then have "int D * (k * k) + 1 \<le> int N" by simp
  then have "real_of_int (int D * (k * k) + 1) \<le> real_of_int (int N)" by (simp only: of_int_le_iff)
  then have "real D * (of_int k * of_int k) + 1 \<le> real D * (x * x)"
    unfolding xx using D by simp
  then have g1: "1 \<le> real D * ((x - of_int k) * (x + of_int k))" by (simp add: algebra_simps)
  have "x + of_int k < 2 * x" using kx by simp
  then have "(x - of_int k) * (x + of_int k) < (x - of_int k) * (2 * x)"
    using kx by (simp add: mult_strict_left_mono)
  then have "real D * ((x - of_int k) * (x + of_int k)) < real D * ((x - of_int k) * (2 * x))"
    using D by (simp add: mult_strict_left_mono)
  then have g2: "1 < (x - of_int k) * (2 * real D * x)" using g1 by (simp add: algebra_simps)
  have "(x / 2 ^ 24) * (2 * real D * x) = (real D * (x * x)) / 2 ^ 23" by simp
  also have "\<dots> \<le> 1" using Dx by simp
  finally have "(x / 2 ^ 24) * (2 * real D * x) < (x - of_int k) * (2 * real D * x)" using g2 by simp
  moreover have "0 < 2 * real D * x" using D x0 by simp
  ultimately have "x / 2 ^ 24 < x - of_int k" by (simp only: mult_less_cancel_right_pos)
  then have gap: "of_int \<lceil>x\<rceil> - 1 + x / 2 ^ 24 < x" by (simp add: k_def)
  show ?thesis unfolding sqrtf_def x_def[symmetric] by (rule ceiling_float_round[OF l h gap])
qed


lemma nat_floor_MIN_f:
  "0 \<le> c \<Longrightarrow> nat \<lfloor>MIN_f (ceilf (of_int c)) (real n)\<rfloor> = min (nat c) n"
  by (auto simp add: MIN_f_def ceilf_def min_def nat_le_iff nat_less_iff)

lemma ceiling_sqrt_pos: "0 < \<lceil>sqrt x\<rceil>" if "0 < x"
  using that by (simp add: ceiling_less_iff)

lemma ncols_rank:
  assumes "1 \<le> n" "n \<le> 2 ^ 21"
  shows "ncols FORMATION_RANK n = min (nat \<lceil>sqrt (real n / RANK_WIDTH_RATIO)\<rceil>) n"
proof -
  have n24: "n < 2 ^ 24" using assms(2) by (rule le_less_trans) simp
  have f1: "float_round (real n) = real n" by (rule float_round_of_nat[OF n24])
  have "4 * n < 2 ^ 24" using assms(2) by simp
  from float_round_of_nat[OF this]
  have f2: "float_round (4 * real n) = 4 * real n" by simp
  have e: "real n / RANK_WIDTH_RATIO = 4 * real n" by (simp add: RANK_WIDTH_RATIO_def)
  have "4 * n \<le> 2 ^ 23" using assms(2) by simp
  from ceiling_sqrtf[of 1 "4 * n", OF _ _ this]
  have c: "\<lceil>sqrtf (4 * real n)\<rceil> = \<lceil>sqrt (4 * real n)\<rceil>"
    using assms(1) by simp
  have "0 < \<lceil>sqrt (4 * real n)\<rceil>"
    using assms(1) by (intro ceiling_sqrt_pos) simp
  then have p: "0 \<le> \<lceil>sqrt (4 * real n)\<rceil>" by (rule less_imp_le)
  have "ncols FORMATION_RANK n
        = nat \<lfloor>MIN_f (ceilf (sqrtf (float_round (float_round (real n) / RANK_WIDTH_RATIO))))
                     (float_round (real n))\<rfloor>"
    by (simp add: ncols_def)
  also have "\<dots> = nat \<lfloor>MIN_f (ceilf (sqrtf (4 * real n))) (real n)\<rfloor>"
    by (simp only: f1 e f2)
  also have "\<dots> = nat \<lfloor>MIN_f (ceilf (of_int \<lceil>sqrt (4 * real n)\<rceil>)) (real n)\<rfloor>"
    by (simp only: c[symmetric]) (simp add: ceilf_def)
  also have "\<dots> = min (nat \<lceil>sqrt (4 * real n)\<rceil>) n"
    by (rule nat_floor_MIN_f[OF p])
  finally show ?thesis by (simp only: e)
qed

lemma ncols_column:
  assumes "1 \<le> n" "n \<le> 2 ^ 21"
  shows "ncols FORMATION_COLUMN n = min (nat \<lceil>sqrt (real n / COLUMN_WIDTH_RATIO)\<rceil>) n"
proof -
  have n24: "n < 2 ^ 24" using assms(2) by (rule le_less_trans) simp
  have f1: "float_round (real n) = real n" by (rule float_round_of_nat[OF n24])
  have "\<bar>int n\<bar> < 2 ^ 24" using n24 by simp
  from float_round_dyadic[OF this, of "- int 2"]
  have f2: "float_round (real n / 4) = real n / 4"
    unfolding powr_of_int_neg_nat by simp
  have e: "real n / COLUMN_WIDTH_RATIO = real n / 4" by (simp add: COLUMN_WIDTH_RATIO_def)
  have "n \<le> 2 ^ 23" using assms(2) by (rule le_trans) simp
  from ceiling_sqrtf[of 4 n, OF _ _ this]
  have c: "\<lceil>sqrtf (real n / 4)\<rceil> = \<lceil>sqrt (real n / 4)\<rceil>"
    using assms(1) by simp
  have "0 < \<lceil>sqrt (real n / 4)\<rceil>"
    using assms(1) by (intro ceiling_sqrt_pos) simp
  then have p: "0 \<le> \<lceil>sqrt (real n / 4)\<rceil>" by (rule less_imp_le)
  have "ncols FORMATION_COLUMN n
        = nat \<lfloor>MIN_f (ceilf (sqrtf (float_round (float_round (real n) / COLUMN_WIDTH_RATIO))))
                     (float_round (real n))\<rfloor>"
    by (simp add: ncols_def)
  also have "\<dots> = nat \<lfloor>MIN_f (ceilf (sqrtf (real n / 4))) (real n)\<rfloor>"
    by (simp only: f1 e f2)
  also have "\<dots> = nat \<lfloor>MIN_f (ceilf (of_int \<lceil>sqrt (real n / 4)\<rceil>)) (real n)\<rfloor>"
    by (simp only: c[symmetric]) (simp add: ceilf_def)
  also have "\<dots> = min (nat \<lceil>sqrt (real n / 4)\<rceil>) n"
    by (rule nat_floor_MIN_f[OF p])
  finally show ?thesis by (simp only: e)
qed

lemma div_round_up:
  fixes n c :: nat
  assumes "0 < c"
  shows "n div c + (if n mod c \<noteq> 0 then 1 else 0) = nat \<lceil>real n / real c\<rceil>"
proof (cases "n mod c = 0")
  case True
  then have "c dvd n" by (simp add: dvd_eq_mod_eq_0)
  then have "real n / real c = real (n div c)"
    by (simp add: real_of_nat_div)
  then show ?thesis using True by simp
next
  case False
  have n: "real n = real (n div c) * real c + real (n mod c)"
    by (metis of_nat_add of_nat_mult div_mult_mod_eq)
  have m: "0 < real (n mod c)" "real (n mod c) < real c" using False assms by simp_all
  have "real (n div c) < real n / real c" using assms m n by (simp add: field_simps)
  moreover have "real n / real c \<le> real (n div c) + 1" using assms m n by (simp add: field_simps)
  ultimately have "\<lceil>real n / real c\<rceil> = int (n div c) + 1"
    by (intro ceiling_unique) simp_all
  then show ?thesis using False by simp
qed

lemma ncols_pos:
  assumes "1 \<le> n" "n \<le> 2 ^ 21"
  shows "0 < ncols t n"
proof -
  have a: "0 < nat \<lceil>sqrt (real n / RANK_WIDTH_RATIO)\<rceil>"
    using ceiling_sqrt_pos[of "real n / RANK_WIDTH_RATIO"] assms(1) by (simp add: RANK_WIDTH_RATIO_def)
  have b: "0 < nat \<lceil>sqrt (real n / COLUMN_WIDTH_RATIO)\<rceil>"
    using ceiling_sqrt_pos[of "real n / COLUMN_WIDTH_RATIO"] assms(1) by (simp add: COLUMN_WIDTH_RATIO_def)
  show ?thesis
    using a b assms(1) by (cases t) (simp_all add: ncols_rank[OF assms] ncols_column[OF assms])
qed

lemma sqrt_100: "sqrt 100 = 10"
  using real_sqrt_abs[of 10] by simp

lemma sqrt_4: "sqrt 4 = 2"
  using real_sqrt_abs[of 2] by simp

text \<open>
  Claim C7, as amended. For a subformation of \<open>n\<close> units, with \<open>n\<close> between 1 and
  \<open>2 ^ 21\<close>, the number of columns is the ceiling of the square root of \<open>n / ratio\<close>,
  capped at \<open>n\<close>, with ratio 0.25 for a rank and 4 for a column formation, and the grid
  that \<open>init_subformation\<close> builds has \<open>\<lceil>n / ncols\<rceil>\<close> rows; 25 units in a rank
  formation give 10 columns and 3 rows. (The cap is the \<open>MIN\<close> of the source. Beyond the
  bound the rounding of \<open>sqrtf\<close> can give a number of columns that is one less.)
\<close>

theorem grid_dimensions:
  assumes "1 \<le> n" "n \<le> 2 ^ 21"
  shows "ncols FORMATION_RANK n = min (nat \<lceil>sqrt (real n / RANK_WIDTH_RATIO)\<rceil>) n \<and>
   ncols FORMATION_COLUMN n = min (nat \<lceil>sqrt (real n / COLUMN_WIDTH_RATIO)\<rceil>) n \<and>
   RANK_WIDTH_RATIO = 0.25 \<and> COLUMN_WIDTH_RATIO = 4 \<and>
   (\<exists>cells. init_subformation (ncols t n) n
               = Some (nat \<lceil>real n / real (ncols t n)\<rceil>, ncols t n, cells)) \<and>
   ncols FORMATION_RANK 25 = 10 \<and>
   (\<exists>cells. init_subformation (ncols FORMATION_RANK 25) 25 = Some (3, 10, cells))"
proof -
  have r25: "ncols FORMATION_RANK 25 = 10"
    using ncols_rank[of 25] by (simp add: RANK_WIDTH_RATIO_def sqrt_100)
  have i: "\<exists>cells. init_subformation (ncols t n) n
               = Some (nat \<lceil>real n / real (ncols t n)\<rceil>, ncols t n, cells)"
    using ncols_pos[OF assms, of t] assms(1)
    by (simp add: init_subformation_def Let_def div_round_up[symmetric])
  have i25: "\<exists>cells. init_subformation (ncols FORMATION_RANK 25) 25 = Some (3, 10, cells)"
    unfolding r25 by (simp add: init_subformation_def Let_def)
  show ?thesis
    using ncols_rank[OF assms] ncols_column[OF assms] i r25 i25
    by (simp add: RANK_WIDTH_RATIO_def COLUMN_WIDTH_RATIO_def)
qed


text \<open>The theorem for 16 units in a column and 25 units in a rank formation.\<close>

theorem grid_dimensions_witness:
  "ncols FORMATION_COLUMN 16 = 2 \<and> ncols FORMATION_RANK 25 = 10 \<and>
   (\<exists>cells. init_subformation (ncols FORMATION_RANK 25) 25 = Some (3, 10, cells))"
proof -
  have b: "sqrt (real 16 / COLUMN_WIDTH_RATIO) = 2"
    by (simp add: COLUMN_WIDTH_RATIO_def sqrt_4)
  have g16: "1 \<le> (16::nat)" "(16::nat) \<le> 2 ^ 21" and g25: "1 \<le> (25::nat)" "(25::nat) \<le> 2 ^ 21"
    by simp_all
  have "ncols FORMATION_COLUMN 16 = min (nat \<lceil>sqrt (real 16 / COLUMN_WIDTH_RATIO)\<rceil>) 16"
    using grid_dimensions[OF g16, of FORMATION_RANK] by (elim conjE)
  then have a: "ncols FORMATION_COLUMN 16 = 2" unfolding b by simp
  have c: "ncols FORMATION_RANK 25 = 10"
    using grid_dimensions[OF g25, of FORMATION_RANK] by (elim conjE)
  have d: "\<exists>cells. init_subformation (ncols FORMATION_RANK 25) 25 = Some (3, 10, cells)"
    using grid_dimensions[OF g25, of FORMATION_RANK] by (elim conjE)
  show ?thesis using a c d by (intro conjI)
qed

lemma sqrt_37761028:
  "12584960 - 1 / 2 < sqrt 37761028 * 2 ^ 11" "sqrt 37761028 * 2 ^ 11 < 12584960 + 1 / 2"
  "6145 < sqrt 37761028" "sqrt 37761028 \<le> 6146"
proof -
  have "((12584960 - 1 / 2) / 2 ^ 11)\<^sup>2 < (37761028::real)" by (simp add: power2_eq_square)
  then have "(12584960 - 1 / 2) / 2 ^ 11 < sqrt 37761028" by (rule real_less_rsqrt)
  then show "12584960 - 1 / 2 < sqrt 37761028 * 2 ^ 11" by (simp add: field_simps)
  have "(37761028::real) < ((12584960 + 1 / 2) / 2 ^ 11)\<^sup>2" by (simp add: power2_eq_square)
  then have "sqrt 37761028 < (12584960 + 1 / 2) / 2 ^ 11" by (intro real_less_lsqrt) simp_all
  then show "sqrt 37761028 * 2 ^ 11 < 12584960 + 1 / 2" by (simp add: field_simps)
  have "(6145::real)\<^sup>2 < 37761028" by simp
  then show "6145 < sqrt 37761028" by (rule real_less_rsqrt)
  have "(37761028::real) \<le> 6146\<^sup>2" by simp
  then show "sqrt 37761028 \<le> 6146" by (intro real_le_lsqrt) simp_all
qed

lemma sqrtf_37761028: "sqrtf 37761028 = 6145"
proof -
  have r: "round_even (sqrt 37761028 * 2 ^ 11) = 12584960"
    by (rule round_even_eqI) (use sqrt_37761028 in simp_all)
  have "float_round (sqrt 37761028) = of_int (round_even (sqrt 37761028 * 2 ^ 11)) / 2 ^ 11"
    by (rule float_round_small) (use sqrt_37761028 in simp_all)
  then show ?thesis unfolding sqrtf_def r by simp
qed

text \<open>
  Claim C7 as stated fails on the code: one unit in a rank formation gets one column,
  not \<open>\<lceil>\<surd>(1 / 0.25)\<rceil> = 2\<close>; and for 9440257 units in a rank formation the
  single-precision square root of 37761028 is 6145, which gives 6145 columns, not 6146.
\<close>

theorem grid_dimensions_counterexample:
  "ncols FORMATION_RANK 1 = 1 \<and> nat \<lceil>sqrt (real 1 / RANK_WIDTH_RATIO)\<rceil> = 2 \<and>
   ncols FORMATION_RANK 9440257 = 6145 \<and>
   nat \<lceil>sqrt (real 9440257 / RANK_WIDTH_RATIO)\<rceil> = 6146"
proof -
  have a: "ncols FORMATION_RANK 1 = 1"
    using ncols_rank[of 1] by (simp add: RANK_WIDTH_RATIO_def sqrt_4)
  have b: "nat \<lceil>sqrt (real 1 / RANK_WIDTH_RATIO)\<rceil> = 2"
    by (simp add: RANK_WIDTH_RATIO_def sqrt_4)
  have f1: "float_round 9440257 = 9440257"
    using float_round_of_nat[of 9440257] by simp
  have f2: "float_round 37761028 = 37761028"
    using float_round_dyadic[of 9440257 2] by simp
  have c: "ncols FORMATION_RANK 9440257 = 6145"
    by (simp add: ncols_def f1 RANK_WIDTH_RATIO_def f2 sqrtf_37761028 ceilf_def MIN_f_def)
  have "\<lceil>sqrt 37761028\<rceil> = 6146"
    by (rule ceiling_unique) (use sqrt_37761028 in simp_all)
  then have d: "nat \<lceil>sqrt (real 9440257 / RANK_WIDTH_RATIO)\<rceil> = 6146"
    by (simp add: RANK_WIDTH_RATIO_def)
  show ?thesis using a b c d by simp
qed


subsection \<open>The surround field flag\<close>

lemma ent_update_using_surround_field_flag:
  assumes ms: "movestate_get s u = Some ms"
    and p: "G_Pos_GetXZFrom (gs_positions s) u = Some p"
    and t: "G_Pos_GetXZFrom (gs_positions s) (surround_target_uid ms) = Some t"
  shows "\<exists>s'. ent_update_using_surround_field env s u = Some s' \<and>
     movestate_get s' u = Some (ms\<lparr> using_surround_field :=
        (if \<not> using_surround_field ms
         then \<bar>fst t - fst p\<bar> < SURROUND_LOW_WATER_X env \<and> \<bar>snd t - snd p\<bar> < SURROUND_LOW_WATER_Z env
         else \<not> (\<bar>fst t - fst p\<bar> \<ge> SURROUND_HIGH_WATER_X env \<or> \<bar>snd t - snd p\<bar> \<ge> SURROUND_HIGH_WATER_Z env)) \<rparr>)"
  using ms p t
  by (auto simp add: ent_update_using_surround_field_def ms_write_Some)


lemma sample_chunk [simp]:
  "CHUNK_WIDTH sample_extern = 256" "CHUNK_HEIGHT sample_extern = 256"
  by (simp_all add: CHUNK_WIDTH_def CHUNK_HEIGHT_def sample_extern_def)

lemma sample_surround_get:
  "movestate_get (sample_surround_state dx dz flag) 4
     = Some (sample_moving\<lparr> state := STATE_SURROUND_ENTITY, surround_target_uid := 2,
                             using_surround_field := flag \<rparr>)"
  by (simp add: sample_surround_state_def movestate_get_def)

lemma sample_surround_pos:
  "G_Pos_GetXZFrom (gs_positions (sample_surround_state dx dz flag)) 4 = Some (0, 0)"
  "G_Pos_GetXZFrom (gs_positions (sample_surround_state dx dz flag)) 2 = Some (dx, dz)"
  by (simp_all add: sample_surround_state_def G_Pos_GetXZFrom_def xz_of_def)



subsection \<open>Removing an entity from the flocks\<close>

lemma find_index_from_None: "(find_index_from P i xs = None) = (\<forall>x \<in> set xs. \<not> P x)"
  by (induction xs arbitrary: i) auto

lemma flock_for_ent_None: "(flock_for_ent s u = None) = (\<forall>fl \<in> set (s_flocks s). u \<notin> set (ents fl))"
  by (simp add: flock_for_ent_def find_index_from_None flock_contains_def)

lemma remove_loop_clean_id:
  "\<forall>fl \<in> set fls. flock_clean u fl \<Longrightarrow> i \<le> length fls \<Longrightarrow>
   remove_from_flocks_loop u i (fls, effs) = (fls, effs)"
proof (induction i)
  case 0
  then show ?case by simp
next
  case (Suc i)
  then have "flock_clean u (fls ! i)" by simp
  then show ?case using Suc
    by (simp add: flock_try_remove_def flock_clean_def)
qed

lemma vec_del_length: "i < length xs \<Longrightarrow> length (vec_del xs i) = length xs - 1"
  by (simp add: vec_del_def)

lemma vec_del_nth:
  "i < length xs \<Longrightarrow> j < length xs - 1 \<Longrightarrow>
   vec_del xs i ! j = (if j = i then last xs else xs ! j)"
  by (auto simp add: vec_del_def nth_butlast)

lemma remove_loop_clean:
  "i \<le> length fls \<Longrightarrow> (\<forall>j. i \<le> j \<and> j < length fls \<longrightarrow> flock_clean u (fls ! j)) \<Longrightarrow>
   remove_from_flocks_loop u i (fls, effs) = (fls', effs') \<Longrightarrow>
   (\<forall>fl \<in> set fls'. flock_clean u fl)"
proof (induction i arbitrary: fls effs)
  case 0
  then show ?case by (auto simp: in_set_conv_nth)
next
  case (Suc i)
  let ?cur = "fst (flock_try_remove (fls ! i) u)"
  let ?es = "snd (flock_try_remove (fls ! i) u)"
  let ?fls1 = "fls[i := ?cur]"
  have ilt: "i < length fls" using Suc.prems(1) by simp
  have cur_nou: "u \<notin> set (ents ?cur)" by (simp add: flock_try_remove_def)
  show ?case
  proof (cases "ents ?cur = []")
    case True
    let ?fls2 = "vec_del ?fls1 i"
    have len2: "length ?fls2 = length fls - 1" using ilt by (simp add: vec_del_length)
    have run: "remove_from_flocks_loop u i (?fls2, effs @ ?es) = (fls', effs')"
      using Suc.prems(3) True by (simp add: case_prod_beta Let_def)
    have inv: "\<forall>j. i \<le> j \<and> j < length ?fls2 \<longrightarrow> flock_clean u (?fls2 ! j)"
    proof (intro allI impI)
      fix j assume j: "i \<le> j \<and> j < length ?fls2"
      then have jl: "j < length fls - 1" using len2 by simp
      show "flock_clean u (?fls2 ! j)"
      proof (cases "j = i")
        case True
        then have "?fls2 ! j = last ?fls1" using ilt jl by (simp add: vec_del_nth)
        also have "\<dots> = ?fls1 ! (length fls - 1)"
          using ilt by (subst last_conv_nth) auto
        also have "\<dots> = fls ! (length fls - 1)" using jl True by simp
        finally show ?thesis using Suc.prems(2) jl True by simp
      next
        case False
        then have "?fls2 ! j = ?fls1 ! j" using ilt jl by (simp add: vec_del_nth)
        also have "\<dots> = fls ! j" using False by simp
        finally show ?thesis using Suc.prems(2) j jl False by simp
      qed
    qed
    show ?thesis
      by (rule Suc.IH[OF _ inv run]) (use ilt len2 in simp)
  next
    case False
    have run: "remove_from_flocks_loop u i (?fls1, effs @ ?es) = (fls', effs')"
      using Suc.prems(3) False by (simp add: case_prod_beta Let_def)
    have inv: "\<forall>j. i \<le> j \<and> j < length ?fls1 \<longrightarrow> flock_clean u (?fls1 ! j)"
    proof (intro allI impI)
      fix j assume j: "i \<le> j \<and> j < length ?fls1"
      show "flock_clean u (?fls1 ! j)"
      proof (cases "j = i")
        case True
        then show ?thesis using ilt False cur_nou by (simp add: flock_clean_def)
      next
        case False
        then show ?thesis using Suc.prems(2) j by simp
      qed
    qed
    show ?thesis
      by (rule Suc.IH[OF _ inv run]) (use ilt in simp)
  qed
qed

lemma remove_from_flocks_Some:
  "\<exists>s1. remove_from_flocks s u = Some s1 \<and>
        s1 = s\<lparr> s_flocks := s_flocks s1, effects := effects s1 \<rparr> \<and>
        (\<forall>fl \<in> set (s_flocks s1). flock_clean u fl)"
proof -
  obtain fls' effs' where r: "remove_from_flocks_loop u (length (s_flocks s)) (s_flocks s, effects s) = (fls', effs')"
    by (cases "remove_from_flocks_loop u (length (s_flocks s)) (s_flocks s, effects s)") auto
  have cl: "\<forall>fl \<in> set fls'. flock_clean u fl"
    by (rule remove_loop_clean[OF _ _ r]) auto
  then have "flock_for_ent (s\<lparr>s_flocks := fls', effects := effs'\<rparr>) u = None"
    by (simp add: flock_for_ent_None flock_clean_def)
  then show ?thesis using r cl
    by (simp add: remove_from_flocks_def)
qed

lemma remove_from_flocks_clean_id:
  "\<forall>fl \<in> set (s_flocks s). flock_clean u fl \<Longrightarrow> remove_from_flocks s u = Some s"
  by (simp add: remove_from_flocks_def remove_loop_clean_id flock_for_ent_None flock_clean_def)



subsection \<open>Blocking, unblocking and finishing a motion\<close>

lemmas lookup_defs = G_GetSelectionRadiusFrom_def G_Pos_GetXZFrom_def G_FlagsGetFrom_def
  G_GetFactionIDFrom_def

lemma entity_block_Some:
  assumes "movestate_get s u = Some ms" "\<not> blocking ms"
    "gs_sel_radiuses s u = Some r" "gs_positions s u = Some p"
    "gs_flags s u = Some fl" "gs_faction_ids s u = Some fac"
  shows "entity_block s u = Some (s\<lparr>
     s_entity_state_table := AList.update u
        (ms\<lparr>blocking := True, last_stop_pos := xz_of p, last_stop_radius := r\<rparr>)
        (s_entity_state_table s),
     effects := effects s @ [NavBlockersIncref (xz_of p) r fac fl,
                             Notify_MOVABLE_ENTITY_BLOCK u r (xz_of p)]\<rparr>)"
  using assms by (simp add: entity_block_def lookup_defs ms_write_eq emit_def)

lemma entity_block_SomeD:
  assumes "entity_block s u = Some s'"
  shows "\<exists>ms r p fl fac. movestate_get s u = Some ms \<and> \<not> blocking ms \<and>
    gs_sel_radiuses s u = Some r \<and> gs_positions s u = Some p \<and>
    gs_flags s u = Some fl \<and> gs_faction_ids s u = Some fac"
  using assms
  by (auto simp add: entity_block_def lookup_defs Let_def split: Option.bind_splits)

lemma entity_unblock_Some:
  assumes "movestate_get s u = Some ms" "blocking ms"
    "gs_flags s u = Some fl" "gs_faction_ids s u = Some fac"
  shows "entity_unblock s u = Some (s\<lparr>
     s_entity_state_table := AList.update u (ms\<lparr>blocking := False\<rparr>) (s_entity_state_table s),
     effects := effects s @ [NavBlockersDecref (last_stop_pos ms) (last_stop_radius ms) fac fl,
                             Notify_MOVABLE_ENTITY_UNBLOCK u (last_stop_radius ms) (last_stop_pos ms)]\<rparr>)"
  using assms by (simp add: entity_unblock_def lookup_defs ms_write_eq emit_def)

lemma entity_unblock_SomeD:
  assumes "entity_unblock s u = Some s'"
  shows "\<exists>ms fl fac. movestate_get s u = Some ms \<and> blocking ms \<and>
    gs_flags s u = Some fl \<and> gs_faction_ids s u = Some fac"
  using assms
  by (auto simp add: entity_unblock_def lookup_defs Let_def split: Option.bind_splits)

lemma entity_finish_moving_Some:
  assumes "movestate_get s u = Some ms" "\<not> ent_still ms" "\<not> blocking ms"
    "gs_sel_radiuses s u = Some r" "gs_positions s u = Some p"
    "gs_flags s u = Some fl" "gs_faction_ids s u = Some fac"
    "newstate = STATE_ARRIVED \<or> newstate = STATE_WAITING"
  shows "entity_finish_moving env s u newstate True = Some (s\<lparr>
     s_entity_state_table := AList.update u
        ((if newstate = STATE_WAITING then ms\<lparr>wait_prev := state ms, wait_ticks_left := WAIT_TICKS\<rparr> else ms)
           \<lparr>state := newstate, velocity := (0, 0), blocking := True,
            last_stop_pos := xz_of p, last_stop_radius := r\<rparr>)
        (s_entity_state_table s),
     effects := effects s @ [Notify_MOTION_END u] @
        (if G_FlagsGet env u AND ENTITY_FLAG_COMBATABLE env \<noteq> 0 then [Combat_SetStance_AGGRESSIVE u] else []) @
        [NavBlockersIncref (xz_of p) r fac fl, Notify_MOVABLE_ENTITY_BLOCK u r (xz_of p)]\<rparr>)"
  using assms
  by (auto simp add: entity_finish_moving_def entity_block_def lookup_defs ms_write_def emit_def
        ent_still_def Let_def update_last movestate_get_def update_conv')



lemma entity_block_post:
  assumes "entity_block s u = Some s'"
  shows "\<exists>ms r p fl fac. movestate_get s u = Some ms \<and> \<not> blocking ms \<and>
    gs_sel_radiuses s u = Some r \<and> gs_positions s u = Some p \<and>
    gs_flags s u = Some fl \<and> gs_faction_ids s u = Some fac \<and>
    s' = s\<lparr>
     s_entity_state_table := AList.update u
        (ms\<lparr>blocking := True, last_stop_pos := xz_of p, last_stop_radius := r\<rparr>)
        (s_entity_state_table s),
     effects := effects s @ [NavBlockersIncref (xz_of p) r fac fl,
                             Notify_MOVABLE_ENTITY_BLOCK u r (xz_of p)]\<rparr>"
proof -
  from entity_block_SomeD[OF assms]
  obtain ms r p fl fac where h: "movestate_get s u = Some ms" "\<not> blocking ms"
    "gs_sel_radiuses s u = Some r" "gs_positions s u = Some p"
    "gs_flags s u = Some fl" "gs_faction_ids s u = Some fac" by blast
  from entity_block_Some[OF h] assms show ?thesis using h by auto
qed

lemma entity_unblock_post:
  assumes "entity_unblock s u = Some s'"
  shows "\<exists>ms fl fac. movestate_get s u = Some ms \<and> blocking ms \<and>
    gs_flags s u = Some fl \<and> gs_faction_ids s u = Some fac \<and>
    s' = s\<lparr>
     s_entity_state_table := AList.update u (ms\<lparr>blocking := False\<rparr>) (s_entity_state_table s),
     effects := effects s @ [NavBlockersDecref (last_stop_pos ms) (last_stop_radius ms) fac fl,
                             Notify_MOVABLE_ENTITY_UNBLOCK u (last_stop_radius ms) (last_stop_pos ms)]\<rparr>"
proof -
  from entity_unblock_SomeD[OF assms]
  obtain ms fl fac where h: "movestate_get s u = Some ms" "blocking ms"
    "gs_flags s u = Some fl" "gs_faction_ids s u = Some fac" by blast
  from entity_unblock_Some[OF h] assms show ?thesis using h by auto
qed

lemma movestate_get_upd_eff [simp]:
  "movestate_get (s\<lparr>s_entity_state_table := AList.update u m (s_entity_state_table s), effects := e\<rparr>) u'
     = (if u' = u then Some m else movestate_get s u')"
  by (simp add: movestate_get_def update_conv')

lemma entity_block_get:
  assumes "entity_block s u = Some s'"
  shows "\<exists>m. movestate_get s' u = Some m \<and> blocking m"
  using entity_block_post[OF assms] by auto

lemma entity_unblock_get:
  assumes "entity_unblock s u = Some s'"
  shows "\<exists>m. movestate_get s' u = Some m \<and> \<not> blocking m"
  using entity_unblock_post[OF assms] by auto


subsection \<open>Stop\<close>

lemma movestate_get_flocks_effects [simp]:
  "movestate_get (s\<lparr>s_flocks := a, effects := b\<rparr>) u = movestate_get s u"
  by (simp add: movestate_get_def)

lemma do_stop_fixpoint:
  assumes ms: "movestate_get s u = Some ms" and st: "state ms = STATE_ARRIVED"
    and cl: "\<forall>fl \<in> set (s_flocks s). flock_clean u fl"
  shows "do_stop env s u = Some s"
proof -
  have e: "ms\<lparr>state := STATE_ARRIVED\<rparr> = ms" using st by simp
  have "AList.update u (ms\<lparr>state := STATE_ARRIVED\<rparr>) (s_entity_state_table s) = s_entity_state_table s"
    unfolding e using ms by (simp add: movestate_get_def update_triv)
  then show ?thesis using ms st cl
    by (simp add: do_stop_def ent_still_def remove_from_flocks_clean_id ms_write_def)
qed

lemma do_stop_result:
  assumes ms: "movestate_get s u = Some ms"
    and s0: "(if \<not> ent_still ms then entity_finish_moving env s u STATE_ARRIVED True else Some s) = Some s0"
    and ms0: "movestate_get s0 u = Some ms0"
  shows "\<exists>s1. do_stop env s u = Some s1 \<and>
           movestate_get s1 u = Some (ms0\<lparr>state := STATE_ARRIVED\<rparr>) \<and>
           (\<forall>fl \<in> set (s_flocks s1). flock_clean u fl) \<and>
           gs_positions s1 = gs_positions s0"
proof -
  from remove_from_flocks_Some[of s0 u]
  obtain s' where r: "remove_from_flocks s0 u = Some s'"
    and eq: "s' = s0\<lparr> s_flocks := s_flocks s', effects := effects s' \<rparr>"
    and cl: "\<forall>fl \<in> set (s_flocks s'). flock_clean u fl"
    by blast
  have g: "movestate_get s' u = Some ms0"
    by (subst eq) (simp add: ms0)
  have p: "gs_positions s' = gs_positions s0"
    by (subst eq) simp
  show ?thesis
    using ms s0 r g cl p
    by (simp add: do_stop_def ms_write_def)
qed





subsection \<open>SetDest for the flock the agent is already in\<close>

lemma ms_write_same:
  assumes "movestate_get s u = Some ms" "f ms = ms"
  shows "ms_write u f s = Some s"
proof -
  have "AList.update u ms (s_entity_state_table s) = s_entity_state_table s"
    using assms(1) by (simp add: movestate_get_def update_triv)
  then show ?thesis using assms by (simp add: ms_write_def)
qed

lemma unblock_if_still_moving:
  "movestate_get s u = Some ms \<Longrightarrow> \<not> ent_still ms \<Longrightarrow> unblock_if_still s u = Some s"
  by (simp add: unblock_if_still_def)

text \<open>
  Claim C5. Let \<open>d\<close> be the destination id that \<open>do_set_dest\<close> computes for \<open>dest_xz\<close>
  (through \<open>M_NavClosestReachableDest\<close> and \<open>M_NavDestIDForPos\<close>, or
  \<open>M_NavDestIDForPosAttacking\<close> for an attack). If the agent \<open>u\<close> is not still and the
  flock found for \<open>d\<close> is the flock found for \<open>u\<close>, then \<open>do_set_dest\<close> succeeds and only
  sets the agent's state to \<open>STATE_MOVING\<close>: velocity, velocity history and every other
  field of its \<open>movestate\<close>, the other agents, the flocks, the positions and the effect
  log are unchanged. For an agent that is already in \<open>STATE_MOVING\<close> the whole state is
  unchanged.
\<close>

theorem do_set_dest_same_flock_noop:
  assumes ms: "movestate_get s u = Some ms"
    and mv: "\<not> ent_still ms"
    and r: "gs_sel_radiuses s u = Some radius"
    and f: "gs_flags s u = Some flags"
    and p: "gs_positions s u = Some pos"
    and fac: "gs_faction_ids s u = Some faction_id"
    and l: "layer = Entity_NavLayerWithRadius env flags radius"
    and d: "d = (if attack
                 then M_NavDestIDForPosAttacking env
                        (M_NavClosestReachableDest env layer (xz_of pos) dest_xz) layer faction_id
                 else M_NavDestIDForPos env
                        (M_NavClosestReachableDest env layer (xz_of pos) dest_xz) layer)"
    and fd: "flock_for_dest s d = Some i"
    and fe: "flock_for_ent s u = Some i"
  shows "\<exists>s'. do_set_dest env s u dest_xz attack = Some s' \<and>
           movestate_get s' u = Some (ms\<lparr>state := STATE_MOVING\<rparr>) \<and>
           velocity (ms\<lparr>state := STATE_MOVING\<rparr>) = velocity ms \<and>
           vel_hist (ms\<lparr>state := STATE_MOVING\<rparr>) = vel_hist ms \<and>
           (\<forall>v. v \<noteq> u \<longrightarrow> movestate_get s' v = movestate_get s v) \<and>
           s_flocks s' = s_flocks s \<and> gs_positions s' = gs_positions s \<and>
           effects s' = effects s \<and>
           (state ms = STATE_MOVING \<longrightarrow> s' = s)"
proof -
  let ?s' = "s\<lparr>s_entity_state_table :=
                 AList.update u (ms\<lparr>state := STATE_MOVING\<rparr>) (s_entity_state_table s)\<rparr>"
  have run: "do_set_dest env s u dest_xz attack = Some ?s'"
    using ms mv r f p fac fd fe
    unfolding do_set_dest_def l d
    by (cases attack)
       (simp_all add: lookup_defs unblock_if_still_moving ms_write_Some Let_def)
  have same: "state ms = STATE_MOVING \<longrightarrow> ?s' = s"
  proof
    assume st: "state ms = STATE_MOVING"
    then have e: "ms\<lparr>state := STATE_MOVING\<rparr> = ms" by simp
    have "AList.update u ms (s_entity_state_table s) = s_entity_state_table s"
      using ms by (simp add: movestate_get_def update_triv)
    then show "?s' = s" unfolding e by simp
  qed
  show ?thesis
    using run same by (intro exI[of _ ?s']) simp
qed

lemma sample_flock_for_ent_4: "flock_for_ent sample_state 4 = Some 0"
  by (simp add: flock_for_ent_def sample_state_def flock_contains_def)

lemma sample_flock_for_dest_110: "flock_for_dest sample_state 110 = Some 0"
  by (simp add: flock_for_dest_def sample_state_def)

theorem do_set_dest_same_flock_noop_witness:
  "movestate_get sample_state 4 = Some sample_moving \<and> \<not> ent_still sample_moving \<and>
   state sample_moving = STATE_MOVING \<and>
   flock_for_dest sample_state (M_NavDestIDForPos sample_extern (110, 0) 0) = Some 0 \<and>
   flock_for_ent sample_state 4 = Some 0 \<and>
   do_set_dest sample_extern sample_state 4 (110, 0) False = Some sample_state"
proof -
  have r: "gs_sel_radiuses sample_state 4 = Some 1"
    and f: "gs_flags sample_state 4 = Some 0"
    and p: "gs_positions sample_state 4 = Some (10, 0, 0)"
    and fac: "gs_faction_ids sample_state 4 = Some 1"
    by (simp_all add: sample_state_def)
  have l: "(0::nat) = Entity_NavLayerWithRadius sample_extern 0 1"
    by (simp add: sample_extern_def)
  have d: "(110::nat) = (if False
                 then M_NavDestIDForPosAttacking sample_extern
                        (M_NavClosestReachableDest sample_extern 0 (xz_of (10, 0, 0)) (110, 0)) 0 1
                 else M_NavDestIDForPos sample_extern
                        (M_NavClosestReachableDest sample_extern 0 (xz_of (10, 0, 0)) (110, 0)) 0)"
    by (simp add: sample_extern_def)
  have d': "M_NavDestIDForPos sample_extern (110, 0) 0 = 110"
    by (simp add: sample_extern_def)
  show ?thesis
    using do_set_dest_same_flock_noop[OF sample_get_4 sample_moving_simps(4) r f p fac l d
            sample_flock_for_dest_110 sample_flock_for_ent_4]
      sample_get_4 sample_flock_for_dest_110 sample_flock_for_ent_4 d'
    by auto
qed


subsection \<open>Commands that name an unknown agent\<close>

text \<open>
  Claim C9, as amended. A queued Remove, Stop, ChangeDirection, SetEnterRange,
  SetSeekEnemies, SetSurroundEntity, UpdatePos, UpdateFactionID, UpdateSelectionRadius,
  SetMaxSpeed, Unblock or Block command that names a UID without a \<open>movestate\<close> is
  dropped when the queue is drained: the state after the command is the state before it.
  (Add creates the \<open>movestate\<close>; SetDest is not covered.)
\<close>

theorem unknown_uid_command_dropped:
  assumes none: "movestate_get s u = None"
    and cmd: "cmd \<in> { MOVE_CMD_REMOVE u, MOVE_CMD_STOP u, MOVE_CMD_CHANGE_DIRECTION u q,
                      MOVE_CMD_SET_ENTER_RANGE u target rng, MOVE_CMD_SET_SEEK_ENEMIES u,
                      MOVE_CMD_SET_SURROUND_ENTITY u target, MOVE_CMD_UPDATE_POS u xz,
                      MOVE_CMD_UPDATE_FACTION_ID u oldfac newfac,
                      MOVE_CMD_UPDATE_SELECTION_RADIUS u radius, MOVE_CMD_SET_MAX_SPEED u speed,
                      MOVE_CMD_UNBLOCK u, MOVE_CMD_BLOCK u pos }"
  shows "process_cmd env s cmd = Some s \<and> move_process_cmds env s [(False, cmd)] = Some s"
proof -
  have "process_cmd env s cmd = Some s"
    using cmd none
    by (auto simp add: do_remove_entity_def do_stop_def do_set_change_direction_def
          do_set_enter_range_def do_set_seek_enemies_def do_set_surround_entity_def
          do_update_pos_def do_update_faction_id_def do_update_selection_radius_def
          do_set_max_speed_def)
  then show ?thesis by simp
qed

theorem unknown_uid_command_dropped_witness:
  "movestate_get sample_state 3 = None \<and>
   process_cmd sample_extern sample_state (MOVE_CMD_STOP 3) = Some sample_state \<and>
   move_process_cmds sample_extern sample_state [(False, MOVE_CMD_SET_MAX_SPEED 3 7)] = Some sample_state"
proof -
  have a: "MOVE_CMD_STOP 3 \<in> { MOVE_CMD_REMOVE 3, MOVE_CMD_STOP 3, MOVE_CMD_CHANGE_DIRECTION 3 (0, 0, 0, 1),
                      MOVE_CMD_SET_ENTER_RANGE 3 1 2, MOVE_CMD_SET_SEEK_ENEMIES 3,
                      MOVE_CMD_SET_SURROUND_ENTITY 3 1, MOVE_CMD_UPDATE_POS 3 (0, 0),
                      MOVE_CMD_UPDATE_FACTION_ID 3 1 2,
                      MOVE_CMD_UPDATE_SELECTION_RADIUS 3 1, MOVE_CMD_SET_MAX_SPEED 3 7,
                      MOVE_CMD_UNBLOCK 3, MOVE_CMD_BLOCK 3 (0, 0, 0) }"
    by simp
  have b: "MOVE_CMD_SET_MAX_SPEED 3 7 \<in> { MOVE_CMD_REMOVE 3, MOVE_CMD_STOP 3, MOVE_CMD_CHANGE_DIRECTION 3 (0, 0, 0, 1),
                      MOVE_CMD_SET_ENTER_RANGE 3 1 2, MOVE_CMD_SET_SEEK_ENEMIES 3,
                      MOVE_CMD_SET_SURROUND_ENTITY 3 1, MOVE_CMD_UPDATE_POS 3 (0, 0),
                      MOVE_CMD_UPDATE_FACTION_ID 3 1 2,
                      MOVE_CMD_UPDATE_SELECTION_RADIUS 3 1, MOVE_CMD_SET_MAX_SPEED 3 7,
                      MOVE_CMD_UNBLOCK 3, MOVE_CMD_BLOCK 3 (0, 0, 0) }"
    by simp
  show ?thesis
    using sample_get_3 unknown_uid_command_dropped[OF sample_get_3 a, of sample_extern]
      unknown_uid_command_dropped[OF sample_get_3 b, of sample_extern]
    by simp
qed

lemma sample_flock_for_ent_3: "flock_for_ent sample_state 3 = None"
  by (simp add: flock_for_ent_def sample_state_def flock_contains_def)

lemma sample_flocks_clean_3: "\<forall>fl \<in> set (s_flocks sample_state). flock_clean 3 fl"
  by (simp add: sample_state_def flock_clean_def)

lemma sample_set_dest_3: "do_set_dest sample_extern sample_state 3 (110, 0) False = None"
proof -
  have r: "remove_from_flocks sample_state 3 = Some sample_state"
    by (rule remove_from_flocks_clean_id[OF sample_flocks_clean_3])
  have ptr: "flock_ptr_after_remove 3 (length (s_flocks sample_state)) (s_flocks sample_state) 0 = Some 0"
    by (simp add: sample_state_def flock_try_remove_def)
  have d: "M_NavDestIDForPos sample_extern (M_NavClosestReachableDest sample_extern
             (Entity_NavLayerWithRadius sample_extern 0 1) (10, 0) (110, 0))
             (Entity_NavLayerWithRadius sample_extern 0 1) = 110"
    by (simp add: sample_extern_def)
  have l: "gs_sel_radiuses sample_state 3 = Some 1" "gs_flags sample_state 3 = Some 0"
    "gs_positions sample_state 3 = Some (70, 0, 0)"
    by (simp_all add: sample_state_def)
  have d3: "M_NavDestIDForPos sample_extern (M_NavClosestReachableDest sample_extern
             (Entity_NavLayerWithRadius sample_extern 0 1) (xz_of (70, 0, 0)) (110, 0))
             (Entity_NavLayerWithRadius sample_extern 0 1) = 110"
    by (simp add: sample_extern_def)
  have add: "flock_add (s_flocks sample_state ! 0) 3 \<noteq> None"
    by (simp add: sample_state_def flock_add_def)
  have ub: "\<And>fls. unblock_if_still (sample_state\<lparr>s_flocks := fls\<rparr>) 3 = None"
    by (simp add: unblock_if_still_def sample_get_3)
  show ?thesis
    using add
    by (auto simp add: do_set_dest_def lookup_defs l d3 sample_flock_for_dest_110
          sample_flock_for_ent_3 r ptr ub Let_def)
qed

lemma sample_add_3:
  "do_add_entity sample_extern sample_state 3 (70, 0, 0) 1 1 \<noteq> Some sample_state"
proof
  assume a: "do_add_entity sample_extern sample_state 3 (70, 0, 0) 1 1 = Some sample_state"
  then obtain s2 where b: "entity_block s2 3 = Some sample_state"
    by (auto simp add: do_add_entity_def Let_def sample_get_3 split: Option.bind_splits)
  from entity_block_get[OF b] have "movestate_get sample_state 3 \<noteq> None"
    by auto
  then show False using sample_get_3 by simp
qed

text \<open>
  Claim C9 as stated fails on the code. Entity 3 has no \<open>movestate\<close>. A SetDest command
  for it, towards the destination of an existing flock, adds it to that flock and then
  fails the assertion on the null \<open>movestate\<close> pointer instead of returning; an Add
  command for it creates the \<open>movestate\<close>.
\<close>

theorem unknown_uid_command_counterexample:
  "movestate_get sample_state 3 = None \<and>
   process_cmd sample_extern sample_state (MOVE_CMD_SET_DEST 3 (110, 0) False) = None \<and>
   process_cmd sample_extern sample_state (MOVE_CMD_ADD 3 (70, 0, 0) 1 1) \<noteq> Some sample_state"
  using sample_get_3 sample_set_dest_3 sample_add_3 by simp


subsection \<open>Block and Unblock commands\<close>

lemma do_block_post:
  assumes "do_block s u pos = Some s'"
  shows "\<exists>ms r fl fac. movestate_get s u = Some ms \<and> \<not> blocking ms \<and>
    gs_sel_radiuses s u = Some r \<and> gs_flags s u = Some fl \<and> gs_faction_ids s u = Some fac \<and>
    movestate_get s' u = Some (ms\<lparr>blocking := True, last_stop_pos := xz_of pos, last_stop_radius := r\<rparr>) \<and>
    gs_flags s' = gs_flags s \<and> gs_faction_ids s' = gs_faction_ids s \<and>
    effects s' = effects s @ [NavBlockersIncref (xz_of pos) r fac fl,
                              Notify_MOVABLE_ENTITY_BLOCK u r (xz_of pos)]"
proof -
  from assms obtain oldpos where o: "gs_positions s u = Some oldpos"
    and b: "entity_block (s\<lparr> gs_postree := insert (fst pos, snd (snd pos), u)
                                 (gs_postree s - {(fst oldpos, snd (snd oldpos), u)}),
                gs_positions := (gs_positions s)(u \<mapsto> pos) \<rparr>) u = Some s'"
    by (auto simp add: do_block_def Let_def split: Option.bind_splits)
  from entity_block_post[OF b] show ?thesis
    by (auto simp add: movestate_get_def update_conv')
qed

lemma do_block_Some:
  assumes "movestate_get s u = Some ms" "\<not> blocking ms"
    "gs_sel_radiuses s u = Some r" "gs_positions s u = Some p"
    "gs_flags s u = Some fl" "gs_faction_ids s u = Some fac"
  shows "do_block s u pos \<noteq> None"
proof -
  let ?s1 = "s\<lparr> gs_postree := insert (fst pos, snd (snd pos), u)
                                 (gs_postree s - {(fst p, snd (snd p), u)}),
                gs_positions := (gs_positions s)(u \<mapsto> pos) \<rparr>"
  have "entity_block ?s1 u \<noteq> None"
    using entity_block_Some[of ?s1 u ms r pos fl fac] assms by simp
  then show ?thesis using assms by (simp add: do_block_def Let_def)
qed

text \<open>
  Claim C10. For an agent \<open>u\<close> with a \<open>movestate\<close>: a Block command does nothing when the
  agent is blocking and an Unblock command does nothing when it is not, so a repeated
  Block or Unblock leaves the state (and the log of reference count calls) as the first
  one left it; a Block command for an agent that is not blocking and is known to the
  gamestate tables succeeds. \<open>entity_block\<close> returns only when the agent was not blocking
  and leaves it blocking, \<open>entity_unblock\<close> returns only when it was blocking and leaves it
  not blocking, so the two alternate. \<open>entity_block\<close> stores the position and radius of
  its increment in \<open>last_stop_pos\<close> and \<open>last_stop_radius\<close>, and \<open>entity_unblock\<close>
  decrements with these two fields: an Unblock after a Block decrements with the position
  and radius of the increment.
\<close>

theorem block_unblock_alternate:
  assumes ms: "movestate_get s u = Some ms"
  shows "(blocking ms \<longrightarrow> process_cmd env s (MOVE_CMD_BLOCK u pos) = Some s) \<and>
         (\<not> blocking ms \<longrightarrow> process_cmd env s (MOVE_CMD_UNBLOCK u) = Some s) \<and>
         (\<not> blocking ms \<and> u \<in> dom (gs_sel_radiuses s) \<and> u \<in> dom (gs_positions s)
            \<and> u \<in> dom (gs_flags s) \<and> u \<in> dom (gs_faction_ids s)
            \<longrightarrow> process_cmd env s (MOVE_CMD_BLOCK u pos) \<noteq> None) \<and>
         (\<forall>s1. process_cmd env s (MOVE_CMD_BLOCK u pos) = Some s1
            \<longrightarrow> process_cmd env s1 (MOVE_CMD_BLOCK u pos') = Some s1) \<and>
         (\<forall>s1. process_cmd env s (MOVE_CMD_UNBLOCK u) = Some s1
            \<longrightarrow> process_cmd env s1 (MOVE_CMD_UNBLOCK u) = Some s1) \<and>
         (\<forall>s1. entity_block s u = Some s1 \<longrightarrow>
            \<not> blocking ms \<and>
            (\<exists>p r fac fl. movestate_get s1 u
                 = Some (ms\<lparr>blocking := True, last_stop_pos := p, last_stop_radius := r\<rparr>) \<and>
               effects s1 = effects s @ [NavBlockersIncref p r fac fl,
                                         Notify_MOVABLE_ENTITY_BLOCK u r p])) \<and>
         (\<forall>s1. entity_unblock s u = Some s1 \<longrightarrow>
            blocking ms \<and> movestate_get s1 u = Some (ms\<lparr>blocking := False\<rparr>) \<and>
            (\<exists>fac fl. effects s1 = effects s @
               [NavBlockersDecref (last_stop_pos ms) (last_stop_radius ms) fac fl,
                Notify_MOVABLE_ENTITY_UNBLOCK u (last_stop_radius ms) (last_stop_pos ms)])) \<and>
         (\<forall>s1 s2. \<not> blocking ms \<and> process_cmd env s (MOVE_CMD_BLOCK u pos) = Some s1
                   \<and> process_cmd env s1 (MOVE_CMD_UNBLOCK u) = Some s2 \<longrightarrow>
            (\<exists>r fac fl. effects s2 = effects s @
               [NavBlockersIncref (xz_of pos) r fac fl, Notify_MOVABLE_ENTITY_BLOCK u r (xz_of pos),
                NavBlockersDecref (xz_of pos) r fac fl, Notify_MOVABLE_ENTITY_UNBLOCK u r (xz_of pos)]))"
proof (intro conjI allI impI)
  assume "blocking ms"
  then show "process_cmd env s (MOVE_CMD_BLOCK u pos) = Some s" using ms by simp
next
  assume "\<not> blocking ms"
  then show "process_cmd env s (MOVE_CMD_UNBLOCK u) = Some s" using ms by simp
next
  assume "\<not> blocking ms \<and> u \<in> dom (gs_sel_radiuses s) \<and> u \<in> dom (gs_positions s)
            \<and> u \<in> dom (gs_flags s) \<and> u \<in> dom (gs_faction_ids s)"
  then obtain r p fl fac where "\<not> blocking ms" "gs_sel_radiuses s u = Some r"
    "gs_positions s u = Some p" "gs_flags s u = Some fl" "gs_faction_ids s u = Some fac"
    by auto
  from do_block_Some[OF ms this] show "process_cmd env s (MOVE_CMD_BLOCK u pos) \<noteq> None"
    using ms \<open>\<not> blocking ms\<close> by simp
next
  fix s1 assume a: "process_cmd env s (MOVE_CMD_BLOCK u pos) = Some s1"
  show "process_cmd env s1 (MOVE_CMD_BLOCK u pos') = Some s1"
  proof (cases "blocking ms")
    case True
    then show ?thesis using a ms by simp
  next
    case False
    then have "do_block s u pos = Some s1" using a ms by simp
    from do_block_post[OF this] show ?thesis by auto
  qed
next
  fix s1 assume a: "process_cmd env s (MOVE_CMD_UNBLOCK u) = Some s1"
  show "process_cmd env s1 (MOVE_CMD_UNBLOCK u) = Some s1"
  proof (cases "blocking ms")
    case False
    then show ?thesis using a ms by simp
  next
    case True
    then have "entity_unblock s u = Some s1" using a ms by simp
    from entity_unblock_get[OF this] show ?thesis by auto
  qed
next
  fix s1 assume a: "entity_block s u = Some s1"
  from entity_block_post[OF a] ms show "\<not> blocking ms" by auto
next
  fix s1 assume a: "entity_block s u = Some s1"
  from entity_block_post[OF a] obtain ms' r p fl fac
    where h: "movestate_get s u = Some ms'"
      and e: "s1 = s\<lparr>
     s_entity_state_table := AList.update u
        (ms'\<lparr>blocking := True, last_stop_pos := xz_of p, last_stop_radius := r\<rparr>)
        (s_entity_state_table s),
     effects := effects s @ [NavBlockersIncref (xz_of p) r fac fl,
                             Notify_MOVABLE_ENTITY_BLOCK u r (xz_of p)]\<rparr>"
    by blast
  have m: "ms' = ms" using h ms by simp
  show "\<exists>p r fac fl. movestate_get s1 u
                 = Some (ms\<lparr>blocking := True, last_stop_pos := p, last_stop_radius := r\<rparr>) \<and>
               effects s1 = effects s @ [NavBlockersIncref p r fac fl,
                                         Notify_MOVABLE_ENTITY_BLOCK u r p]"
    apply (rule exI[of _ "xz_of p"], rule exI[of _ r], rule exI[of _ fac], rule exI[of _ fl])
    using e m by simp
next
  fix s1 assume a: "entity_unblock s u = Some s1"
  from entity_unblock_post[OF a] ms show "blocking ms" by auto
next
  fix s1 assume a: "entity_unblock s u = Some s1"
  from entity_unblock_post[OF a] ms show "movestate_get s1 u = Some (ms\<lparr>blocking := False\<rparr>)"
    by auto
next
  fix s1 assume a: "entity_unblock s u = Some s1"
  from entity_unblock_post[OF a] ms
  show "\<exists>fac fl. effects s1 = effects s @
               [NavBlockersDecref (last_stop_pos ms) (last_stop_radius ms) fac fl,
                Notify_MOVABLE_ENTITY_UNBLOCK u (last_stop_radius ms) (last_stop_pos ms)]"
    by auto
next
  fix s1 s2
  assume a: "\<not> blocking ms \<and> process_cmd env s (MOVE_CMD_BLOCK u pos) = Some s1
                   \<and> process_cmd env s1 (MOVE_CMD_UNBLOCK u) = Some s2"
  then have nb: "\<not> blocking ms"
    and a1: "process_cmd env s (MOVE_CMD_BLOCK u pos) = Some s1"
    and a2: "process_cmd env s1 (MOVE_CMD_UNBLOCK u) = Some s2" by simp_all
  have b: "do_block s u pos = Some s1" using a1 nb ms by simp
  from do_block_post[OF b] ms obtain r fl fac where
    g1: "movestate_get s1 u = Some (ms\<lparr>blocking := True, last_stop_pos := xz_of pos, last_stop_radius := r\<rparr>)"
    and t: "gs_flags s1 u = Some fl" "gs_faction_ids s1 u = Some fac"
    and e1: "effects s1 = effects s @ [NavBlockersIncref (xz_of pos) r fac fl,
                              Notify_MOVABLE_ENTITY_BLOCK u r (xz_of pos)]"
    by auto
  have ub: "entity_unblock s1 u = Some s2" using a2 g1 by simp
  from entity_unblock_post[OF ub] g1 t e1
  show "\<exists>r fac fl. effects s2 = effects s @
               [NavBlockersIncref (xz_of pos) r fac fl, Notify_MOVABLE_ENTITY_BLOCK u r (xz_of pos),
                NavBlockersDecref (xz_of pos) r fac fl, Notify_MOVABLE_ENTITY_UNBLOCK u r (xz_of pos)]"
    by auto
qed

text \<open>
  On the sample data: entity 2 blocks, so a Block command for it changes nothing and an
  Unblock command clears the flag; entity 4 does not block, so an Unblock command for it
  changes nothing and a Block command succeeds.
\<close>

theorem block_unblock_alternate_witness:
  "movestate_get sample_state 2 = Some sample_arrived \<and> blocking sample_arrived \<and>
   process_cmd sample_extern sample_state (MOVE_CMD_BLOCK 2 (50, 0, 0)) = Some sample_state \<and>
   movestate_get sample_state 4 = Some sample_moving \<and> \<not> blocking sample_moving \<and>
   process_cmd sample_extern sample_state (MOVE_CMD_UNBLOCK 4) = Some sample_state \<and>
   process_cmd sample_extern sample_state (MOVE_CMD_BLOCK 4 (10, 0, 0)) \<noteq> None"
proof -
  have d: "4 \<in> dom (gs_sel_radiuses sample_state) \<and> 4 \<in> dom (gs_positions sample_state)
            \<and> 4 \<in> dom (gs_flags sample_state) \<and> 4 \<in> dom (gs_faction_ids sample_state)"
    by (simp add: sample_state_def)
  show ?thesis
    using block_unblock_alternate[OF sample_get_2, of sample_extern "(50, 0, 0)" "(50, 0, 0)"]
      block_unblock_alternate[OF sample_get_4, of sample_extern "(10, 0, 0)" "(10, 0, 0)"]
      sample_get_4 sample_get_2 d
    by simp
qed


subsection \<open>Stillness, velocity and the blocking flag\<close>

lemma ms_write_post:
  assumes "ms_write u f s = Some s'"
  shows "\<exists>ms. movestate_get s u = Some ms \<and>
           s' = s\<lparr>s_entity_state_table := AList.update u (f ms) (s_entity_state_table s)\<rparr>"
  using assms by (auto simp add: ms_write_def split: option.splits)

lemma entity_finish_moving_post:
  assumes fin: "entity_finish_moving env s u newstate True = Some s'"
  shows "\<exists>ms ms'. movestate_get s u = Some ms \<and> \<not> ent_still ms \<and> \<not> blocking ms \<and>
           movestate_get s' u = Some ms' \<and> ent_still ms' \<and> state ms' = newstate \<and>
           velocity ms' = (0, 0) \<and> blocking ms' \<and>
           (newstate = STATE_WAITING \<longrightarrow> wait_prev ms' = state ms \<and> wait_ticks_left ms' = WAIT_TICKS)"
proof -
  from fin obtain ms s3 s4 s5 ms5 where
    ms: "movestate_get s u = Some ms" and ns: "\<not> ent_still ms"
    and s3: "(if newstate = STATE_WAITING
            then ms_write u (\<lambda>m. m\<lparr>wait_prev := state m, wait_ticks_left := WAIT_TICKS\<rparr>)
                   (if G_FlagsGet env u AND ENTITY_FLAG_COMBATABLE env \<noteq> 0 \<and> newstate \<noteq> STATE_TURNING
                    then emit (Combat_SetStance_AGGRESSIVE u) (emit (Notify_MOTION_END u) s)
                    else emit (Notify_MOTION_END u) s)
            else Some (if G_FlagsGet env u AND ENTITY_FLAG_COMBATABLE env \<noteq> 0 \<and> newstate \<noteq> STATE_TURNING
                    then emit (Combat_SetStance_AGGRESSIVE u) (emit (Notify_MOTION_END u) s)
                    else emit (Notify_MOTION_END u) s)) = Some s3"
    and s4: "ms_write u (\<lambda>m. m\<lparr>state := newstate, velocity := (0, 0)\<rparr>) s3 = Some s4"
    and s5: "entity_block s4 u = Some s5"
    and g5: "movestate_get s5 u = Some ms5" and st5: "ent_still ms5" and e: "s' = s5"
    by (auto simp add: entity_finish_moving_def Let_def split: Option.bind_splits)
  have g3: "movestate_get s3 u = Some (if newstate = STATE_WAITING
              then ms\<lparr>wait_prev := state ms, wait_ticks_left := WAIT_TICKS\<rparr> else ms)"
    using s3 ms
    by (auto simp add: ms_write_def movestate_get_def update_conv' emit_def split: if_splits)
  from ms_write_post[OF s4] g3
  have g4: "movestate_get s4 u = Some ((if newstate = STATE_WAITING
              then ms\<lparr>wait_prev := state ms, wait_ticks_left := WAIT_TICKS\<rparr> else ms)
              \<lparr>state := newstate, velocity := (0, 0)\<rparr>)"
    by (auto simp add: movestate_get_def update_conv')
  let ?m4 = "(if newstate = STATE_WAITING
              then ms\<lparr>wait_prev := state ms, wait_ticks_left := WAIT_TICKS\<rparr> else ms)
              \<lparr>state := newstate, velocity := (0, 0)\<rparr>"
  from entity_block_post[OF s5] obtain m4 r p fl fac where
    h4: "movestate_get s4 u = Some m4" and nb4: "\<not> blocking m4"
    and e5: "s5 = s4\<lparr>
     s_entity_state_table := AList.update u
        (m4\<lparr>blocking := True, last_stop_pos := xz_of p, last_stop_radius := r\<rparr>)
        (s_entity_state_table s4),
     effects := effects s4 @ [NavBlockersIncref (xz_of p) r fac fl,
                             Notify_MOVABLE_ENTITY_BLOCK u r (xz_of p)]\<rparr>"
    by blast
  have m4: "m4 = ?m4" using h4 g4 by simp
  have nb: "\<not> blocking ms" using nb4 m4 by (simp split: if_splits)
  have g5': "movestate_get s5 u
               = Some (?m4\<lparr>blocking := True, last_stop_pos := xz_of p, last_stop_radius := r\<rparr>)"
    unfolding e5 m4 by simp
  show ?thesis
    using ms ns nb g5 g5' st5 e by (auto split: if_splits)
qed


lemma sample_domains_4:
  "4 \<in> dom (gs_sel_radiuses sample_state) \<and> 4 \<in> dom (gs_positions sample_state)
     \<and> 4 \<in> dom (gs_flags sample_state) \<and> 4 \<in> dom (gs_faction_ids sample_state)"
  by (simp add: sample_state_def)


lemma sample_unblock_2: "entity_unblock sample_state 2 = Some sample_after_unblock"
proof -
  have fl: "gs_flags sample_state 2 = Some 0" and fac: "gs_faction_ids sample_state 2 = Some 1"
    by (simp_all add: sample_state_def)
  show ?thesis
    unfolding entity_unblock_Some[OF sample_get_2 sample_arrived_simps(2) fl fac]
    by (simp add: sample_after_unblock_def sample_state_def)
qed

lemma sample_after_unblock_get:
  "movestate_get sample_after_unblock 4 = Some sample_moving"
  "movestate_get sample_after_unblock 2 = Some (sample_arrived\<lparr> blocking := False \<rparr>)"
  by (simp_all add: sample_after_unblock_def movestate_get_def)

lemma sample_tick_unblock:
  "move_do_tick sample_extern sample_state [] [(False, MOVE_CMD_UNBLOCK 2)] sample_gamestate
     = Some (sample_after_unblock, [4])"
proof -
  have p: "move_process_cmds sample_extern sample_state [(False, MOVE_CMD_UNBLOCK 2)]
             = Some sample_after_unblock"
    by (simp add: sample_get_2 sample_unblock_2)
  have fl: "s_flocks sample_after_unblock = [\<lparr> ents = [4, 2], target_xz = (110, 0), dest_id = 110 \<rparr>]"
    by (simp add: sample_after_unblock_def sample_state_def)
  have d: "disband_empty_flocks sample_after_unblock = Some sample_after_unblock"
    by (simp add: disband_empty_flocks_def fl sample_after_unblock_get[simplified])
  have c: "move_copy_gamestate sample_gamestate sample_after_unblock = sample_after_unblock"
    by (simp add: move_copy_gamestate_def sample_gamestate_def sample_after_unblock_def sample_state_def)
  have w: "map fst (filter (\<lambda>(u, ms). \<not> ent_still ms) (s_entity_state_table sample_after_unblock)) = [4]"
    by (simp add: sample_after_unblock_def ent_still_def)
  show ?thesis
    by (simp add: move_do_tick_def p d c w del: move_process_cmds.simps)
qed



subsection \<open>Waiting after a soft navigation failure\<close>

lemma PFM_Vec2_Len_x [simp]: "PFM_Vec2_Len (a, 0) = \<bar>a\<bar>"
  by (simp add: PFM_Vec2_Len_def)

lemma patch_wait_fields:
  "UPDATE_SET_STATE \<in> p_flags (patch_wait out)" "p_next_state (patch_wait out) = STATE_WAITING"
  "p_next_block (patch_wait out)"
  by (simp_all add: patch_wait_def)

lemma compute_moving_wait:
  assumes "fid inp = None" "flock_for_ent s u = Some fi" "arrived env s u xz = Some False"
    "adjacent_flock_members s u (ents (s_flocks s ! fi)) = Some adj"
    "any_adjacent_arrived s adj = Some False" "PFM_Vec2_Len vdes < EPSILON"
  shows "compute_moving env s u xz vdes inp out = Some (patch_wait out)"
  using assms by (simp add: compute_moving_def)

text \<open>
  When the agent is not garrisoned and its position after the motion of the tick is
  pathable, \<open>entity_compute_update\<close> reaches the \<open>switch\<close> on the arrival state.
\<close>

lemma entity_compute_update_switch:
  assumes ms: "movestate_get s u = Some ms"
    and hz: "hz_count hz \<le> 20" "20 mod hz_count hz = 0"
    and np: "new_pos_for_vel s u new_vel = Some xz0"
    and rad: "G_GetSelectionRadiusFrom (gs_sel_radiuses s) u = Some radius"
    and fl: "G_FlagsGetFrom (gs_flags s) u = Some flags"
    and ng: "flags AND ENTITY_FLAG_GARRISONED env = 0"
    and mot: "(if PFM_Vec2_Len new_vel > 0
                  \<and> M_NavPositionPathable env (Entity_NavLayerWithRadius env flags radius) xz0
               then compute_motion env hz s u ms new_vel xz0 (compute_flush ms out)
               else Some (xz0, (compute_flush ms out)
                            \<lparr> p_flags := p_flags (compute_flush ms out) \<union> {UPDATE_SET_VELOCITY},
                              p_next_velocity := (0, 0) \<rparr>))
              = Some (xz, out2)"
    and path: "M_NavPositionPathable env (Entity_NavLayerWithRadius env flags radius) xz"
  shows "entity_compute_update env hz s u new_vel vdes inp out
         = compute_switch env s u ms xz vdes (Entity_NavLayerWithRadius env flags radius) inp out2"
  using mot path
  by (simp add: entity_compute_update_def ms hz np rad fl ng c_assert_def Let_def)


lemma sample_not_arrived_4: "arrived sample_extern sample_state 4 (10, 0) = Some False"
  by (simp add: arrived_def sample_flock_for_ent_4 lookup_defs)
     (simp add: sample_state_def sample_extern_def PFM_Vec2_Sub_def)

lemma sample_adjacent_4:
  "adjacent_flock_members sample_state 4 (ents (s_flocks sample_state ! 0)) = Some []"
  by (simp add: sample_state_def lookup_defs xz_of_def PFM_Vec2_Sub_def ADJACENCY_SEP_DIST_def)

lemma sample_compute_update:
  "entity_compute_update sample_extern MOVE_HZ_20 sample_state 4 (0, 0) (0, 0)
     sample_no_formation sample_patch = Some (sample_state, sample_wait_patch)"
proof -
  have l: "new_pos_for_vel sample_state 4 (0, 0) = Some (10, 0)"
    "G_GetSelectionRadiusFrom (gs_sel_radiuses sample_state) 4 = Some 1"
    "G_FlagsGetFrom (gs_flags sample_state) 4 = Some 0"
    by (simp_all add: new_pos_for_vel_def lookup_defs sample_state_def xz_of_def PFM_Vec2_Add_def)
  have fl: "compute_flush sample_moving sample_patch = sample_patch"
    by (simp add: compute_flush_def sample_moving_def new_movestate_def sample_patch_def)
  have e: "ENTITY_FLAG_GARRISONED sample_extern = 4" "\<And>l p. M_NavPositionPathable sample_extern l p"
    by (simp_all add: sample_extern_def)
  have mv: "\<And>out. compute_moving sample_extern sample_state 4 (10, 0) (0, 0) sample_no_formation out
            = Some (patch_wait out)"
    by (rule compute_moving_wait[OF _ sample_flock_for_ent_4 sample_not_arrived_4 sample_adjacent_4])
       (simp_all add: sample_no_formation_def EPSILON_def)
  show ?thesis
    apply (simp add: entity_compute_update_def sample_get_4 l fl e compute_switch_def mv)
    apply (auto simp add: patch_wait_def sample_wait_patch_def sample_patch_def)
    done
qed




section \<open>Verification of the cell assignment\<close>

subsection \<open>Matrices and loops over an index range\<close>

lemma fold_upt_inv:
  assumes "P 0 s" and "\<And>i t. i < n \<Longrightarrow> P i t \<Longrightarrow> P (Suc i) (f i t)"
  shows "P n (fold f [0 ..< n] s)"
  using assms
proof (induction n)
  case 0
  then show ?case by simp
next
  case (Suc n)
  have "P n (fold f [0 ..< n] s)" using Suc by simp
  then have "P (Suc n) (f n (fold f [0 ..< n] s))" using Suc.prems(2) by simp
  then show ?case by simp
qed

lemma sq_nth: "sq n m \<Longrightarrow> i < n \<Longrightarrow> length (m ! i) = n"
  by (simp add: sq_def)

lemma sq_mat_set: "sq n m \<Longrightarrow> sq n (mat_set m i j v)"
proof -
  assume a: "sq n m"
  show ?thesis
  proof (cases "i < n")
    case True
    have "set (m[i := (m ! i)[j := v]]) \<subseteq> insert ((m ! i)[j := v]) (set m)"
      by (rule set_update_subset_insert)
    then show ?thesis using a True unfolding sq_def mat_set_def by auto
  next
    case False
    then have "length m \<le> i" using a by (simp add: sq_def)
    then have "m[i := (m ! i)[j := v]] = m" by (rule list_update_beyond)
    then show ?thesis using a by (simp add: mat_set_def)
  qed
qed

lemma mat_at_set:
  "sq n m \<Longrightarrow> i < n \<Longrightarrow> j < n \<Longrightarrow>
     mat_at (mat_set m i j v) i' j' = (if i' = i \<and> j' = j then v else mat_at m i' j')"
  by (auto simp add: sq_def mat_at_def mat_set_def nth_list_update)

lemma sq_mat_const: "sq n (mat_const n v)"
  by (simp add: sq_def mat_const_def)

lemma mat_at_const: "i < n \<Longrightarrow> j < n \<Longrightarrow> mat_at (mat_const n v) i j = v"
  by (simp add: mat_at_def mat_const_def)

lemma length_filter_upt_all:
  "(length (filter P [0 ..< n]) = n) = (\<forall>i < n. P i)"
proof
  assume "length (filter P [0 ..< n]) = n"
  then have "length (filter P [0 ..< n]) = length [0 ..< n]" by simp
  then have "filter P [0 ..< n] = [0 ..< n]"
    by (metis length_filter_less less_irrefl filter_True)
  then have "\<forall>x \<in> set [0 ..< n]. P x" by (metis filter_id_conv)
  then show "\<forall>i < n. P i" by simp
next
  assume "\<forall>i < n. P i"
  then have "filter P [0 ..< n] = [0 ..< n]" by simp
  then show "length (filter P [0 ..< n]) = n" by simp
qed

lemma find_upt_Some:
  "find P [0 ..< n] = Some i \<Longrightarrow> i < n \<and> P i \<and> (\<forall>j < i. \<not> P j)"
  by (auto simp add: find_Some_iff)

lemma find_upt_None: "find P [0 ..< n] = None \<Longrightarrow> \<forall>i < n. \<not> P i"
  by (simp add: find_None_iff)

lemma find_upt_ex: "i < n \<Longrightarrow> P i \<Longrightarrow> \<exists>j. find P [0 ..< n] = Some j"
  by (cases "find P [0 ..< n]") (auto simp add: find_None_iff)

lemma find_product_None:
  "find P (List.product [0 ..< n] [0 ..< n]) = None \<Longrightarrow> \<forall>i < n. \<forall>j < n. \<not> P (i, j)"
  by (auto simp add: find_None_iff)

lemma find_append_cases:
  "find P (xs @ ys) = (case find P xs of None \<Rightarrow> find P ys | Some x \<Rightarrow> Some x)"
  by (induction xs) auto

lemma find_map_Pair:
  "find P (map (Pair x) ys) = map_option (Pair x) (find (\<lambda>j. P (x, j)) ys)"
  by (induction ys) auto

lemma find_product_Some:
  "find P (List.product xs ys) = Some (i, j) \<Longrightarrow>
     i \<in> set xs \<and> find (\<lambda>j. P (i, j)) ys = Some j"
proof (induction xs)
  case Nil
  then show ?case by simp
next
  case (Cons x xs)
  show ?case
  proof (cases "find P (map (Pair x) ys)")
    case None
    then show ?thesis using Cons by (simp add: find_append_cases)
  next
    case (Some a)
    then have "a = (i, j)" using Cons.prems by (simp add: find_append_cases)
    then have "find (\<lambda>j. P (x, j)) ys = Some j \<and> x = i"
      using Some by (auto simp add: find_map_Pair)
    then show ?thesis by auto
  qed
qed

lemma assigned_in_column_iff:
  "assigned_in_column starred n c = (\<exists>i < n. mat_at starred i c)"
  by (auto simp add: assigned_in_column_def list_ex_iff)

lemma row_is_covered_iff: "row_is_covered covered n r = (\<forall>c < n. mat_at covered r c)"
  by (simp add: row_is_covered_def length_filter_upt_all)

lemma column_is_covered_iff: "column_is_covered covered n c = (\<forall>r < n. mat_at covered r c)"
  by (simp add: column_is_covered_def length_filter_upt_all)

subsection \<open>Covering and uncovering lines\<close>

lemma cover_column_spec:
  assumes "sq n cv" "c < n"
  shows "sq n (cover_column cv n c) \<and>
         (\<forall>i j. mat_at (cover_column cv n c) i j = ((i < n \<and> j = c) \<or> mat_at cv i j))"
  unfolding cover_column_def
proof (rule fold_upt_inv[where P = "\<lambda>k t. sq n t \<and>
          (\<forall>i j. mat_at t i j = ((i < k \<and> j = c) \<or> mat_at cv i j))"])
  show "sq n cv \<and> (\<forall>i j. mat_at cv i j = ((i < 0 \<and> j = c) \<or> mat_at cv i j))"
    using assms by simp
next
  fix k t
  assume k: "k < n" and t: "sq n t \<and> (\<forall>i j. mat_at t i j = ((i < k \<and> j = c) \<or> mat_at cv i j))"
  from t have ts: "sq n t"
    and te: "\<forall>i j. mat_at t i j = ((i < k \<and> j = c) \<or> mat_at cv i j)" by blast+
  have v: "mat_at (mat_set t k c True) i j = (if i = k \<and> j = c then True else mat_at t i j)" for i j
    using mat_at_set[OF ts k assms(2)] by simp
  show "sq n (mat_set t k c True) \<and>
        (\<forall>i j. mat_at (mat_set t k c True) i j = ((i < Suc k \<and> j = c) \<or> mat_at cv i j))"
    by (auto simp add: v te[rule_format] sq_mat_set[OF ts] less_Suc_eq)
qed

lemma cover_row_spec:
  assumes "sq n cv" "r < n"
  shows "sq n (cover_row cv n r) \<and>
         (\<forall>i j. mat_at (cover_row cv n r) i j = ((i = r \<and> j < n) \<or> mat_at cv i j))"
  unfolding cover_row_def
proof (rule fold_upt_inv[where P = "\<lambda>k t. sq n t \<and>
          (\<forall>i j. mat_at t i j = ((i = r \<and> j < k) \<or> mat_at cv i j))"])
  show "sq n cv \<and> (\<forall>i j. mat_at cv i j = ((i = r \<and> j < 0) \<or> mat_at cv i j))"
    using assms by simp
next
  fix k t
  assume k: "k < n" and t: "sq n t \<and> (\<forall>i j. mat_at t i j = ((i = r \<and> j < k) \<or> mat_at cv i j))"
  from t have ts: "sq n t"
    and te: "\<forall>i j. mat_at t i j = ((i = r \<and> j < k) \<or> mat_at cv i j)" by blast+
  have v: "mat_at (mat_set t r k True) i j = (if i = r \<and> j = k then True else mat_at t i j)" for i j
    using mat_at_set[OF ts assms(2) k] by simp
  show "sq n (mat_set t r k True) \<and>
        (\<forall>i j. mat_at (mat_set t r k True) i j = ((i = r \<and> j < Suc k) \<or> mat_at cv i j))"
    by (auto simp add: v te[rule_format] sq_mat_set[OF ts] less_Suc_eq)
qed

lemma uncover_column_spec:
  assumes "sq n cv" "c < n"
  shows "sq n (uncover_column cv n c) \<and>
         (\<forall>i j. mat_at (uncover_column cv n c) i j =
                  (mat_at cv i j \<and> \<not> (i < n \<and> j = c \<and> \<not> (\<forall>k < n. mat_at cv i k))))"
  unfolding uncover_column_def
proof (rule fold_upt_inv[where P = "\<lambda>k t. sq n t \<and>
          (\<forall>i j. mat_at t i j =
                  (mat_at cv i j \<and> \<not> (i < k \<and> j = c \<and> \<not> (\<forall>k < n. mat_at cv i k))))"])
  show "sq n cv \<and> (\<forall>i j. mat_at cv i j =
          (mat_at cv i j \<and> \<not> (i < 0 \<and> j = c \<and> \<not> (\<forall>k < n. mat_at cv i k))))"
    using assms by simp
next
  fix k t
  assume k: "k < n" and t: "sq n t \<and> (\<forall>i j. mat_at t i j =
          (mat_at cv i j \<and> \<not> (i < k \<and> j = c \<and> \<not> (\<forall>k < n. mat_at cv i k))))"
  from t have ts: "sq n t"
    and te: "\<forall>i j. mat_at t i j =
          (mat_at cv i j \<and> \<not> (i < k \<and> j = c \<and> \<not> (\<forall>k < n. mat_at cv i k)))" by blast+
  have same: "\<forall>j. mat_at t k j = mat_at cv k j" using te by simp
  have rc: "row_is_covered t n k = (\<forall>j < n. mat_at cv k j)"
    by (simp add: row_is_covered_iff same)
  have v: "mat_at (mat_set t k c False) i j = (if i = k \<and> j = c then False else mat_at t i j)" for i j
    using mat_at_set[OF ts k assms(2)] by simp
  show "sq n (if \<not> row_is_covered t n k then mat_set t k c False else t) \<and>
        (\<forall>i j. mat_at (if \<not> row_is_covered t n k then mat_set t k c False else t) i j =
          (mat_at cv i j \<and> \<not> (i < Suc k \<and> j = c \<and> \<not> (\<forall>k < n. mat_at cv i k))))"
  proof (cases "\<forall>j < n. mat_at cv k j")
    case True
    then have "row_is_covered t n k" using rc by simp
    then show ?thesis using True ts by (auto simp add: te[rule_format] less_Suc_eq)
  next
    case False
    then have "\<not> row_is_covered t n k" using rc by simp
    then show ?thesis using False
      by (auto simp add: v te[rule_format] sq_mat_set[OF ts] less_Suc_eq)
  qed
qed

lemma cover_starred_columns_spec:
  assumes "sq n cv"
  shows "sq n (cover_starred_columns starred n cv) \<and>
         (\<forall>i j. mat_at (cover_starred_columns starred n cv) i j =
                  ((i < n \<and> j < n \<and> (\<exists>r < n. mat_at starred r j)) \<or> mat_at cv i j))"
  unfolding cover_starred_columns_def
proof (rule fold_upt_inv[where P = "\<lambda>k t. sq n t \<and>
          (\<forall>i j. mat_at t i j =
                  ((i < n \<and> j < n \<and> (\<exists>r < k. mat_at starred r j)) \<or> mat_at cv i j))"])
  show "sq n cv \<and> (\<forall>i j. mat_at cv i j =
          ((i < n \<and> j < n \<and> (\<exists>r < 0. mat_at starred r j)) \<or> mat_at cv i j))"
    using assms by simp
next
  fix k t
  assume k: "k < n" and t: "sq n t \<and> (\<forall>i j. mat_at t i j =
          ((i < n \<and> j < n \<and> (\<exists>r < k. mat_at starred r j)) \<or> mat_at cv i j))"
  let ?g = "\<lambda>col cv. if mat_at starred k col then cover_column cv n col else cv"
  have "sq n (fold ?g [0 ..< n] t) \<and>
        (\<forall>i j. mat_at (fold ?g [0 ..< n] t) i j =
           ((i < n \<and> j < n \<and> mat_at starred k j) \<or> mat_at t i j))"
  proof (rule fold_upt_inv[where P = "\<lambda>l u. sq n u \<and>
          (\<forall>i j. mat_at u i j = ((i < n \<and> j < l \<and> mat_at starred k j) \<or> mat_at t i j))"])
    show "sq n t \<and> (\<forall>i j. mat_at t i j = ((i < n \<and> j < 0 \<and> mat_at starred k j) \<or> mat_at t i j))"
      using t by simp
  next
    fix l u
    assume l: "l < n" and u: "sq n u \<and>
          (\<forall>i j. mat_at u i j = ((i < n \<and> j < l \<and> mat_at starred k j) \<or> mat_at t i j))"
    show "sq n (?g l u) \<and>
          (\<forall>i j. mat_at (?g l u) i j = ((i < n \<and> j < Suc l \<and> mat_at starred k j) \<or> mat_at t i j))"
      using cover_column_spec[of n u l] u l by (auto simp add: less_Suc_eq)
  qed
  then show "sq n (fold ?g [0 ..< n] t) \<and>
        (\<forall>i j. mat_at (fold ?g [0 ..< n] t) i j =
           ((i < n \<and> j < n \<and> (\<exists>r < Suc k. mat_at starred r j)) \<or> mat_at cv i j))"
    using t by (auto simp add: less_Suc_eq)
qed

lemma find_uncovered_zero_Some:
  assumes "find_uncovered_zero costs covered n = Some (r, c)"
  shows "r < n \<and> c < n \<and> mat_at costs r c = 0 \<and> \<not> mat_at covered r c \<and>
         (\<forall>c' < c. mat_at costs r c' = 0 \<longrightarrow> mat_at covered r c')"
proof -
  from find_product_Some[OF assms[unfolded find_uncovered_zero_def]]
  have "r < n" and
    f: "find (\<lambda>j. mat_at costs r j = 0 \<and> \<not> mat_at covered r j) [0 ..< n] = Some c"
    by simp_all
  from find_upt_Some[OF f] show ?thesis using \<open>r < n\<close> by auto
qed

lemma find_uncovered_zero_None:
  assumes "find_uncovered_zero costs covered n = None"
  shows "\<forall>r < n. \<forall>c < n. mat_at costs r c = 0 \<longrightarrow> mat_at covered r c"
  using find_product_None[OF assms[unfolded find_uncovered_zero_def]] by auto

subsection \<open>Starring zeros\<close>

lemma star_inv_sq: "star_inv n M st \<Longrightarrow> sq n st"
  by (simp add: star_inv_def)

lemma star_inv_zero: "star_inv n M st \<Longrightarrow> r < n \<Longrightarrow> c < n \<Longrightarrow> mat_at st r c \<Longrightarrow> mat_at M r c = 0"
  by (simp add: star_inv_def)

lemma star_inv_row:
  "star_inv n M st \<Longrightarrow> r < n \<Longrightarrow> c < n \<Longrightarrow> c' < n \<Longrightarrow> mat_at st r c \<Longrightarrow> mat_at st r c' \<Longrightarrow> c = c'"
  by (simp add: star_inv_def)

lemma star_inv_col:
  "star_inv n M st \<Longrightarrow> c < n \<Longrightarrow> r < n \<Longrightarrow> r' < n \<Longrightarrow> mat_at st r c \<Longrightarrow> mat_at st r' c \<Longrightarrow> r = r'"
  by (simp add: star_inv_def)

lemma star_inv_first:
  "star_inv n M st \<Longrightarrow> r < n \<Longrightarrow> c < n \<Longrightarrow> mat_at st r c \<Longrightarrow> c' < c \<Longrightarrow> mat_at M r c' = 0
     \<Longrightarrow> \<exists>r' < n. mat_at st r' c'"
  by (simp add: star_inv_def)

lemma star_invI:
  assumes "sq n st"
    and "\<And>r c. r < n \<Longrightarrow> c < n \<Longrightarrow> mat_at st r c \<Longrightarrow> mat_at M r c = 0"
    and "\<And>r c c'. r < n \<Longrightarrow> c < n \<Longrightarrow> c' < n \<Longrightarrow> mat_at st r c \<Longrightarrow> mat_at st r c' \<Longrightarrow> c = c'"
    and "\<And>c r r'. c < n \<Longrightarrow> r < n \<Longrightarrow> r' < n \<Longrightarrow> mat_at st r c \<Longrightarrow> mat_at st r' c \<Longrightarrow> r = r'"
    and "\<And>r c c'. r < n \<Longrightarrow> c < n \<Longrightarrow> mat_at st r c \<Longrightarrow> c' < c \<Longrightarrow> mat_at M r c' = 0
           \<Longrightarrow> \<exists>r' < n. mat_at st r' c'"
  shows "star_inv n M st"
  unfolding star_inv_def
  apply (intro conjI allI impI)
      apply (rule assms(1))
     apply (rule assms(2); assumption)
    apply (rule assms(3); assumption)
   apply (rule assms(4); assumption)
  apply (rule assms(5); assumption)
  done

lemma star_row_inv:
  assumes inv: "star_inv n M st" and r: "r < n"
  shows "star_inv n M (star_row M n r st) \<and>
         (\<forall>i j. mat_at st i j \<longrightarrow> mat_at (star_row M n r st) i j)"
proof (cases "find (\<lambda>col. mat_at st r col \<or>
                        (mat_at M r col = 0 \<and> \<not> assigned_in_column st n col)) [0 ..< n]")
  case None
  then show ?thesis using inv by (simp add: star_row_def)
next
  case (Some col)
  show ?thesis
  proof (cases "mat_at st r col")
    case True
    then show ?thesis using inv Some by (simp add: star_row_def)
  next
    case False
    from find_upt_Some[OF Some] False
    have col: "col < n" and z: "mat_at M r col = 0"
      and free: "\<And>i. i < n \<Longrightarrow> \<not> mat_at st i col"
      and before: "\<And>c'. c' < col \<Longrightarrow> \<not> mat_at st r c'"
      and before_z: "\<And>c'. c' < col \<Longrightarrow> mat_at M r c' = 0 \<Longrightarrow> \<exists>i < n. mat_at st i c'"
      by (auto simp add: assigned_in_column_iff)
    have nostar: "\<not> mat_at st r c" if c: "c < n" for c
    proof
      assume s: "mat_at st r c"
      have "col < c" using before[of c] s False by (metis linorder_neqE_nat)
      from star_inv_first[OF inv r c s this z] free show False by blast
    qed
    let ?st = "mat_set st r col True"
    have e: "star_row M n r st = ?st" using Some False by (simp add: star_row_def)
    have v: "mat_at ?st i j = (if i = r \<and> j = col then True else mat_at st i j)" for i j
      using mat_at_set[OF star_inv_sq[OF inv] r col] by simp
    have "star_inv n M ?st"
    proof (rule star_invI)
      show "sq n ?st" using star_inv_sq[OF inv] by (rule sq_mat_set)
    next
      fix i j assume a: "i < n" "j < n" "mat_at ?st i j"
      show "mat_at M i j = 0"
      proof (cases "i = r \<and> j = col")
        case True
        then show ?thesis using z by simp
      next
        case False
        then have "mat_at st i j" using a(3) by (simp add: v)
        then show ?thesis using star_inv_zero[OF inv a(1,2)] by simp
      qed
    next
      fix i j j' assume a: "i < n" "j < n" "j' < n" "mat_at ?st i j" "mat_at ?st i j'"
      show "j = j'"
      proof (cases "i = r")
        case True
        have "j = col" using a(2,4) nostar[of j] True by (simp add: v split: if_splits)
        moreover have "j' = col" using a(3,5) nostar[of j'] True by (simp add: v split: if_splits)
        ultimately show ?thesis by simp
      next
        case False
        then have "mat_at st i j" "mat_at st i j'" using a(4,5) by (simp_all add: v)
        then show ?thesis using star_inv_row[OF inv a(1,2,3)] by simp
      qed
    next
      fix j i i' assume a: "j < n" "i < n" "i' < n" "mat_at ?st i j" "mat_at ?st i' j"
      show "i = i'"
      proof (cases "j = col")
        case True
        have "i = r" using a(2,4) free[of i] True by (simp add: v split: if_splits)
        moreover have "i' = r" using a(3,5) free[of i'] True by (simp add: v split: if_splits)
        ultimately show ?thesis by simp
      next
        case False
        then have "mat_at st i j" "mat_at st i' j" using a(4,5) by (simp_all add: v)
        then show ?thesis using star_inv_col[OF inv a(1,2,3)] by simp
      qed
    next
      fix i j j' assume a: "i < n" "j < n" "mat_at ?st i j" "j' < j" "mat_at M i j' = 0"
      show "\<exists>r' < n. mat_at ?st r' j'"
      proof (cases "i = r \<and> j = col")
        case True
        then obtain i' where i': "i' < n" "mat_at st i' j'" using before_z[of j'] a(4,5) by blast
        then have "mat_at ?st i' j'" by (simp add: v)
        then show ?thesis using i'(1) by blast
      next
        case False
        then have "mat_at st i j" using a(3) by (simp add: v)
        from star_inv_first[OF inv a(1,2) this a(4,5)]
        obtain i' where i': "i' < n" "mat_at st i' j'" by blast
        then have "mat_at ?st i' j'" by (simp add: v)
        then show ?thesis using i'(1) by blast
      qed
    qed
    moreover have "\<forall>i j. mat_at st i j \<longrightarrow> mat_at ?st i j" by (simp add: v)
    ultimately show ?thesis by (simp add: e)
  qed
qed

lemma star_zeroes_inv:
  assumes "star_inv n M st"
  shows "star_inv n M (star_zeroes M n st) \<and>
         (\<forall>i j. mat_at st i j \<longrightarrow> mat_at (star_zeroes M n st) i j)"
  unfolding star_zeroes_def
proof (rule fold_upt_inv[where P = "\<lambda>k t. star_inv n M t \<and> (\<forall>i j. mat_at st i j \<longrightarrow> mat_at t i j)"])
  show "star_inv n M st \<and> (\<forall>i j. mat_at st i j \<longrightarrow> mat_at st i j)" using assms by simp
next
  fix k t assume "k < n" and t: "star_inv n M t \<and> (\<forall>i j. mat_at st i j \<longrightarrow> mat_at t i j)"
  then show "star_inv n M (star_row M n k t) \<and> (\<forall>i j. mat_at st i j \<longrightarrow> mat_at (star_row M n k t) i j)"
    using star_row_inv[of n M t k] by blast
qed

lemma star_inv_const: "star_inv n M (mat_const n False)"
  by (rule star_invI) (simp_all add: sq_mat_const mat_at_const)

lemma srows_mono:
  assumes "\<forall>i j. mat_at st i j \<longrightarrow> mat_at st' i j"
  shows "srows n st \<subseteq> srows n st'"
  using assms by (auto simp add: srows_def)

lemma srows_bound: "srows n st \<subseteq> {..<n}"
  by (auto simp add: srows_def)

lemma finite_srows: "finite (srows n st)"
  using srows_bound by (rule finite_subset) simp

lemma card_srows_le: "card (srows n st) \<le> n"
  using card_mono[OF _ srows_bound, of n st] by simp

subsection \<open>The cover and the primes\<close>

lemma cover_inv_sq: "cover_inv n st R cv \<Longrightarrow> sq n cv"
  by (simp add: cover_inv_def)

lemma cover_inv_sub: "cover_inv n st R cv \<Longrightarrow> R \<subseteq> {..<n}"
  by (simp add: cover_inv_def)

lemma cover_inv_at:
  "cover_inv n st R cv \<Longrightarrow> r < n \<Longrightarrow> c < n \<Longrightarrow>
     mat_at cv r c = (r \<in> R \<or> (\<exists>r' < n. mat_at st r' c \<and> r' \<notin> R))"
  by (simp add: cover_inv_def)

lemma cover_inv_finite: "cover_inv n st R cv \<Longrightarrow> finite R"
  by (rule finite_subset[OF cover_inv_sub]) simp_all

lemma cover_inv_initial:
  "cover_inv n st {} (cover_starred_columns st n (mat_const n False))"
  using cover_starred_columns_spec[OF sq_mat_const, of n st False]
  by (simp add: cover_inv_def mat_at_const)

lemma prime_inv_initial: "prime_inv n M st {} rank (mat_const n False)"
  by (simp add: prime_inv_def sq_mat_const mat_at_const)

lemma prime_inv_sq: "prime_inv n M st R rank pr \<Longrightarrow> sq n pr"
  by (simp add: prime_inv_def)

lemma prime_inv_at:
  "prime_inv n M st R rank pr \<Longrightarrow> r < n \<Longrightarrow> c < n \<Longrightarrow> mat_at pr r c \<Longrightarrow>
     r \<in> R \<and> prime_ok n M st R rank r c"
  by (simp add: prime_inv_def)

lemma prime_inv_row:
  "prime_inv n M st R rank pr \<Longrightarrow> r \<in> R \<Longrightarrow>
     (\<exists>c < n. mat_at st r c) \<and> (\<exists>c < n. mat_at pr r c) \<and> rank r < card R"
  by (simp add: prime_inv_def)

lemma uncovered_zero_facts:
  assumes cv: "cover_inv n st R cv"
    and f: "find_uncovered_zero M cv n = Some (r, c)"
  shows "r < n" "c < n" "mat_at M r c = 0" "r \<notin> R"
    "\<And>r'. r' < n \<Longrightarrow> mat_at st r' c \<Longrightarrow> r' \<in> R"
    "\<And>c'. c' < c \<Longrightarrow> mat_at M r c' = 0 \<Longrightarrow> \<exists>r' < n. mat_at st r' c'"
proof -
  from find_uncovered_zero_Some[OF f]
  have r: "r < n" and c: "c < n" and z: "mat_at M r c = 0" and u: "\<not> mat_at cv r c"
    and b: "\<And>c'. c' < c \<Longrightarrow> mat_at M r c' = 0 \<Longrightarrow> mat_at cv r c'" by auto
  show "r < n" "c < n" "mat_at M r c = 0" by (rule r, rule c, rule z)
  from u cover_inv_at[OF cv r c] show nr: "r \<notin> R" by simp
  show "\<And>r'. r' < n \<Longrightarrow> mat_at st r' c \<Longrightarrow> r' \<in> R"
    using u cover_inv_at[OF cv r c] by auto
  show "\<exists>r' < n. mat_at st r' c'" if "c' < c" "mat_at M r c' = 0" for c'
  proof -
    have "c' < n" using that(1) c by simp
    from cover_inv_at[OF cv r this] b[OF that] nr show ?thesis by auto
  qed
qed
lemma cover_step_cover:
  assumes inv: "star_inv n M st" and cv: "cover_inv n st R cv"
    and f: "find_uncovered_zero M cv n = Some (r, c)"
    and s: "row_has_starred st n r = Some sc"
  shows "cover_inv n st (insert r R) (cover_row (uncover_column cv n sc) n r)"
proof -
  note u = uncovered_zero_facts[OF cv f]
  from find_upt_Some[OF s[unfolded row_has_starred_def]]
  have sc: "sc < n" and star: "mat_at st r sc" by simp_all
  let ?cvu = "uncover_column cv n sc"
  let ?cv' = "cover_row ?cvu n r"
  from uncover_column_spec[OF cover_inv_sq[OF cv] sc]
  have squ: "sq n ?cvu"
    and atu: "\<And>i j. mat_at ?cvu i j =
                (mat_at cv i j \<and> \<not> (i < n \<and> j = sc \<and> \<not> (\<forall>k < n. mat_at cv i k)))"
    by simp_all
  from cover_row_spec[OF squ u(1)]
  have sq': "sq n ?cv'"
    and at': "\<And>i j. mat_at ?cv' i j = ((i = r \<and> j < n) \<or> mat_at ?cvu i j)"
    by simp_all
  have full: "(\<forall>k < n. mat_at cv i k) = (i \<in> R)" if i: "i < n" for i
  proof
    assume "\<forall>k < n. mat_at cv i k"
    then have "mat_at cv i c" using u(2) by simp
    then show "i \<in> R" using cover_inv_at[OF cv i u(2)] u(5) by auto
  next
    assume "i \<in> R"
    then show "\<forall>k < n. mat_at cv i k" using cover_inv_at[OF cv i] by simp
  qed
  have main: "mat_at ?cv' i j = (i \<in> insert r R \<or> (\<exists>r' < n. mat_at st r' j \<and> r' \<notin> insert r R))"
    if i: "i < n" and j: "j < n" for i j
  proof (cases "i = r")
    case True
    then show ?thesis using j by (simp add: at')
  next
    case ir: False
    have v: "mat_at ?cv' i j = (mat_at cv i j \<and> \<not> (j = sc \<and> i \<notin> R))"
      using ir i by (simp add: at' atu full)
    show ?thesis
    proof (cases "j = sc")
      case True
      have only: "r' = r" if "r' < n" "mat_at st r' sc" for r'
        using star_inv_col[OF inv sc that(1) u(1) that(2) star] .
      show ?thesis
      proof (cases "i \<in> R")
        case True
        then show ?thesis using v cover_inv_at[OF cv i j] by simp
      next
        case False
        have "\<not> (\<exists>r' < n. mat_at st r' j \<and> r' \<notin> insert r R)"
          using only \<open>j = sc\<close> by auto
        then show ?thesis using v False ir \<open>j = sc\<close> by simp
      qed
    next
      case False
      have nr: "r' \<noteq> r" if "mat_at st r' j" for r'
      proof
        assume "r' = r"
        then have "mat_at st r j" using that by simp
        from star_inv_row[OF inv u(1) j sc this star] False show False by simp
      qed
      have "(\<exists>r' < n. mat_at st r' j \<and> r' \<notin> insert r R) = (\<exists>r' < n. mat_at st r' j \<and> r' \<notin> R)"
        using nr by auto
      then show ?thesis using v False ir cover_inv_at[OF cv i j] by simp
    qed
  qed
  have "insert r R \<subseteq> {..<n}" using cover_inv_sub[OF cv] u(1) by simp
  then show ?thesis unfolding cover_inv_def using sq' main by simp
qed
lemma prime_ok_mono:
  assumes "prime_ok n M st R rank i j" and "R \<subseteq> R'"
    and "\<And>x. x \<in> R \<Longrightarrow> rank' x = rank x" and "i \<in> R"
  shows "prime_ok n M st R' rank' i j"
  using assms unfolding prime_ok_def by auto

lemma cover_step_prime:
  assumes inv: "star_inv n M st" and cv: "cover_inv n st R cv"
    and pr: "prime_inv n M st R rank pr"
    and f: "find_uncovered_zero M cv n = Some (r, c)"
    and s: "row_has_starred st n r = Some sc"
  shows "prime_inv n M st (insert r R) (rank(r := card R)) (mat_set pr r c True)"
proof -
  note u = uncovered_zero_facts[OF cv f]
  from find_upt_Some[OF s[unfolded row_has_starred_def]]
  have sc: "sc < n" and star: "mat_at st r sc" by simp_all
  let ?pr = "mat_set pr r c True"
  let ?rank = "rank(r := card R)"
  have fin: "finite R" by (rule cover_inv_finite[OF cv])
  have card: "card (insert r R) = Suc (card R)" using fin u(4) by simp
  have v: "mat_at ?pr i j = (if i = r \<and> j = c then True else mat_at pr i j)" for i j
    using mat_at_set[OF prime_inv_sq[OF pr] u(1,2)] by simp
  have same: "?rank x = rank x" if "x \<in> R" for x using that u(4) by auto
  have notstar: "\<not> mat_at st r c"
  proof
    assume "mat_at st r c"
    then have "r \<in> R" using u(5)[OF u(1)] by simp
    then show False using u(4) by simp
  qed
  have new: "prime_ok n M st (insert r R) ?rank r c"
    unfolding prime_ok_def
  proof (intro conjI allI impI)
    show "mat_at M r c = 0" by (rule u(3))
    show "\<not> mat_at st r c" by (rule notstar)
  next
    fix r' assume a: "r' < n" "mat_at st r' c"
    then have "r' \<in> R" by (rule u(5))
    then show "r' \<in> insert r R" by simp
  next
    fix r' assume a: "r' < n" "mat_at st r' c"
    then have m: "r' \<in> R" by (rule u(5))
    then have "rank r' < card R" using prime_inv_row[OF pr] by simp
    then show "?rank r' < ?rank r" using same[OF m] by simp
  next
    fix c' assume "c' < c" "mat_at M r c' = 0"
    then show "\<exists>r' < n. mat_at st r' c'" by (rule u(6))
  qed
  have cells: "i \<in> insert r R \<and> prime_ok n M st (insert r R) ?rank i j"
    if i: "i < n" and j: "j < n" and p: "mat_at ?pr i j" for i j
  proof (cases "i = r \<and> j = c")
    case True
    then show ?thesis using new by simp
  next
    case False
    then have "mat_at pr i j" using p by (simp add: v)
    from prime_inv_at[OF pr i j this]
    have m: "i \<in> R" and ok: "prime_ok n M st R rank i j" by simp_all
    have "prime_ok n M st (insert r R) ?rank i j"
      by (rule prime_ok_mono[OF ok _ same m]) auto
    then show ?thesis using m by simp
  qed
  have rows: "(\<exists>c < n. mat_at st i c) \<and> (\<exists>c < n. mat_at ?pr i c) \<and> ?rank i < card (insert r R)"
    if i: "i \<in> insert r R" for i
  proof (cases "i = r")
    case True
    have "mat_at ?pr r c" by (simp add: v)
    then show ?thesis using True sc star u(2) card by auto
  next
    case False
    then have m: "i \<in> R" using i by simp
    from prime_inv_row[OF pr m] obtain c0 where
      a: "\<exists>c < n. mat_at st i c" and c0: "c0 < n" "mat_at pr i c0" and rk: "rank i < card R"
      by auto
    have "mat_at ?pr i c0" using c0(2) by (simp add: v)
    then show ?thesis using a c0(1) rk same[OF m] card by auto
  qed
  show ?thesis
    unfolding prime_inv_def
    using sq_mat_set[OF prime_inv_sq[OF pr]] cells rows by simp
qed

lemma cover_step_card:
  assumes cv: "cover_inv n st R cv" and f: "find_uncovered_zero M cv n = Some (r, c)"
  shows "card R < n" and "card (insert r R) = Suc (card R)"
proof -
  note u = uncovered_zero_facts[OF cv f]
  have fin: "finite R" by (rule cover_inv_finite[OF cv])
  have "insert r R \<subseteq> {..<n}" using cover_inv_sub[OF cv] u(1) by simp
  from card_mono[OF _ this] have "card (insert r R) \<le> n" by simp
  moreover show "card (insert r R) = Suc (card R)" using fin u(4) by simp
  ultimately show "card R < n" by simp
qed

subsection \<open>The path from a primed zero without a star on its row\<close>

lemma next_path_zero_alt:
  assumes pr: "prime_inv n M st R rank pr"
    and r0: "r0 < n" "c0 < n" "r0 \<notin> R"
    and col: "\<And>r'. r' < n \<Longrightarrow> mat_at st r' pc \<Longrightarrow> r' \<in> R \<and> rank r' < m"
    and cap: "length path + 2 * m \<le> n * n"
  shows "\<exists>ext. next_path_zero st (mat_set pr r0 c0 True) n pc path = Some (path @ ext) \<and>
               alt_path n M st (mat_set pr r0 c0 True) R rank m pc ext"
  using col cap
proof (induction m arbitrary: pc path rule: less_induct)
  case (less m)
  let ?pr = "mat_set pr r0 c0 True"
  have v: "mat_at ?pr i j = (if i = r0 \<and> j = c0 then True else mat_at pr i j)" for i j
    using mat_at_set[OF prime_inv_sq[OF pr] r0(1,2)] by simp
  show ?case
  proof (cases "column_has_starred st n pc")
    case None
    then have "\<forall>r < n. \<not> mat_at st r pc"
      using find_upt_None[of "\<lambda>i. mat_at st i pc" n] by (simp add: column_has_starred_def)
    then have "alt_path n M st ?pr R rank m pc []" by (rule alt_end)
    moreover have "next_path_zero st ?pr n pc path = Some (path @ [])"
      by (subst next_path_zero.simps) (simp add: None)
    ultimately show ?thesis by blast
  next
    case (Some sr)
    from find_upt_Some[OF Some[unfolded column_has_starred_def]]
    have sr: "sr < n" and star: "mat_at st sr pc" by simp_all
    from less.prems(1)[OF sr star] have m: "sr \<in> R" and rk: "rank sr < m" by simp_all
    have ne: "sr \<noteq> r0" using m r0(3) by auto
    from prime_inv_row[OF pr m] obtain c1 where c1: "c1 < n" "mat_at pr sr c1" by auto
    then have "mat_at ?pr sr c1" by (simp add: v)
    from find_upt_ex[of c1 n "\<lambda>i. mat_at ?pr sr i", OF c1(1) this]
    obtain nc where f: "primed_zero_at_row ?pr n sr = Some nc"
      by (auto simp add: primed_zero_at_row_def)
    from find_upt_Some[OF f[unfolded primed_zero_at_row_def]]
    have nc: "nc < n" and p': "mat_at ?pr sr nc" by simp_all
    have p: "mat_at pr sr nc" using p' ne by (simp add: v)
    from prime_inv_at[OF pr sr nc p] have ok: "prime_ok n M st R rank sr nc" by simp
    have col': "\<And>r'. r' < n \<Longrightarrow> mat_at st r' nc \<Longrightarrow> r' \<in> R \<and> rank r' < rank sr"
      using ok by (simp add: prime_ok_def)
    have cap': "length (path @ [(sr, pc), (sr, nc)]) + 2 * rank sr \<le> n * n"
      using less.prems(2) rk by simp
    from less.IH[OF rk col' cap'] obtain ext where
      e: "next_path_zero st ?pr n nc (path @ [(sr, pc), (sr, nc)])
            = Some ((path @ [(sr, pc), (sr, nc)]) @ ext)"
      and a: "alt_path n M st ?pr R rank (rank sr) nc ext" by blast
    have room: "\<not> n * n < length path + 2" using less.prems(2) rk by simp
    have "next_path_zero st ?pr n pc path = Some (path @ ((sr, pc) # (sr, nc) # ext))"
      using room e by (subst next_path_zero.simps) (simp add: Some f)
    moreover have "alt_path n M st ?pr R rank m pc ((sr, pc) # (sr, nc) # ext)"
      by (rule alt_step[OF sr star m rk nc p' ok a])
    ultimately show ?thesis by blast
  qed
qed
lemma flip_invI:
  assumes "sq n cur"
    and "\<And>r c. r \<in> R \<Longrightarrow> rank r < m \<Longrightarrow> c < n \<Longrightarrow> mat_at cur r c = mat_at st r c"
    and "\<And>r c c'. r < n \<Longrightarrow> c < n \<Longrightarrow> c' < n \<Longrightarrow> mat_at cur r c \<Longrightarrow> mat_at cur r c' \<Longrightarrow> c = c'"
    and "\<And>c r r'. c < n \<Longrightarrow> r < n \<Longrightarrow> r' < n \<Longrightarrow> mat_at cur r c \<Longrightarrow> mat_at cur r' c \<Longrightarrow> r \<noteq> r'
           \<Longrightarrow> c = pc \<and> ((r \<in> R \<and> rank r < m) \<or> (r' \<in> R \<and> rank r' < m))"
    and "\<And>r c. r < n \<Longrightarrow> c < n \<Longrightarrow> mat_at cur r c \<Longrightarrow> \<not> mat_at st r c
           \<Longrightarrow> c = pc \<or> (\<exists>x < n. mat_at st x c \<and> \<not> (x \<in> R \<and> rank x < m))"
    and "\<And>r c. r < n \<Longrightarrow> c < n \<Longrightarrow> mat_at cur r c
           \<Longrightarrow> mat_at M r c = 0 \<and> (\<forall>c' < c. mat_at M r c' = 0 \<longrightarrow> (\<exists>r' < n. mat_at st r' c'))"
    and "\<And>c. c < n \<Longrightarrow> \<exists>r < n. mat_at st r c \<Longrightarrow> \<exists>r < n. mat_at cur r c"
    and "\<exists>x < n. mat_at cur x pc \<and> \<not> (x \<in> R \<and> rank x < m)"
    and "insert r0 (srows n st) \<subseteq> srows n cur"
  shows "flip_inv n M st R rank r0 m pc cur"
  unfolding flip_inv_def
  apply (intro conjI)
          apply (rule assms(1))
         apply (intro ballI allI impI, rule assms(2); assumption)
        apply (intro ballI allI impI, rule assms(3); assumption)
       apply (intro ballI allI impI, rule assms(4); assumption)
      apply (intro ballI allI impI, rule assms(5); assumption)
     apply (intro ballI allI impI, rule assms(6); assumption)
    apply (intro ballI allI impI, rule assms(7); assumption)
   apply (rule assms(8))
  apply (rule assms(9))
  done

lemma fi_sq: "flip_inv n M st R rank r0 m pc cur \<Longrightarrow> sq n cur"
  by (simp add: flip_inv_def)

lemma fi_low:
  "flip_inv n M st R rank r0 m pc cur \<Longrightarrow> r \<in> R \<Longrightarrow> rank r < m \<Longrightarrow> c < n \<Longrightarrow>
     mat_at cur r c = mat_at st r c"
  by (simp add: flip_inv_def)

lemma fi_row:
  "flip_inv n M st R rank r0 m pc cur \<Longrightarrow> r < n \<Longrightarrow> c < n \<Longrightarrow> c' < n \<Longrightarrow>
     mat_at cur r c \<Longrightarrow> mat_at cur r c' \<Longrightarrow> c = c'"
  by (simp add: flip_inv_def)

lemma fi_col:
  "flip_inv n M st R rank r0 m pc cur \<Longrightarrow> c < n \<Longrightarrow> r < n \<Longrightarrow> r' < n \<Longrightarrow>
     mat_at cur r c \<Longrightarrow> mat_at cur r' c \<Longrightarrow> r \<noteq> r' \<Longrightarrow>
     c = pc \<and> ((r \<in> R \<and> rank r < m) \<or> (r' \<in> R \<and> rank r' < m))"
  by (simp add: flip_inv_def)

lemma fi_new:
  "flip_inv n M st R rank r0 m pc cur \<Longrightarrow> r < n \<Longrightarrow> c < n \<Longrightarrow> mat_at cur r c \<Longrightarrow>
     \<not> mat_at st r c \<Longrightarrow> c = pc \<or> (\<exists>x < n. mat_at st x c \<and> \<not> (x \<in> R \<and> rank x < m))"
  by (simp add: flip_inv_def)

lemma fi_zero:
  "flip_inv n M st R rank r0 m pc cur \<Longrightarrow> r < n \<Longrightarrow> c < n \<Longrightarrow> mat_at cur r c \<Longrightarrow>
     mat_at M r c = 0 \<and> (\<forall>c' < c. mat_at M r c' = 0 \<longrightarrow> (\<exists>r' < n. mat_at st r' c'))"
  by (simp add: flip_inv_def)

lemma fi_cols:
  "flip_inv n M st R rank r0 m pc cur \<Longrightarrow> c < n \<Longrightarrow> \<exists>r < n. mat_at st r c \<Longrightarrow>
     \<exists>r < n. mat_at cur r c"
  by (simp add: flip_inv_def)

lemma fi_extra:
  "flip_inv n M st R rank r0 m pc cur \<Longrightarrow>
     \<exists>x < n. mat_at cur x pc \<and> \<not> (x \<in> R \<and> rank x < m)"
  by (simp add: flip_inv_def)

lemma fi_rows:
  "flip_inv n M st R rank r0 m pc cur \<Longrightarrow> insert r0 (srows n st) \<subseteq> srows n cur"
  by (simp add: flip_inv_def)
lemma flip_step:
  assumes inv: "star_inv n M st"
    and fi: "flip_inv n M st R rank r0 m pc cur"
    and pc: "pc < n" and sr: "sr < n" and star: "mat_at st sr pc"
    and mem: "sr \<in> R" and rk: "rank sr < m" and nc: "nc < n"
    and ok: "prime_ok n M st R rank sr nc"
  shows "flip_inv n M st R rank r0 (rank sr) nc (mat_set (mat_set cur sr pc False) sr nc True)"
proof -
  let ?c1 = "mat_set cur sr pc False"
  let ?c2 = "mat_set ?c1 sr nc True"
  have sq1: "sq n ?c1" using fi_sq[OF fi] by (rule sq_mat_set)
  have sq2: "sq n ?c2" using sq1 by (rule sq_mat_set)
  have okz: "mat_at M sr nc = 0" and okn: "\<not> mat_at st sr nc"
    and okc: "\<And>x. x < n \<Longrightarrow> mat_at st x nc \<Longrightarrow> x \<in> R \<and> rank x < rank sr"
    and okf: "\<And>c'. c' < nc \<Longrightarrow> mat_at M sr c' = 0 \<Longrightarrow> \<exists>r' < n. mat_at st r' c'"
    using ok by (simp_all add: prime_ok_def)
  have ne: "nc \<noteq> pc" using star okn by auto
  have v: "mat_at ?c2 i j =
      (if i = sr \<and> j = nc then True else if i = sr \<and> j = pc then False else mat_at cur i j)" for i j
    using mat_at_set[OF sq1 sr nc] mat_at_set[OF fi_sq[OF fi] sr pc] by simp
  have other: "mat_at ?c2 i j = mat_at cur i j" if "i \<noteq> sr" for i j
    using that by (simp add: v)
  have cursr: "mat_at cur sr j = (j = pc)" if j: "j < n" for j
  proof -
    have "mat_at cur sr j = mat_at st sr j" by (rule fi_low[OF fi mem rk j])
    moreover have "mat_at st sr j = (j = pc)"
      using star star_inv_row[OF inv sr j pc] by auto
    ultimately show ?thesis by simp
  qed
  have rowsr: "mat_at ?c2 sr j = (j = nc)" if j: "j < n" for j
    using cursr[OF j] ne by (auto simp add: v)
  have low: "x \<in> R \<and> rank x < m" if "x \<in> R \<and> rank x < rank sr" for x
    using that rk by simp
  show ?thesis
  proof (rule flip_invI)
    show "sq n ?c2" by (rule sq2)
  next
    fix r c assume a: "r \<in> R" "rank r < rank sr" "c < n"
    then have "r \<noteq> sr" by auto
    then have "mat_at ?c2 r c = mat_at cur r c" by (rule other)
    also have "\<dots> = mat_at st r c" using fi_low[OF fi a(1) _ a(3)] a(2) rk by simp
    finally show "mat_at ?c2 r c = mat_at st r c" .
  next
    fix r c c' assume a: "r < n" "c < n" "c' < n" "mat_at ?c2 r c" "mat_at ?c2 r c'"
    show "c = c'"
    proof (cases "r = sr")
      case True
      then show ?thesis using a rowsr by simp
    next
      case False
      then show ?thesis using a fi_row[OF fi a(1,2,3)] by (simp add: other)
    qed
  next
    fix c r r' assume a: "c < n" "r < n" "r' < n" "mat_at ?c2 r c" "mat_at ?c2 r' c" "r \<noteq> r'"
    have key: "c = nc \<and> x \<in> R \<and> rank x < rank sr"
      if x: "x < n" "x \<noteq> sr" "mat_at cur x c" and c: "mat_at ?c2 sr c" for x
    proof -
      have cn: "c = nc" using c rowsr[OF a(1)] by simp
      have "mat_at st x nc"
      proof (rule ccontr)
        assume ns: "\<not> mat_at st x nc"
        from fi_new[OF fi x(1) nc _ ns] x(3) cn ne
        obtain y where y: "y < n" "mat_at st y nc" "\<not> (y \<in> R \<and> rank y < m)" by auto
        from okc[OF y(1,2)] rk y(3) show False by simp
      qed
      from okc[OF x(1) this] cn show ?thesis by simp
    qed
    have none: False if x: "x < n" "y < n" "x \<noteq> sr" "y \<noteq> sr" "x \<noteq> y"
      "mat_at cur x c" "mat_at cur y c" for x y
    proof -
      from fi_col[OF fi a(1) x(1,2) x(6,7) x(5)]
      have cp: "c = pc" and l: "(x \<in> R \<and> rank x < m) \<or> (y \<in> R \<and> rank y < m)" by simp_all
      from l show False
      proof
        assume lx: "x \<in> R \<and> rank x < m"
        then have "mat_at st x pc" using fi_low[OF fi _ _ pc, of x] x(6) cp by simp
        from star_inv_col[OF inv pc x(1) sr this star] x(3) show False by simp
      next
        assume ly: "y \<in> R \<and> rank y < m"
        then have "mat_at st y pc" using fi_low[OF fi _ _ pc, of y] x(7) cp by simp
        from star_inv_col[OF inv pc x(2) sr this star] x(4) show False by simp
      qed
    qed
    show "c = nc \<and> ((r \<in> R \<and> rank r < rank sr) \<or> (r' \<in> R \<and> rank r' < rank sr))"
    proof (cases "r = sr")
      case True
      then have "r' \<noteq> sr" using a(6) by simp
      then have "mat_at cur r' c" using a(5) by (simp add: other)
      from key[OF a(3) \<open>r' \<noteq> sr\<close> this] a(4) True show ?thesis by simp
    next
      case rs: False
      then have cr: "mat_at cur r c" using a(4) by (simp add: other)
      show ?thesis
      proof (cases "r' = sr")
        case True
        from key[OF a(2) rs cr] a(5) True show ?thesis by simp
      next
        case False
        then have "mat_at cur r' c" using a(5) by (simp add: other)
        from none[OF a(2,3) rs False a(6) cr this] show ?thesis ..
      qed
    qed
  next
    fix r c assume a: "r < n" "c < n" "mat_at ?c2 r c" "\<not> mat_at st r c"
    show "c = nc \<or> (\<exists>x < n. mat_at st x c \<and> \<not> (x \<in> R \<and> rank x < rank sr))"
    proof (cases "r = sr")
      case True
      then show ?thesis using a rowsr by simp
    next
      case False
      then have "mat_at cur r c" using a(3) by (simp add: other)
      from fi_new[OF fi a(1,2) this a(4)]
      show ?thesis
      proof
        assume "c = pc"
        then have "mat_at st sr c \<and> \<not> (sr \<in> R \<and> rank sr < rank sr)" using star by simp
        then show ?thesis using sr by blast
      next
        assume "\<exists>x < n. mat_at st x c \<and> \<not> (x \<in> R \<and> rank x < m)"
        then obtain x where x: "x < n" "mat_at st x c" "\<not> (x \<in> R \<and> rank x < m)" by blast
        then have "\<not> (x \<in> R \<and> rank x < rank sr)" using low by blast
        then show ?thesis using x(1,2) by blast
      qed
    qed
  next
    fix r c assume a: "r < n" "c < n" "mat_at ?c2 r c"
    show "mat_at M r c = 0 \<and> (\<forall>c' < c. mat_at M r c' = 0 \<longrightarrow> (\<exists>r' < n. mat_at st r' c'))"
    proof (cases "r = sr")
      case True
      then have "c = nc" using a rowsr by simp
      then show ?thesis using True okz okf by simp
    next
      case False
      then have "mat_at cur r c" using a(3) by (simp add: other)
      from fi_zero[OF fi a(1,2) this] show ?thesis .
    qed
  next
    fix c assume a: "c < n" "\<exists>r < n. mat_at st r c"
    from fi_cols[OF fi a] obtain r where r: "r < n" "mat_at cur r c" by blast
    show "\<exists>r < n. mat_at ?c2 r c"
    proof (cases "r = sr")
      case True
      then have cp: "c = pc" using r(2) cursr[OF a(1)] by simp
      from fi_extra[OF fi] obtain x where x: "x < n" "mat_at cur x pc" "\<not> (x \<in> R \<and> rank x < m)"
        by blast
      have "x \<noteq> sr" using x(3) mem rk by auto
      then have "mat_at ?c2 x c" using x(2) cp by (simp add: other)
      then show ?thesis using x(1) by blast
    next
      case False
      then have "mat_at ?c2 r c" using r(2) by (simp add: other)
      then show ?thesis using r(1) by blast
    qed
  next
    have "mat_at ?c2 sr nc" using rowsr[OF nc] by simp
    then show "\<exists>x < n. mat_at ?c2 x nc \<and> \<not> (x \<in> R \<and> rank x < rank sr)"
      using sr by blast
  next
    show "insert r0 (srows n st) \<subseteq> srows n ?c2"
    proof
      fix i assume "i \<in> insert r0 (srows n st)"
      then have "i \<in> srows n cur" using fi_rows[OF fi] by blast
      then obtain j where i: "i < n" and j: "j < n" "mat_at cur i j" by (auto simp add: srows_def)
      show "i \<in> srows n ?c2"
      proof (cases "i = sr")
        case True
        have "mat_at ?c2 sr nc" using rowsr[OF nc] by simp
        then show ?thesis using True sr nc by (auto simp add: srows_def)
      next
        case False
        then have "mat_at ?c2 i j" using j(2) by (simp add: other)
        then show ?thesis using i j(1) by (auto simp add: srows_def)
      qed
    qed
  qed
qed
lemma flip_end:
  assumes inv: "star_inv n M st"
    and fi: "flip_inv n M st R rank r0 m pc cur"
    and pc: "pc < n" and none: "\<forall>r < n. \<not> mat_at st r pc"
  shows "star_inv n M cur"
proof (rule star_invI)
  show "sq n cur" by (rule fi_sq[OF fi])
next
  fix r c assume "r < n" "c < n" "mat_at cur r c"
  from fi_zero[OF fi this] show "mat_at M r c = 0" by simp
next
  fix r c c' assume "r < n" "c < n" "c' < n" "mat_at cur r c" "mat_at cur r c'"
  then show "c = c'" by (rule fi_row[OF fi])
next
  fix c r r' assume a: "c < n" "r < n" "r' < n" "mat_at cur r c" "mat_at cur r' c"
  show "r = r'"
  proof (rule ccontr)
    assume ne: "r \<noteq> r'"
    from fi_col[OF fi a ne]
    have cp: "c = pc" and l: "(r \<in> R \<and> rank r < m) \<or> (r' \<in> R \<and> rank r' < m)" by simp_all
    from l show False
    proof
      assume "r \<in> R \<and> rank r < m"
      then have "mat_at st r pc" using fi_low[OF fi _ _ pc, of r] a(4) cp by simp
      then show False using none a(2) by simp
    next
      assume "r' \<in> R \<and> rank r' < m"
      then have "mat_at st r' pc" using fi_low[OF fi _ _ pc, of r'] a(5) cp by simp
      then show False using none a(3) by simp
    qed
  qed
next
  fix r c c' assume a: "r < n" "c < n" "mat_at cur r c" "c' < c" "mat_at M r c' = 0"
  from fi_zero[OF fi a(1,2,3)] a(4,5) have e: "\<exists>r' < n. mat_at st r' c'" by simp
  have "c' < n" using a(2,4) by simp
  from fi_cols[OF fi this e] show "\<exists>r' < n. mat_at cur r' c'" .
qed

lemma flip_path_alt:
  assumes inv: "star_inv n M st"
    and np: "\<And>i j. i < n \<Longrightarrow> j < n \<Longrightarrow> mat_at pr i j \<Longrightarrow> \<not> mat_at st i j"
  shows "alt_path n M st pr R rank m pc ext \<Longrightarrow> pc < n \<Longrightarrow>
         flip_inv n M st R rank r0 m pc cur \<Longrightarrow>
         \<exists>st'. flip_path cur pr ext = Some st' \<and> star_inv n M st' \<and>
               insert r0 (srows n st) \<subseteq> srows n st'"
proof (induction arbitrary: cur rule: alt_path.induct)
  case (alt_end pc m)
  have "star_inv n M cur" by (rule flip_end[OF inv alt_end(3) alt_end(2) alt_end(1)])
  then show ?case using fi_rows[OF alt_end(3)] by simp
next
  case (alt_step sr pc m nc rest)
  note fi = alt_step.prems(2) and pc = alt_step.prems(1)
  have okn: "\<not> mat_at st sr nc" using alt_step.hyps(7) by (simp add: prime_ok_def)
  have ne: "nc \<noteq> pc" using alt_step.hyps(2) okn by auto
  have c_pc: "mat_at cur sr pc" using fi_low[OF fi alt_step.hyps(3,4) pc] alt_step.hyps(2) by simp
  have p_pc: "\<not> mat_at pr sr pc" using np[OF alt_step.hyps(1) pc] alt_step.hyps(2) by auto
  let ?c1 = "mat_set cur sr pc False"
  have c_nc: "\<not> mat_at ?c1 sr nc"
    using mat_at_set[OF fi_sq[OF fi] alt_step.hyps(1) pc, of False sr nc]
      fi_low[OF fi alt_step.hyps(3,4) alt_step.hyps(5)] okn ne by simp
  have e: "flip_path cur pr ((sr, pc) # (sr, nc) # rest)
           = flip_path (mat_set ?c1 sr nc True) pr rest"
    using c_pc p_pc c_nc alt_step.hyps(6) by simp
  have "flip_inv n M st R rank r0 (rank sr) nc (mat_set ?c1 sr nc True)"
    by (rule flip_step[OF inv fi pc alt_step.hyps(1,2,3,4,5,7)])
  from alt_step.IH[OF alt_step.hyps(5) this] show ?case by (simp only: e)
qed
lemma flip_inv_start:
  assumes inv: "star_inv n M st" and cv: "cover_inv n st R cv"
    and pr: "prime_inv n M st R rank pr"
    and f: "find_uncovered_zero M cv n = Some (r0, c0)"
    and norow: "\<And>c. c < n \<Longrightarrow> \<not> mat_at st r0 c"
  shows "flip_inv n M st R rank r0 (card R) c0 (mat_set st r0 c0 True)"
proof -
  note u = uncovered_zero_facts[OF cv f]
  let ?c = "mat_set st r0 c0 True"
  have v: "mat_at ?c i j = (if i = r0 \<and> j = c0 then True else mat_at st i j)" for i j
    using mat_at_set[OF star_inv_sq[OF inv] u(1,2)] by simp
  have old: "mat_at st i j" if "mat_at ?c i j" "\<not> (i = r0 \<and> j = c0)" for i j
    using that by (simp add: v split: if_splits)
  have c0only: "j = c0" if "j < n" "mat_at ?c r0 j" for j
    using that norow[of j] by (simp add: v split: if_splits)
  show ?thesis
  proof (rule flip_invI)
    show "sq n ?c" using star_inv_sq[OF inv] by (rule sq_mat_set)
  next
    fix r c assume "r \<in> R" "rank r < card R" "c < n"
    then have "r \<noteq> r0" using u(4) by auto
    then show "mat_at ?c r c = mat_at st r c" by (simp add: v)
  next
    fix r c c' assume a: "r < n" "c < n" "c' < n" "mat_at ?c r c" "mat_at ?c r c'"
    show "c = c'"
    proof (cases "r = r0")
      case True
      have "c = c0" using c0only[OF a(2)] a(4) True by simp
      moreover have "c' = c0" using c0only[OF a(3)] a(5) True by simp
      ultimately show ?thesis by simp
    next
      case False
      then have "mat_at st r c" "mat_at st r c'" using a(4,5) by (simp_all add: v)
      then show ?thesis by (rule star_inv_row[OF inv a(1,2,3)])
    qed
  next
    fix c r r' assume a: "c < n" "r < n" "r' < n" "mat_at ?c r c" "mat_at ?c r' c" "r \<noteq> r'"
    have key: "c = c0 \<and> x \<in> R \<and> rank x < card R"
      if x: "x < n" "mat_at ?c x c" "x \<noteq> r0" and c: "mat_at ?c r0 c" for x
    proof -
      have cc: "c = c0" using c0only[OF a(1) c] .
      have "mat_at st x c0" using x(2,3) cc by (simp add: v)
      from u(5)[OF x(1) this] have "x \<in> R" .
      then show ?thesis using cc prime_inv_row[OF pr, of x] by simp
    qed
    show "c = c0 \<and> ((r \<in> R \<and> rank r < card R) \<or> (r' \<in> R \<and> rank r' < card R))"
    proof (cases "r = r0")
      case True
      then have "r' \<noteq> r0" using a(6) by simp
      from key[OF a(3,5) this] a(4) True show ?thesis by simp
    next
      case rs: False
      show ?thesis
      proof (cases "r' = r0")
        case True
        from key[OF a(2,4) rs] a(5) True show ?thesis by simp
      next
        case False
        then have "mat_at st r c" "mat_at st r' c" using a(4,5) rs by (simp_all add: v)
        from star_inv_col[OF inv a(1,2,3) this] a(6) show ?thesis by simp
      qed
    qed
  next
    fix r c assume a: "r < n" "c < n" "mat_at ?c r c" "\<not> mat_at st r c"
    then have "c = c0" by (simp add: v split: if_splits)
    then show "c = c0 \<or> (\<exists>x < n. mat_at st x c \<and> \<not> (x \<in> R \<and> rank x < card R))" by simp
  next
    fix r c assume a: "r < n" "c < n" "mat_at ?c r c"
    show "mat_at M r c = 0 \<and> (\<forall>c' < c. mat_at M r c' = 0 \<longrightarrow> (\<exists>r' < n. mat_at st r' c'))"
    proof (cases "r = r0 \<and> c = c0")
      case True
      then show ?thesis using u(3) u(6) by simp
    next
      case False
      then have s: "mat_at st r c" using a(3) by (rule old[rotated])
      show ?thesis using star_inv_zero[OF inv a(1,2) s] star_inv_first[OF inv a(1,2) s] by simp
    qed
  next
    fix c assume "c < n" "\<exists>r < n. mat_at st r c"
    then obtain r where "r < n" "mat_at st r c" by blast
    then have "r < n \<and> mat_at ?c r c" by (simp add: v)
    then show "\<exists>r < n. mat_at ?c r c" by blast
  next
    have "mat_at ?c r0 c0 \<and> \<not> (r0 \<in> R \<and> rank r0 < card R)" using u(4) by (simp add: v)
    then show "\<exists>x < n. mat_at ?c x c0 \<and> \<not> (x \<in> R \<and> rank x < card R)" using u(1) by blast
  next
    have "r0 \<in> srows n ?c" using u(1,2) by (auto simp add: srows_def v)
    moreover have "srows n st \<subseteq> srows n ?c" by (rule srows_mono) (simp add: v)
    ultimately show "insert r0 (srows n st) \<subseteq> srows n ?c" by simp
  qed
qed

lemma two_n_le_square: "2 * n \<le> n * n + (1::nat)"
  by (cases n) simp_all

lemma augment:
  assumes inv: "star_inv n M st" and cv: "cover_inv n st R cv"
    and pr: "prime_inv n M st R rank pr"
    and f: "find_uncovered_zero M cv n = Some (r0, c0)"
    and s: "row_has_starred st n r0 = None"
  shows "\<exists>path st'. next_path_zero st (mat_set pr r0 c0 True) n c0 [(r0, c0)] = Some path \<and>
           flip_path st (mat_set pr r0 c0 True) path = Some st' \<and> star_inv n M st' \<and>
           insert r0 (srows n st) \<subseteq> srows n st'"
    and "r0 \<notin> srows n st"
proof -
  note u = uncovered_zero_facts[OF cv f]
  have norow: "\<not> mat_at st r0 c" if "c < n" for c
    using find_upt_None[OF s[unfolded row_has_starred_def]] that by simp
  show "r0 \<notin> srows n st" using norow by (auto simp add: srows_def)
  let ?pr = "mat_set pr r0 c0 True"
  have v: "mat_at ?pr i j = (if i = r0 \<and> j = c0 then True else mat_at pr i j)" for i j
    using mat_at_set[OF prime_inv_sq[OF pr] u(1,2)] by simp
  have col: "r' \<in> R \<and> rank r' < card R" if "r' < n" "mat_at st r' c0" for r'
    using u(5)[OF that] prime_inv_row[OF pr, of r'] by simp
  have "card R < n" by (rule cover_step_card(1)[OF cv f])
  then have "2 * card R + 2 \<le> 2 * n" by simp
  then have cap: "length [(r0, c0)] + 2 * card R \<le> n * n"
    using two_n_le_square[of n] by simp
  from next_path_zero_alt[OF pr u(1,2,4) col cap] obtain ext where
    p: "next_path_zero st ?pr n c0 [(r0, c0)] = Some ([(r0, c0)] @ ext)"
    and a: "alt_path n M st ?pr R rank (card R) c0 ext" by blast
  have np: "\<not> mat_at st i j" if "i < n" "j < n" "mat_at ?pr i j" for i j
  proof (cases "i = r0 \<and> j = c0")
    case True
    then show ?thesis using norow[OF u(2)] by simp
  next
    case False
    then have "mat_at pr i j" using that(3) by (simp add: v)
    from prime_inv_at[OF pr that(1,2) this] show ?thesis by (simp add: prime_ok_def)
  qed
  have fi: "flip_inv n M st R rank r0 (card R) c0 (mat_set st r0 c0 True)"
    by (rule flip_inv_start[OF inv cv pr f norow])
  from flip_path_alt[OF inv np a u(2) fi] obtain st' where
    fl: "flip_path (mat_set st r0 c0 True) ?pr ext = Some st'"
    and si: "star_inv n M st'" and sr: "insert r0 (srows n st) \<subseteq> srows n st'" by blast
  have "flip_path st ?pr ([(r0, c0)] @ ext) = Some st'"
    using fl norow[OF u(2)] by (simp add: v)
  then show "\<exists>path st'. next_path_zero st ?pr n c0 [(r0, c0)] = Some path \<and>
           flip_path st ?pr path = Some st' \<and> star_inv n M st' \<and>
           insert r0 (srows n st) \<subseteq> srows n st'"
    using p si sr by blast
qed

subsection \<open>The covering loop ends\<close>

lemma lex_measure_less:
  assumes "a2 < (a::nat)"
  shows "a2 * (n + 1) + n < a * (n + 1) + x"
proof -
  have "Suc a2 * (n + 1) \<le> a * (n + 1)" using assms by (intro mult_le_mono1) simp
  then show ?thesis by simp
qed

lemma cover_loop_total:
  assumes "star_inv n M st" "cover_inv n st R cv" "prime_inv n M st R rank pr"
  shows "\<exists>st' cv' R'. cover_loop M n st cv pr = Some (st', cv') \<and> star_inv n M st' \<and>
           cover_inv n st' R' cv' \<and> (\<forall>r \<in> R'. \<exists>c < n. mat_at st' r c) \<and>
           (\<forall>r < n. \<forall>c < n. mat_at M r c = 0 \<longrightarrow> mat_at cv' r c)"
  using assms
proof (induction "(n - card (srows n st)) * (n + 1) + (n - card R)"
         arbitrary: st cv pr R rank rule: less_induct)
  case less
  note inv = less.prems(1) and cv = less.prems(2) and pr = less.prems(3)
  show ?case
  proof (cases "find_uncovered_zero M cv n")
    case None
    have "cover_loop M n st cv pr = Some (st, cv)"
      by (subst cover_loop.simps) (simp add: None)
    moreover have "\<forall>r \<in> R. \<exists>c < n. mat_at st r c" using prime_inv_row[OF pr] by simp
    ultimately show ?thesis using inv cv find_uncovered_zero_None[OF None] by blast
  next
    case (Some rc)
    obtain r c where rc: "rc = (r, c)" by (cases rc)
    note f = Some[unfolded rc]
    show ?thesis
    proof (cases "row_has_starred st n r")
      case (Some sc)
      let ?cv = "cover_row (uncover_column cv n sc) n r"
      let ?pr = "mat_set pr r c True"
      have cv2: "cover_inv n st (insert r R) ?cv" by (rule cover_step_cover[OF inv cv f Some])
      have pr2: "prime_inv n M st (insert r R) (rank(r := card R)) ?pr"
        by (rule cover_step_prime[OF inv cv pr f Some])
      have "n - card (insert r R) < n - card R"
        using cover_step_card[OF cv f] by simp
      then have "(n - card (srows n st)) * (n + 1) + (n - card (insert r R))
                 < (n - card (srows n st)) * (n + 1) + (n - card R)" by simp
      from less.hyps[OF this inv cv2 pr2] obtain st' cv' R' where
        res: "cover_loop M n st ?cv ?pr = Some (st', cv')" "star_inv n M st'"
          "cover_inv n st' R' cv'" "\<forall>r \<in> R'. \<exists>c < n. mat_at st' r c"
          "\<forall>r < n. \<forall>c < n. mat_at M r c = 0 \<longrightarrow> mat_at cv' r c" by blast
      have "cover_loop M n st cv pr = Some (st', cv')"
        by (subst cover_loop.simps) (simp add: f Some res(1))
      then show ?thesis using res(2,3,4,5) by blast
    next
      case None
      let ?pr = "mat_set pr r c True"
      from augment[OF inv cv pr f None] obtain path st1 where
        p: "next_path_zero st ?pr n c [(r, c)] = Some path"
        and fl: "flip_path st ?pr path = Some st1"
        and i1: "star_inv n M st1" and r1: "insert r (srows n st) \<subseteq> srows n st1"
        and nr: "r \<notin> srows n st" by blast
      let ?st = "star_zeroes M n st1"
      let ?cv = "cover_starred_columns ?st n (mat_const n False)"
      let ?pz = "mat_const n False :: bool matrix"
      from star_zeroes_inv[OF i1] have i2: "star_inv n M ?st"
        and mono: "\<forall>i j. mat_at st1 i j \<longrightarrow> mat_at ?st i j" by simp_all
      have "insert r (srows n st) \<subseteq> srows n ?st" using r1 srows_mono[OF mono] by blast
      then have "card (insert r (srows n st)) \<le> card (srows n ?st)"
        by (intro card_mono finite_srows)
      then have "card (srows n st) < card (srows n ?st)" using nr finite_srows[of n st] by simp
      then have "n - card (srows n ?st) < n - card (srows n st)"
        using card_srows_le[of n ?st] by simp
      from lex_measure_less[OF this, of n "n - card R"]
      have "(n - card (srows n ?st)) * (n + 1) + (n - card ({}::nat set))
                 < (n - card (srows n st)) * (n + 1) + (n - card R)"
        by (simp only: card.empty diff_zero)
      from less.hyps[OF this i2 cover_inv_initial prime_inv_initial] obtain st' cv' R' where
        res: "cover_loop M n ?st ?cv ?pz = Some (st', cv')" "star_inv n M st'"
          "cover_inv n st' R' cv'" "\<forall>r \<in> R'. \<exists>c < n. mat_at st' r c"
          "\<forall>r < n. \<forall>c < n. mat_at M r c = 0 \<longrightarrow> mat_at cv' r c" by blast
      have "cover_loop M n st cv pr = Some (st', cv')"
        by (subst cover_loop.simps) (simp add: f None p fl res(1))
      then show ?thesis using res(2,3,4,5) by blast
    qed
  qed
qed

subsection \<open>Step 4: the smallest uncovered value\<close>

lemma min_uncovered_value_spec:
  "min_uncovered_value M cv n \<le> INT_MAX \<and>
   (\<forall>r < n. \<forall>c < n. \<not> mat_at cv r c \<longrightarrow> min_uncovered_value M cv n \<le> mat_at M r c) \<and>
   (min_uncovered_value M cv n = INT_MAX \<or>
    (\<exists>r < n. \<exists>c < n. \<not> mat_at cv r c \<and> min_uncovered_value M cv n = mat_at M r c))"
  unfolding min_uncovered_value_def
proof (rule fold_upt_inv[where P = "\<lambda>k m. m \<le> INT_MAX \<and>
          (\<forall>r < k. \<forall>c < n. \<not> mat_at cv r c \<longrightarrow> m \<le> mat_at M r c) \<and>
          (m = INT_MAX \<or> (\<exists>r < n. \<exists>c < n. \<not> mat_at cv r c \<and> m = mat_at M r c))"])
  show "INT_MAX \<le> INT_MAX \<and> (\<forall>r < 0. \<forall>c < n. \<not> mat_at cv r c \<longrightarrow> INT_MAX \<le> mat_at M r c) \<and>
        (INT_MAX = INT_MAX \<or> (\<exists>r < n. \<exists>c < n. \<not> mat_at cv r c \<and> INT_MAX = mat_at M r c))"
    by simp
next
  fix k m
  assume k: "k < n" and m: "m \<le> INT_MAX \<and>
          (\<forall>r < k. \<forall>c < n. \<not> mat_at cv r c \<longrightarrow> m \<le> mat_at M r c) \<and>
          (m = INT_MAX \<or> (\<exists>r < n. \<exists>c < n. \<not> mat_at cv r c \<and> m = mat_at M r c))"
  let ?g = "\<lambda>col m. if \<not> mat_at cv k col then min (mat_at M k col) m else m"
  have "fold ?g [0 ..< n] m \<le> m \<and>
        (\<forall>c < n. \<not> mat_at cv k c \<longrightarrow> fold ?g [0 ..< n] m \<le> mat_at M k c) \<and>
        (fold ?g [0 ..< n] m = m \<or>
           (\<exists>c < n. \<not> mat_at cv k c \<and> fold ?g [0 ..< n] m = mat_at M k c))"
  proof (rule fold_upt_inv[where P = "\<lambda>l x. x \<le> m \<and>
          (\<forall>c < l. \<not> mat_at cv k c \<longrightarrow> x \<le> mat_at M k c) \<and>
          (x = m \<or> (\<exists>c < n. \<not> mat_at cv k c \<and> x = mat_at M k c))"])
    show "m \<le> m \<and> (\<forall>c < 0. \<not> mat_at cv k c \<longrightarrow> m \<le> mat_at M k c) \<and>
          (m = m \<or> (\<exists>c < n. \<not> mat_at cv k c \<and> m = mat_at M k c))" by simp
  next
    fix l x
    assume l: "l < n" and x: "x \<le> m \<and>
          (\<forall>c < l. \<not> mat_at cv k c \<longrightarrow> x \<le> mat_at M k c) \<and>
          (x = m \<or> (\<exists>c < n. \<not> mat_at cv k c \<and> x = mat_at M k c))"
    show "?g l x \<le> m \<and> (\<forall>c < Suc l. \<not> mat_at cv k c \<longrightarrow> ?g l x \<le> mat_at M k c) \<and>
          (?g l x = m \<or> (\<exists>c < n. \<not> mat_at cv k c \<and> ?g l x = mat_at M k c))"
    proof (cases "mat_at cv k l")
      case True
      then show ?thesis using x by (auto simp add: less_Suc_eq)
    next
      case False
      show ?thesis
      proof (cases "mat_at M k l \<le> x")
        case True
        then have e: "?g l x = mat_at M k l" using False by (simp add: min_def)
        have "\<forall>c < Suc l. \<not> mat_at cv k c \<longrightarrow> mat_at M k l \<le> mat_at M k c"
          using x True by (auto simp add: less_Suc_eq)
        moreover have "mat_at M k l \<le> m" using x True by simp
        moreover have "\<exists>c < n. \<not> mat_at cv k c \<and> mat_at M k l = mat_at M k c"
          using l False by blast
        ultimately show ?thesis unfolding e by simp
      next
        case F: False
        then have e: "?g l x = x" using False by (simp add: min_def)
        have "\<forall>c < Suc l. \<not> mat_at cv k c \<longrightarrow> x \<le> mat_at M k c"
          using x F by (auto simp add: less_Suc_eq)
        then show ?thesis using x unfolding e by simp
      qed
    qed
  qed
  then obtain y where y: "y = fold ?g [0 ..< n] m" "y \<le> m"
    "\<forall>c < n. \<not> mat_at cv k c \<longrightarrow> y \<le> mat_at M k c"
    "y = m \<or> (\<exists>c < n. \<not> mat_at cv k c \<and> y = mat_at M k c)" by simp
  have a: "y \<le> INT_MAX" using y(2) m by simp
  have b: "\<forall>r < Suc k. \<forall>c < n. \<not> mat_at cv r c \<longrightarrow> y \<le> mat_at M r c"
  proof (intro allI impI)
    fix r c assume r: "r < Suc k" and c: "c < n" and u: "\<not> mat_at cv r c"
    show "y \<le> mat_at M r c"
    proof (cases "r = k")
      case True
      then show ?thesis using y(3) c u by simp
    next
      case False
      then have "r < k" using r by simp
      then have "m \<le> mat_at M r c" using m c u by simp
      then show ?thesis using y(2) by simp
    qed
  qed
  have c: "y = INT_MAX \<or> (\<exists>r < n. \<exists>c < n. \<not> mat_at cv r c \<and> y = mat_at M r c)"
    using y(4)
  proof
    assume "y = m"
    then show ?thesis using m by simp
  next
    assume "\<exists>c < n. \<not> mat_at cv k c \<and> y = mat_at M k c"
    then show ?thesis using k by blast
  qed
  show "fold ?g [0 ..< n] m \<le> INT_MAX \<and>
        (\<forall>r < Suc k. \<forall>c < n. \<not> mat_at cv r c \<longrightarrow> fold ?g [0 ..< n] m \<le> mat_at M r c) \<and>
        (fold ?g [0 ..< n] m = INT_MAX \<or>
          (\<exists>r < n. \<exists>c < n. \<not> mat_at cv r c \<and> fold ?g [0 ..< n] m = mat_at M r c))"
    using a b c unfolding y(1) by simp
qed
lemma fold_row_update:
  assumes "sq n t" "k < n"
  shows "sq n (fold (\<lambda>c nx. mat_set nx k c (g (mat_at nx k c))) [0 ..< n] t) \<and>
         (\<forall>r c. mat_at (fold (\<lambda>c nx. mat_set nx k c (g (mat_at nx k c))) [0 ..< n] t) r c =
                  (if r = k \<and> c < n then g (mat_at t r c) else mat_at t r c))"
proof (rule fold_upt_inv[where P = "\<lambda>l u. sq n u \<and>
          (\<forall>r c. mat_at u r c = (if r = k \<and> c < l then g (mat_at t r c) else mat_at t r c))"])
  show "sq n t \<and> (\<forall>r c. mat_at t r c = (if r = k \<and> c < 0 then g (mat_at t r c) else mat_at t r c))"
    using assms by simp
next
  fix l u
  assume l: "l < n" and u: "sq n u \<and>
          (\<forall>r c. mat_at u r c = (if r = k \<and> c < l then g (mat_at t r c) else mat_at t r c))"
  from u have us: "sq n u"
    and ue: "\<forall>r c. mat_at u r c = (if r = k \<and> c < l then g (mat_at t r c) else mat_at t r c)"
    by blast+
  have v: "mat_at (mat_set u k l x) r c = (if r = k \<and> c = l then x else mat_at u r c)" for r c x
    using mat_at_set[OF us assms(2) l] by simp
  show "sq n (mat_set u k l (g (mat_at u k l))) \<and>
        (\<forall>r c. mat_at (mat_set u k l (g (mat_at u k l))) r c =
                 (if r = k \<and> c < Suc l then g (mat_at t r c) else mat_at t r c))"
    by (auto simp add: v ue[rule_format] sq_mat_set[OF us] less_Suc_eq)
qed

lemma fold_col_update:
  assumes "sq n t" "k < n"
  shows "sq n (fold (\<lambda>r nx. mat_set nx r k (g (mat_at nx r k))) [0 ..< n] t) \<and>
         (\<forall>r c. mat_at (fold (\<lambda>r nx. mat_set nx r k (g (mat_at nx r k))) [0 ..< n] t) r c =
                  (if c = k \<and> r < n then g (mat_at t r c) else mat_at t r c))"
proof (rule fold_upt_inv[where P = "\<lambda>l u. sq n u \<and>
          (\<forall>r c. mat_at u r c = (if c = k \<and> r < l then g (mat_at t r c) else mat_at t r c))"])
  show "sq n t \<and> (\<forall>r c. mat_at t r c = (if c = k \<and> r < 0 then g (mat_at t r c) else mat_at t r c))"
    using assms by simp
next
  fix l u
  assume l: "l < n" and u: "sq n u \<and>
          (\<forall>r c. mat_at u r c = (if c = k \<and> r < l then g (mat_at t r c) else mat_at t r c))"
  from u have us: "sq n u"
    and ue: "\<forall>r c. mat_at u r c = (if c = k \<and> r < l then g (mat_at t r c) else mat_at t r c)"
    by blast+
  have v: "mat_at (mat_set u l k x) r c = (if r = l \<and> c = k then x else mat_at u r c)" for r c x
    using mat_at_set[OF us l assms(2)] by simp
  show "sq n (mat_set u l k (g (mat_at u l k))) \<and>
        (\<forall>r c. mat_at (mat_set u l k (g (mat_at u l k))) r c =
                 (if c = k \<and> r < Suc l then g (mat_at t r c) else mat_at t r c))"
    by (auto simp add: v ue[rule_format] sq_mat_set[OF us] less_Suc_eq)
qed

lemma subtract_uncovered_rows_spec:
  assumes "sq n M"
  shows "sq n (subtract_uncovered_rows M cv n mn) \<and>
         (\<forall>r < n. \<forall>c < n. mat_at (subtract_uncovered_rows M cv n mn) r c =
                  mat_at M r c - (if row_is_covered cv n r then 0 else mn))"
proof -
  let ?P = "\<lambda>k t. sq n t \<and>
          (\<forall>r < n. \<forall>c < n. mat_at t r c =
                  (if r < k then mat_at M r c - (if row_is_covered cv n r then 0 else mn)
                   else mat_at M r c))"
  have "?P n (subtract_uncovered_rows M cv n mn)"
  unfolding subtract_uncovered_rows_def
proof (rule fold_upt_inv[where P = ?P])
  show "sq n M \<and> (\<forall>r < n. \<forall>c < n. mat_at M r c =
          (if r < 0 then mat_at M r c - (if row_is_covered cv n r then 0 else mn) else mat_at M r c))"
    using assms by simp
next
  fix k t
  assume k: "k < n" and t: "sq n t \<and> (\<forall>r < n. \<forall>c < n. mat_at t r c =
          (if r < k then mat_at M r c - (if row_is_covered cv n r then 0 else mn) else mat_at M r c))"
  from t have ts: "sq n t"
    and te: "\<And>r c. r < n \<Longrightarrow> c < n \<Longrightarrow> mat_at t r c =
          (if r < k then mat_at M r c - (if row_is_covered cv n r then 0 else mn) else mat_at M r c)"
    by blast+
  let ?u = "fold (\<lambda>col nx. mat_set nx k col (mat_at nx k col - mn)) [0 ..< n] t"
  from fold_row_update[OF ts k, of "\<lambda>x. x - mn"]
  have us: "sq n ?u"
    and ue: "\<And>r c. mat_at ?u r c = (if r = k \<and> c < n then mat_at t r c - mn else mat_at t r c)"
    by simp_all
  show "sq n (if \<not> row_is_covered cv n k then ?u else t) \<and>
        (\<forall>r < n. \<forall>c < n. mat_at (if \<not> row_is_covered cv n k then ?u else t) r c =
          (if r < Suc k then mat_at M r c - (if row_is_covered cv n r then 0 else mn)
           else mat_at M r c))"
  proof (cases "row_is_covered cv n k")
    case True
    then show ?thesis using ts by (auto simp add: te less_Suc_eq)
  next
    case False
    then show ?thesis using us by (auto simp add: ue te less_Suc_eq)
  qed
qed
  then show ?thesis by simp
qed

lemma add_covered_columns_spec:
  assumes "sq n M"
  shows "sq n (add_covered_columns M cv n mn) \<and>
         (\<forall>r < n. \<forall>c < n. mat_at (add_covered_columns M cv n mn) r c =
                  mat_at M r c + (if column_is_covered cv n c then mn else 0))"
proof -
  let ?P = "\<lambda>k t. sq n t \<and>
          (\<forall>r < n. \<forall>c < n. mat_at t r c =
                  (if c < k then mat_at M r c + (if column_is_covered cv n c then mn else 0)
                   else mat_at M r c))"
  have "?P n (add_covered_columns M cv n mn)"
  unfolding add_covered_columns_def
proof (rule fold_upt_inv[where P = ?P])
  show "sq n M \<and> (\<forall>r < n. \<forall>c < n. mat_at M r c =
          (if c < 0 then mat_at M r c + (if column_is_covered cv n c then mn else 0) else mat_at M r c))"
    using assms by simp
next
  fix k t
  assume k: "k < n" and t: "sq n t \<and> (\<forall>r < n. \<forall>c < n. mat_at t r c =
          (if c < k then mat_at M r c + (if column_is_covered cv n c then mn else 0) else mat_at M r c))"
  from t have ts: "sq n t"
    and te: "\<And>r c. r < n \<Longrightarrow> c < n \<Longrightarrow> mat_at t r c =
          (if c < k then mat_at M r c + (if column_is_covered cv n c then mn else 0) else mat_at M r c)"
    by blast+
  let ?u = "fold (\<lambda>row nx. mat_set nx row k (mat_at nx row k + mn)) [0 ..< n] t"
  from fold_col_update[OF ts k, of "\<lambda>x. x + mn"]
  have us: "sq n ?u"
    and ue: "\<And>r c. mat_at ?u r c = (if c = k \<and> r < n then mat_at t r c + mn else mat_at t r c)"
    by simp_all
  show "sq n (if column_is_covered cv n k then ?u else t) \<and>
        (\<forall>r < n. \<forall>c < n. mat_at (if column_is_covered cv n k then ?u else t) r c =
          (if c < Suc k then mat_at M r c + (if column_is_covered cv n c then mn else 0)
           else mat_at M r c))"
  proof (cases "column_is_covered cv n k")
    case True
    then show ?thesis using us by (auto simp add: ue te less_Suc_eq)
  next
    case False
    then show ?thesis using ts by (auto simp add: te less_Suc_eq)
  qed
qed
  then show ?thesis by simp
qed

lemma int_range_iff:
  assumes "sq n m"
  shows "int_range m = (\<forall>r < n. \<forall>c < n. INT_MIN \<le> mat_at m r c \<and> mat_at m r c \<le> INT_MAX)"
  using assms unfolding int_range_def sq_def mat_at_def
  by (auto simp add: list_all_length)

subsection \<open>Counting the covering lines\<close>

lemma length_filter_upt_card: "length (filter P [0 ..< n]) = card {i. i < n \<and> P i}"
proof -
  have "length (filter P [0 ..< n]) = card ({x. P x} \<inter> set [0 ..< n])"
    by (rule distinct_length_filter) simp
  moreover have "{x. P x} \<inter> set [0 ..< n] = {i. i < n \<and> P i}" by auto
  ultimately show ?thesis by simp
qed

lemma count_covered_rows_card:
  "count_covered_rows cv n = card {r. r < n \<and> (\<forall>c < n. mat_at cv r c)}"
  unfolding count_covered_rows_def length_filter_upt_all by (rule length_filter_upt_card)

lemma count_covered_columns_card:
  "count_covered_columns cv n = card {c. c < n \<and> (\<forall>r < n. mat_at cv r c)}"
  unfolding count_covered_columns_def length_filter_upt_all by (rule length_filter_upt_card)

lemma cover_inv_cell:
  "cover_inv n st R cv \<Longrightarrow> r < n \<Longrightarrow> c < n \<Longrightarrow> mat_at cv r c = (r \<in> R \<or> c \<in> ccols n st R)"
  by (simp add: cover_inv_at ccols_def)

lemma ccols_bound: "ccols n st R \<subseteq> {..<n}"
  by (auto simp add: ccols_def)

lemma finite_ccols: "finite (ccols n st R)"
  using ccols_bound by (rule finite_subset) simp

lemma lines_le_stars:
  assumes inv: "star_inv n M st" and sub: "R \<subseteq> {..<n}"
    and rows: "\<forall>r \<in> R. \<exists>c < n. mat_at st r c"
  shows "card R + card (ccols n st R) \<le> card (srows n st)"
proof -
  let ?C = "ccols n st R" and ?S = "srows n st"
  define g where "g c = (SOME r. r < n \<and> mat_at st r c \<and> r \<notin> R)" for c
  have g: "g c < n \<and> mat_at st (g c) c \<and> g c \<notin> R" if "c \<in> ?C" for c
  proof -
    from that have "\<exists>r. r < n \<and> mat_at st r c \<and> r \<notin> R" by (auto simp add: ccols_def)
    then show ?thesis unfolding g_def by (rule someI_ex)
  qed
  have inj: "inj_on g ?C"
  proof (rule inj_onI)
    fix c c' assume a: "c \<in> ?C" "c' \<in> ?C" "g c = g c'"
    have c: "c < n" "c' < n" using a(1,2) by (auto simp add: ccols_def)
    from g[OF a(1)] g[OF a(2)] a(3)
    have "g c < n" "mat_at st (g c) c" "mat_at st (g c) c'" by simp_all
    then show "c = c'" using star_inv_row[OF inv _ c] by blast
  qed
  have img: "g ` ?C \<subseteq> ?S - R"
  proof
    fix r assume "r \<in> g ` ?C"
    then obtain c where c: "c \<in> ?C" "r = g c" by blast
    have "c < n" using c(1) by (auto simp add: ccols_def)
    then show "r \<in> ?S - R" using g[OF c(1)] c(2) by (auto simp add: srows_def)
  qed
  have fin: "finite R" using sub by (rule finite_subset) simp
  have RS: "R \<subseteq> ?S" using sub rows by (auto simp add: srows_def)
  have "card ?C = card (g ` ?C)" using inj by (simp add: card_image)
  also have "\<dots> \<le> card (?S - R)" using img by (intro card_mono) (simp_all add: finite_srows)
  also have "\<dots> = card ?S - card R" using fin RS by (simp add: card_Diff_subset)
  finally have "card ?C \<le> card ?S - card R" .
  moreover have "card R \<le> card ?S" using RS by (intro card_mono finite_srows)
  ultimately show ?thesis by simp
qed

lemma all_rows_starred:
  assumes inv: "star_inv n M st" and sub: "R \<subseteq> {..<n}"
    and rows: "\<forall>r \<in> R. \<exists>c < n. mat_at st r c"
    and big: "n \<le> card R + card (ccols n st R)"
    and r: "r < n"
  shows "\<exists>c < n. mat_at st r c"
proof -
  have "n \<le> card (srows n st)" using lines_le_stars[OF inv sub rows] big by simp
  then have "card (srows n st) = card {..<n}" using card_srows_le[of n st] by simp
  then have "srows n st = {..<n}"
    using card_subset_eq[OF _ srows_bound, of n st] by simp
  then have "r \<in> srows n st" using r by simp
  then show ?thesis by (simp add: srows_def)
qed
lemma card_upt_all:
  assumes "card {i. i < n \<and> P i} = n" and "i < n"
  shows "P i"
proof -
  have "{i. i < n \<and> P i} \<subseteq> {..<n}" by auto
  moreover have "card {i. i < n \<and> P i} = card {..<n}" using assms(1) by simp
  ultimately have "{i. i < n \<and> P i} = {..<n}" by (intro card_subset_eq) simp_all
  then show ?thesis using assms(2) by auto
qed

lemma card_upt_not_all:
  assumes "card {i. i < n \<and> P i} \<noteq> n"
  shows "\<exists>i < n. \<not> P i"
proof (rule ccontr)
  assume "\<not> (\<exists>i < n. \<not> P i)"
  then have "{i. i < n \<and> P i} = {..<n}" by auto
  then show False using assms by simp
qed

lemma lines_few:
  assumes cv: "cover_inv n st R cv"
    and ne: "count_covered_rows cv n \<noteq> n \<or> count_covered_columns cv n \<noteq> n"
  shows "count_covered_rows cv n = card R"
    and "count_covered_columns cv n = card (ccols n st R)"
    and "\<And>r. r < n \<Longrightarrow> row_is_covered cv n r = (r \<in> R)"
    and "\<And>c. c < n \<Longrightarrow> column_is_covered cv n c = (c \<in> ccols n st R)"
proof -
  have "\<exists>r < n. \<exists>c < n. \<not> mat_at cv r c"
    using ne card_upt_not_all[of n "\<lambda>r. \<forall>c < n. mat_at cv r c"]
      card_upt_not_all[of n "\<lambda>c. \<forall>r < n. mat_at cv r c"]
    by (auto simp add: count_covered_rows_card count_covered_columns_card)
  then obtain r0 c0 where u: "r0 < n" "c0 < n" "\<not> mat_at cv r0 c0" by blast
  from u cover_inv_cell[OF cv u(1,2)] have nr: "r0 \<notin> R" and ncl: "c0 \<notin> ccols n st R"
    by simp_all
  have rowf: "(\<forall>c < n. mat_at cv r c) = (r \<in> R)" if r: "r < n" for r
  proof
    assume "\<forall>c < n. mat_at cv r c"
    then have "mat_at cv r c0" using u(2) by simp
    then show "r \<in> R" using cover_inv_cell[OF cv r u(2)] ncl by simp
  next
    assume "r \<in> R"
    then show "\<forall>c < n. mat_at cv r c" using cover_inv_cell[OF cv r] by simp
  qed
  have colf: "(\<forall>r < n. mat_at cv r c) = (c \<in> ccols n st R)" if c: "c < n" for c
  proof
    assume "\<forall>r < n. mat_at cv r c"
    then have "mat_at cv r0 c" using u(1) by simp
    then show "c \<in> ccols n st R" using cover_inv_cell[OF cv u(1) c] nr by simp
  next
    assume "c \<in> ccols n st R"
    then show "\<forall>r < n. mat_at cv r c" using cover_inv_cell[OF cv _ c] by simp
  qed
  show "\<And>r. r < n \<Longrightarrow> row_is_covered cv n r = (r \<in> R)"
    by (simp add: row_is_covered_iff rowf)
  show "\<And>c. c < n \<Longrightarrow> column_is_covered cv n c = (c \<in> ccols n st R)"
    by (simp add: column_is_covered_iff colf)
  have "{r. r < n \<and> (\<forall>c < n. mat_at cv r c)} = R"
    using rowf cover_inv_sub[OF cv] by auto
  then show "count_covered_rows cv n = card R" by (simp add: count_covered_rows_card)
  have "{c. c < n \<and> (\<forall>r < n. mat_at cv r c)} = ccols n st R"
    using colf ccols_bound[of n st R] by auto
  then show "count_covered_columns cv n = card (ccols n st R)"
    by (simp add: count_covered_columns_card)
qed

lemma lines_enough:
  assumes inv: "star_inv n M st" and cv: "cover_inv n st R cv"
    and rows: "\<forall>r \<in> R. \<exists>c < n. mat_at st r c"
    and big: "count_covered_rows cv n = n \<or> count_covered_columns cv n = n \<or>
              n \<le> count_covered_rows cv n + count_covered_columns cv n"
    and r: "r < n"
  shows "\<exists>c < n. mat_at st r c"
proof (cases "\<exists>i < n. \<exists>j < n. \<not> mat_at cv i j")
  case False
  show ?thesis
  proof (cases "r \<in> R")
    case True
    then show ?thesis using rows by simp
  next
    case nr: False
    have "c \<in> ccols n st R" if c: "c < n" for c
    proof -
      have "mat_at cv r c" using False r c by blast
      then show ?thesis using cover_inv_cell[OF cv r c] nr by simp
    qed
    then have "ccols n st R = {..<n}" using ccols_bound[of n st R] by auto
    then have "n \<le> card R + card (ccols n st R)" by simp
    from all_rows_starred[OF inv cover_inv_sub[OF cv] rows this r] show ?thesis .
  qed
next
  case True
  then obtain i j where u: "i < n" "j < n" "\<not> mat_at cv i j" by blast
  have a: "count_covered_rows cv n \<noteq> n"
  proof
    assume "count_covered_rows cv n = n"
    then have "card {r. r < n \<and> (\<forall>c < n. mat_at cv r c)} = n"
      by (simp only: count_covered_rows_card)
    from card_upt_all[OF this u(1)] u(2,3) show False by simp
  qed
  have b: "count_covered_columns cv n \<noteq> n"
  proof
    assume "count_covered_columns cv n = n"
    then have "card {c. c < n \<and> (\<forall>r < n. mat_at cv r c)} = n"
      by (simp only: count_covered_columns_card)
    from card_upt_all[OF this u(2)] u(1,3) show False by simp
  qed
  have "count_covered_rows cv n = card R" "count_covered_columns cv n = card (ccols n st R)"
    using lines_few(1,2)[OF cv] a by simp_all
  then have "n \<le> card R + card (ccols n st R)" using big a b by simp
  from all_rows_starred[OF inv cover_inv_sub[OF cv] rows this r] show ?thesis .
qed
subsection \<open>Reading the assignment off the stars\<close>

lemma filter_upt_single:
  "k < n \<Longrightarrow> Q k \<Longrightarrow> (\<forall>j < n. Q j \<longrightarrow> j = k) \<Longrightarrow> filter Q [0 ..< n] = [k]"
proof (induction n)
  case 0
  then show ?case by simp
next
  case (Suc n)
  show ?case
  proof (cases "k = n")
    case True
    have "\<not> Q j" if "j < n" for j
    proof
      assume "Q j"
      moreover have "j < Suc n" using that by simp
      ultimately have "j = k" using Suc.prems(3) by blast
      then show False using True that by simp
    qed
    then have "\<forall>j \<in> set [0 ..< n]. \<not> Q j" by simp
    then have "filter Q [0 ..< n] = []" by (simp only: filter_False)
    then show ?thesis using True Suc.prems(2) by simp
  next
    case False
    then have k: "k < n" using Suc.prems(1) by simp
    have "\<not> Q n"
    proof
      assume "Q n"
      then have "n = k" using Suc.prems(3) by blast
      then show False using False by simp
    qed
    moreover have "filter Q [0 ..< n] = [k]"
      using Suc.IH[OF k Suc.prems(2)] Suc.prems(3) by simp
    ultimately show ?thesis by simp
  qed
qed

lemma stars_list:
  assumes inv: "star_inv n M st" and all: "\<And>r. r < n \<Longrightarrow> \<exists>c < n. mat_at st r c"
  shows "\<exists>f. filter (\<lambda>(row, col). mat_at st row col) (List.product [0 ..< n] [0 ..< n])
              = map (\<lambda>r. (r, f r)) [0 ..< n] \<and>
             (\<forall>r < n. f r < n \<and> mat_at st r (f r)) \<and> inj_on f {..<n}"
proof -
  define f where "f r = (SOME c. c < n \<and> mat_at st r c)" for r
  have f: "f r < n \<and> mat_at st r (f r)" if "r < n" for r
  proof -
    from all[OF that] have "\<exists>c. c < n \<and> mat_at st r c" by blast
    then show ?thesis unfolding f_def by (rule someI_ex)
  qed
  have row: "filter (\<lambda>c. mat_at st r c) [0 ..< n] = [f r]" if r: "r < n" for r
  proof (rule filter_upt_single)
    show "f r < n" "mat_at st r (f r)" using f[OF r] by simp_all
    show "\<forall>j < n. mat_at st r j \<longrightarrow> j = f r"
      using star_inv_row[OF inv r _ _ _ _] f[OF r] by blast
  qed
  have "filter (\<lambda>(row, col). mat_at st row col) (List.product [0 ..< n] [0 ..< n])
        = concat (map (\<lambda>r. map (Pair r) (filter (\<lambda>c. mat_at st r c) [0 ..< n])) [0 ..< n])"
    by (simp add: product_concat_map filter_concat filter_map comp_def)
  also have "\<dots> = concat (map (\<lambda>r. [(r, f r)]) [0 ..< n])"
    using row by (intro arg_cong[where f = concat] map_cong) simp_all
  also have "\<dots> = map (\<lambda>r. (r, f r)) [0 ..< n]"
    by (induction n) simp_all
  finally have e: "filter (\<lambda>(row, col). mat_at st row col) (List.product [0 ..< n] [0 ..< n])
        = map (\<lambda>r. (r, f r)) [0 ..< n]" .
  have "inj_on f {..<n}"
  proof (rule inj_onI)
    fix x y assume a: "x \<in> {..<n}" "y \<in> {..<n}" "f x = f y"
    then have "x < n" "y < n" by simp_all
    from f[OF this(1)] f[OF this(2)] a(3)
    have "f x < n" "mat_at st x (f x)" "mat_at st y (f x)" by simp_all
    from star_inv_col[OF inv this(1) \<open>x < n\<close> \<open>y < n\<close> this(2,3)] show "x = y" .
  qed
  then show ?thesis using e f by blast
qed

subsection \<open>The sum of the matrix\<close>

lemma sum_indicator:
  fixes n :: nat
  assumes "A \<subseteq> {..<n}"
  shows "(\<Sum>i < n. if i \<in> A then x else (0::int)) = x * int (card A)"
proof -
  have "(\<Sum>i < n. if i \<in> A then x else 0) = (\<Sum>i \<in> {..<n} \<inter> A. x)"
    by (rule sum.inter_restrict[symmetric]) simp
  also have "{..<n} \<inter> A = A" using assms by auto
  finally show ?thesis by simp
qed

lemma sum_indicator_not:
  fixes n :: nat
  assumes "A \<subseteq> {..<n}"
  shows "(\<Sum>i < n. if i \<in> A then (0::int) else x) = x * int (n - card A)"
proof -
  have "(\<Sum>i < n. if i \<in> A then 0 else x) = (\<Sum>i < n. if i \<in> {..<n} - A then x else 0)"
    by (intro sum.cong) auto
  also have "\<dots> = x * int (card ({..<n} - A))"
    by (rule sum_indicator) auto
  also have "card ({..<n} - A) = n - card A"
    using assms by (simp add: card_Diff_subset finite_subset)
  finally show ?thesis .
qed

lemma msum_shift:
  assumes "\<And>r c. r < n \<Longrightarrow> c < n \<Longrightarrow> mat_at N r c = mat_at M r c - a r + b c"
  shows "msum n N = msum n M - int n * (\<Sum>r < n. a r) + int n * (\<Sum>c < n. b c)"
proof -
  have "msum n N = (\<Sum>r < n. \<Sum>c < n. mat_at M r c - a r + b c)"
    unfolding msum_def using assms by (intro sum.cong) simp_all
  also have "\<dots> = (\<Sum>r < n. (\<Sum>c < n. mat_at M r c) - int n * a r + (\<Sum>c < n. b c))"
    by (simp add: sum.distrib sum_subtractf)
  also have "\<dots> = msum n M - int n * (\<Sum>r < n. a r) + int n * (\<Sum>c < n. b c)"
    by (simp add: msum_def sum.distrib sum_subtractf sum_distrib_left)
  finally show ?thesis .
qed

lemma msum_nonneg:
  assumes "\<And>r c. r < n \<Longrightarrow> c < n \<Longrightarrow> 0 \<le> mat_at M r c"
  shows "0 \<le> msum n M"
  unfolding msum_def using assms by (intro sum_nonneg) simp
lemma step4:
  assumes red: "reduced n C0 M" and bd: "in_bound n M"
    and cv: "cover_inv n st R cv"
    and nz: "\<And>r c. r < n \<Longrightarrow> c < n \<Longrightarrow> mat_at M r c = 0 \<Longrightarrow> mat_at cv r c"
    and few: "card R + card (ccols n st R) < n"
    and rc: "\<And>r. r < n \<Longrightarrow> row_is_covered cv n r = (r \<in> R)"
    and cc: "\<And>c. c < n \<Longrightarrow> column_is_covered cv n c = (c \<in> ccols n st R)"
    and mn: "mn = min_uncovered_value M cv n"
    and n1: "next1 = subtract_uncovered_rows M cv n mn"
    and n2: "next2 = add_covered_columns next1 cv n mn"
  shows "int_range next1 \<and> int_range next2 \<and> reduced n C0 next2 \<and> in_bound n next2 \<and>
         msum n next2 < msum n M"
proof -
  let ?C = "ccols n st R"
  from red have sqM: "sq n M" and nn: "\<And>r c. r < n \<Longrightarrow> c < n \<Longrightarrow> 0 \<le> mat_at M r c"
    by (simp_all add: reduced_def)
  from red obtain u v where
    pot: "\<And>r c. r < n \<Longrightarrow> c < n \<Longrightarrow> mat_at M r c = mat_at C0 r c - u r - v c"
    unfolding reduced_def by blast
  from bd obtain K where K: "\<And>r c. r < n \<Longrightarrow> c < n \<Longrightarrow> mat_at M r c \<le> K"
    and Kb: "int n * K + msum n M \<le> int n * INT_MAX"
    unfolding in_bound_def by blast
  have npos: "0 < n" using few by simp
  from min_uncovered_value_spec[of M cv n]
  have mmax: "mn \<le> INT_MAX"
    and mle: "\<And>r c. r < n \<Longrightarrow> c < n \<Longrightarrow> \<not> mat_at cv r c \<Longrightarrow> mn \<le> mat_at M r c"
    and mwit: "mn = INT_MAX \<or> (\<exists>r < n. \<exists>c < n. \<not> mat_at cv r c \<and> mn = mat_at M r c)"
    unfolding mn by simp_all
  have mpos: "0 < mn"
    using mwit
  proof
    assume "mn = INT_MAX"
    then show ?thesis by (simp add: INT_MAX_def)
  next
    assume "\<exists>r < n. \<exists>c < n. \<not> mat_at cv r c \<and> mn = mat_at M r c"
    then obtain r c where a: "r < n" "c < n" "\<not> mat_at cv r c" "mn = mat_at M r c" by blast
    have "mat_at M r c \<noteq> 0" using nz[OF a(1,2)] a(3) by auto
    then show ?thesis using nn[OF a(1,2)] a(4) by simp
  qed
  from subtract_uncovered_rows_spec[OF sqM, of cv mn]
  have sq1: "sq n next1"
    and e1: "\<And>r c. r < n \<Longrightarrow> c < n \<Longrightarrow>
               mat_at next1 r c = mat_at M r c - (if r \<in> R then 0 else mn)"
    unfolding n1 using rc by simp_all
  from add_covered_columns_spec[OF sq1, of cv mn]
  have sq2: "sq n next2"
    and e2: "\<And>r c. r < n \<Longrightarrow> c < n \<Longrightarrow>
               mat_at next2 r c = mat_at M r c - (if r \<in> R then 0 else mn) + (if c \<in> ?C then mn else 0)"
    unfolding n2 using cc e1 by simp_all
  have nn2: "0 \<le> mat_at next2 r c" if r: "r < n" and c: "c < n" for r c
  proof (cases "r \<in> R \<or> c \<in> ?C")
    case True
    then show ?thesis using e2[OF r c] nn[OF r c] mpos by auto
  next
    case False
    then have "\<not> mat_at cv r c" using cover_inv_cell[OF cv r c] by simp
    from mle[OF r c this] show ?thesis using e2[OF r c] False by simp
  qed
  have subR: "R \<subseteq> {..<n}" by (rule cover_inv_sub[OF cv])
  have sum2: "msum n next2 = msum n M - int n * (mn * int (n - card R)) + int n * (mn * int (card ?C))"
    using msum_shift[of n next2 M "\<lambda>r. if r \<in> R then 0 else mn" "\<lambda>c. if c \<in> ?C then mn else 0"]
      e2 sum_indicator_not[OF subR, where x = mn]
      sum_indicator[OF ccols_bound[of n st R], where x = mn]
    by simp
  have cnt: "int (n - card R) = int (card ?C) + int (n - card R - card ?C)" using few by simp
  have gap: "1 \<le> int (n - card R - card ?C)" using few by simp
  have sum3: "msum n next2 = msum n M - int n * mn * int (n - card R - card ?C)"
    unfolding sum2 cnt by (simp add: algebra_simps)
  have "int n * mn * 1 \<le> int n * mn * int (n - card R - card ?C)"
    using gap mpos by (intro mult_left_mono) simp_all
  then have drop: "msum n next2 + int n * mn \<le> msum n M" using sum3 by simp
  have less: "msum n next2 < msum n M"
  proof -
    have "0 < int n * mn" using npos mpos by simp
    then show ?thesis using drop by simp
  qed
  have s2: "0 \<le> msum n next2" using nn2 by (rule msum_nonneg)
  have K2: "mat_at next2 r c \<le> K + mn" if "r < n" "c < n" for r c
    using e2[OF that] K[OF that] mpos by auto
  have Kb2: "int n * (K + mn) + msum n next2 \<le> int n * INT_MAX"
  proof -
    have "int n * (K + mn) + msum n next2 = int n * K + (msum n next2 + int n * mn)"
      by (simp add: algebra_simps)
    also have "\<dots> \<le> int n * K + msum n M" using drop by simp
    finally show ?thesis using Kb by simp
  qed
  have Kmax: "K + mn \<le> INT_MAX"
  proof -
    have "int n * (K + mn) \<le> int n * INT_MAX" using Kb2 s2 by simp
    then show ?thesis using npos by simp
  qed
  have Kle: "K \<le> INT_MAX" using Kmax mpos by simp
  have r1: "int_range next1"
    unfolding int_range_iff[OF sq1]
  proof (intro allI impI)
    fix r c assume a: "r < n" "c < n"
    show "INT_MIN \<le> mat_at next1 r c \<and> mat_at next1 r c \<le> INT_MAX"
      using e1[OF a] nn[OF a] K[OF a] Kle mmax mpos by (auto simp add: INT_MIN_def INT_MAX_def)
  qed
  have r2: "int_range next2"
    unfolding int_range_iff[OF sq2]
  proof (intro allI impI)
    fix r c assume a: "r < n" "c < n"
    show "INT_MIN \<le> mat_at next2 r c \<and> mat_at next2 r c \<le> INT_MAX"
      using nn2[OF a] K2[OF a] Kmax by (simp add: INT_MIN_def)
  qed
  have pot2: "mat_at next2 r c = mat_at C0 r c - (u r + (if r \<in> R then 0 else mn))
                - (v c - (if c \<in> ?C then mn else 0))" if "r < n" "c < n" for r c
    using e2[OF that] pot[OF that] by simp
  have "\<forall>r < n. \<forall>c < n. mat_at next2 r c =
           mat_at C0 r c - (\<lambda>r. u r + (if r \<in> R then 0 else mn)) r
             - (\<lambda>c. v c - (if c \<in> ?C then mn else 0)) c"
    using pot2 by simp
  then have "\<exists>u v. \<forall>r < n. \<forall>c < n. mat_at next2 r c = mat_at C0 r c - u r - v c"
    by (intro exI)
  then have red2: "reduced n C0 next2"
    unfolding reduced_def using sq2 nn2 by simp
  have "(\<forall>r < n. \<forall>c < n. mat_at next2 r c \<le> K + mn) \<and>
        int n * (K + mn) + msum n next2 \<le> int n * INT_MAX"
    using K2 Kb2 by simp
  then have bd2: "in_bound n next2"
    unfolding in_bound_def by (intro exI)
  show ?thesis using r1 r2 red2 bd2 less by simp
qed
subsection \<open>One call of \<open>min_lines_to_cover_zeroes\<close>\<close>

lemma min_lines_unfold:
  assumes cl: "cover_loop M n (star_zeroes M n (mat_const n False))
               (cover_starred_columns (star_zeroes M n (mat_const n False)) n (mat_const n False))
               (mat_const n False) = Some (st, cv)"
    and ret: "ret = (if count_covered_rows cv n = n \<or> count_covered_columns cv n = n then n
                     else count_covered_rows cv n + count_covered_columns cv n)"
    and n1: "next1 = subtract_uncovered_rows M cv n (min_uncovered_value M cv n)"
    and n2: "next2 = add_covered_columns next1 cv n (min_uncovered_value M cv n)"
    and a: "a = filter (\<lambda>(row, col). mat_at st row col) (List.product [0 ..< n] [0 ..< n])"
  shows "min_lines_to_cover_zeroes M nx0 a0 n =
     (if ret < n
      then (if int_range next1 \<and> int_range next2 then Some (ret, next2, a0) else None)
      else (if length a = n then Some (ret, nx0, a) else None))"
  unfolding min_lines_to_cover_zeroes_def Let_def cl ret n1 n2 a
  by (simp add: c_assert_def)

lemma min_lines_result:
  assumes red: "reduced n C0 M" and bd: "in_bound n M"
  shows "\<exists>ret nx a. min_lines_to_cover_zeroes M nx0 a0 n = Some (ret, nx, a) \<and>
     (if ret < n then reduced n C0 nx \<and> in_bound n nx \<and> msum n nx < msum n M
      else (\<exists>f. a = map (\<lambda>r. (r, f r)) [0 ..< n] \<and>
                (\<forall>r < n. f r < n \<and> mat_at M r (f r) = 0) \<and> inj_on f {..<n}))"
proof -
  let ?st0 = "star_zeroes M n (mat_const n False)"
  have i0: "star_inv n M ?st0" using star_zeroes_inv[OF star_inv_const] by simp
  from cover_loop_total[OF i0 cover_inv_initial prime_inv_initial[where rank = "\<lambda>r. 0"]]
  obtain st cv R where
    cl: "cover_loop M n ?st0 (cover_starred_columns ?st0 n (mat_const n False)) (mat_const n False)
           = Some (st, cv)"
    and inv: "star_inv n M st" and cvi: "cover_inv n st R cv"
    and rows: "\<forall>r \<in> R. \<exists>c < n. mat_at st r c"
    and nz: "\<forall>r < n. \<forall>c < n. mat_at M r c = 0 \<longrightarrow> mat_at cv r c" by blast
  define ncr where "ncr = count_covered_rows cv n"
  define ncc where "ncc = count_covered_columns cv n"
  define ret where "ret = (if ncr = n \<or> ncc = n then n else ncr + ncc)"
  define mn where "mn = min_uncovered_value M cv n"
  define next1 where "next1 = subtract_uncovered_rows M cv n mn"
  define next2 where "next2 = add_covered_columns next1 cv n mn"
  define a where "a = filter (\<lambda>(row, col). mat_at st row col) (List.product [0 ..< n] [0 ..< n])"
  have e: "min_lines_to_cover_zeroes M nx0 a0 n =
     (if ret < n
      then (if int_range next1 \<and> int_range next2 then Some (ret, next2, a0) else None)
      else (if length a = n then Some (ret, nx0, a) else None))"
    by (rule min_lines_unfold[OF cl])
       (simp_all only: ret_def ncr_def ncc_def next1_def next2_def mn_def a_def)
  show ?thesis
  proof (cases "ret < n")
    case True
    have ne: "ncr \<noteq> n" "ncc \<noteq> n"
    proof -
      show "ncr \<noteq> n" using True unfolding ret_def by (cases "ncr = n") simp_all
      show "ncc \<noteq> n" using True unfolding ret_def by (cases "ncc = n") simp_all
    qed
    then have rv: "ret = ncr + ncc" by (simp add: ret_def)
    have ne': "count_covered_rows cv n \<noteq> n \<or> count_covered_columns cv n \<noteq> n"
      using ne(1) by (simp add: ncr_def)
    note lf = lines_few[OF cvi ne']
    have few: "card R + card (ccols n st R) < n"
      using True rv lf(1,2) by (simp add: ncr_def ncc_def)
    have s: "int_range next1 \<and> int_range next2 \<and> reduced n C0 next2 \<and> in_bound n next2 \<and>
             msum n next2 < msum n M"
    proof (rule step4[OF red bd cvi _ few _ _ mn_def next1_def next2_def])
      show "\<And>r c. r < n \<Longrightarrow> c < n \<Longrightarrow> mat_at M r c = 0 \<Longrightarrow> mat_at cv r c"
        using nz by simp
      show "\<And>r. r < n \<Longrightarrow> row_is_covered cv n r = (r \<in> R)" by (rule lf(3))
      show "\<And>c. c < n \<Longrightarrow> column_is_covered cv n c = (c \<in> ccols n st R)" by (rule lf(4))
    qed
    note e1 = e[unfolded if_P[OF True]
        if_P[OF conjI[OF s[THEN conjunct1] s[THEN conjunct2, THEN conjunct1]]]]
    have c: "if ret < n then reduced n C0 next2 \<and> in_bound n next2 \<and> msum n next2 < msum n M
         else (\<exists>f. a0 = map (\<lambda>r. (r, f r)) [0 ..< n] \<and>
                (\<forall>r < n. f r < n \<and> mat_at M r (f r) = 0) \<and> inj_on f {..<n})"
      unfolding if_P[OF True] by (rule s[THEN conjunct2, THEN conjunct2])
    show ?thesis
      apply (intro exI conjI)
       apply (rule e1)
      apply (rule c)
      done
  next
    case False
    have big: "count_covered_rows cv n = n \<or> count_covered_columns cv n = n \<or>
               n \<le> count_covered_rows cv n + count_covered_columns cv n"
      using False unfolding ret_def ncr_def ncc_def by (auto split: if_splits)
    have all: "\<exists>c < n. mat_at st r c" if "r < n" for r
      by (rule lines_enough[OF inv cvi rows big that])
    from stars_list[OF inv all] obtain f where
      ef: "a = map (\<lambda>r. (r, f r)) [0 ..< n]"
      and f: "\<forall>r < n. f r < n \<and> mat_at st r (f r)" and inj: "inj_on f {..<n}"
      unfolding a_def by auto
    have z: "\<forall>r < n. f r < n \<and> mat_at M r (f r) = 0"
      using f star_inv_zero[OF inv] by simp
    have len: "length a = n" by (simp add: ef)
    note e1 = e[unfolded if_not_P[OF False] if_P[OF len]]
    have ex: "\<exists>f. a = map (\<lambda>r. (r, f r)) [0 ..< n] \<and>
                (\<forall>r < n. f r < n \<and> mat_at M r (f r) = 0) \<and> inj_on f {..<n}"
      apply (rule exI[of _ f])
      apply (intro conjI)
        apply (rule ef)
       apply (rule z)
      apply (rule inj)
      done
    have c: "if ret < n then reduced n C0 nx0 \<and> in_bound n nx0 \<and> msum n nx0 < msum n M
         else (\<exists>f. a = map (\<lambda>r. (r, f r)) [0 ..< n] \<and>
                (\<forall>r < n. f r < n \<and> mat_at M r (f r) = 0) \<and> inj_on f {..<n})"
      unfolding if_not_P[OF False] by (rule ex)
    show ?thesis
      apply (intro exI conjI)
       apply (rule e1)
      apply (rule c)
      done
  qed
qed
subsection \<open>The main loop and the optimality of its result\<close>

lemma zero_assignment_optimal:
  fixes n :: nat
  assumes red: "reduced n C0 M"
    and f: "\<And>r. r < n \<Longrightarrow> f r < n \<and> mat_at M r (f r) = 0"
    and inj: "inj_on f {..<n}"
    and g: "bij_betw g {..<n} {..<n}"
  shows "(\<Sum>r < n. mat_at C0 r (f r)) \<le> (\<Sum>r < n. mat_at C0 r (g r))"
proof -
  from red have nn: "\<And>r c. r < n \<Longrightarrow> c < n \<Longrightarrow> 0 \<le> mat_at M r c"
    by (simp add: reduced_def)
  from red obtain u v where
    pot: "\<And>r c. r < n \<Longrightarrow> c < n \<Longrightarrow> mat_at M r c = mat_at C0 r c - u r - v c"
    unfolding reduced_def by auto
  have fi: "f ` {..<n} \<subseteq> {..<n}" using f by auto
  have "f ` {..<n} = {..<n}" by (rule endo_inj_surj[OF _ fi inj]) simp
  then have fb: "bij_betw f {..<n} {..<n}" using inj by (simp add: bij_betw_def)
  have gr: "g r < n" if "r < n" for r using g that by (auto simp add: bij_betw_def)
  have "(\<Sum>r < n. mat_at C0 r (f r)) = (\<Sum>r < n. u r + v (f r))"
  proof (rule sum.cong)
    fix r assume "r \<in> {..<n}"
    then have r: "r < n" by simp
    from f[OF r] pot[OF r, of "f r"] show "mat_at C0 r (f r) = u r + v (f r)" by simp
  qed simp
  also have "\<dots> = (\<Sum>r < n. u r) + (\<Sum>r < n. v (f r))" by (simp add: sum.distrib)
  also have "(\<Sum>r < n. v (f r)) = (\<Sum>c < n. v c)" by (rule sum.reindex_bij_betw[OF fb])
  also have "(\<Sum>c < n. v c) = (\<Sum>r < n. v (g r))" by (rule sum.reindex_bij_betw[OF g, symmetric])
  also have "(\<Sum>r < n. u r) + (\<Sum>r < n. v (g r)) = (\<Sum>r < n. u r + v (g r))"
    by (simp add: sum.distrib)
  also have "\<dots> \<le> (\<Sum>r < n. mat_at C0 r (g r))"
  proof (rule sum_mono)
    fix r assume "r \<in> {..<n}"
    then have r: "r < n" by simp
    from nn[OF r gr[OF r]] pot[OF r gr[OF r]] show "u r + v (g r) \<le> mat_at C0 r (g r)" by simp
  qed
  finally show ?thesis .
qed

lemma assignment_loop_total:
  assumes "reduced n C0 M" "in_bound n M"
  shows "\<exists>f. assignment_loop M nx a0 n = Some (map (\<lambda>r. (r, f r)) [0 ..< n]) \<and>
           (\<forall>r < n. f r < n) \<and> inj_on f {..<n} \<and>
           (\<forall>g. bij_betw g {..<n} {..<n} \<longrightarrow>
                (\<Sum>r < n. mat_at C0 r (f r)) \<le> (\<Sum>r < n. mat_at C0 r (g r)))"
  using assms
proof (induction "nat (msum n M)" arbitrary: M nx a0 rule: less_induct)
  case less
  note red = less.prems(1) and bd = less.prems(2)
  from min_lines_result[OF red bd, of nx a0] obtain ret nx1 a1 where
    ml: "min_lines_to_cover_zeroes M nx a0 n = Some (ret, nx1, a1)"
    and res: "if ret < n then reduced n C0 nx1 \<and> in_bound n nx1 \<and> msum n nx1 < msum n M
      else (\<exists>f. a1 = map (\<lambda>r. (r, f r)) [0 ..< n] \<and>
                (\<forall>r < n. f r < n \<and> mat_at M r (f r) = 0) \<and> inj_on f {..<n})"
    by auto
  show ?case
  proof (cases "ret < n")
    case True
    note r = res[unfolded if_P[OF True]]
    have red1: "reduced n C0 nx1" and bd1: "in_bound n nx1" and lt: "msum n nx1 < msum n M"
      using r by simp_all
    have "0 \<le> msum n nx1" using red1 by (intro msum_nonneg) (simp add: reduced_def)
    then have "nat (msum n nx1) < nat (msum n M)" using lt by simp
    from less.hyps[OF this red1 bd1, of nx1 a1] obtain f where
      f: "assignment_loop nx1 nx1 a1 n = Some (map (\<lambda>r. (r, f r)) [0 ..< n])"
        "\<forall>r < n. f r < n" "inj_on f {..<n}"
        "\<forall>g. bij_betw g {..<n} {..<n} \<longrightarrow>
                (\<Sum>r < n. mat_at C0 r (f r)) \<le> (\<Sum>r < n. mat_at C0 r (g r))" by auto
    have "assignment_loop M nx a0 n = Some (map (\<lambda>r. (r, f r)) [0 ..< n])"
      by (subst assignment_loop.simps) (simp add: ml True f(1))
    then show ?thesis using f(2,3,4) by (intro exI[of _ f]) simp
  next
    case False
    note r = res[unfolded if_not_P[OF False]]
    then obtain f where a1: "a1 = map (\<lambda>r. (r, f r)) [0 ..< n]"
      and f: "\<forall>r < n. f r < n \<and> mat_at M r (f r) = 0" and inj: "inj_on f {..<n}" by auto
    have e: "assignment_loop M nx a0 n = Some (map (\<lambda>r. (r, f r)) [0 ..< n])"
      by (subst assignment_loop.simps) (simp add: ml False a1)
    have opt: "(\<Sum>r < n. mat_at C0 r (f r)) \<le> (\<Sum>r < n. mat_at C0 r (g r))"
      if "bij_betw g {..<n} {..<n}" for g
    proof (rule zero_assignment_optimal[OF red _ inj that])
      show "\<And>r. r < n \<Longrightarrow> f r < n \<and> mat_at M r (f r) = 0" using f by simp
    qed
    show ?thesis
      apply (rule exI[of _ f])
      apply (intro conjI allI impI)
         apply (rule e)
      using f apply simp
       apply (rule inj)
      apply (rule opt)
      apply assumption
      done
  qed
qed

subsection \<open>Steps 1 and 2\<close>

lemma fold_min_le:
  fixes g :: "nat \<Rightarrow> int"
  shows "fold (\<lambda>i m. min m (g i)) xs a \<le> a \<and> (\<forall>x \<in> set xs. fold (\<lambda>i m. min m (g i)) xs a \<le> g x)"
proof (induction xs arbitrary: a)
  case Nil
  then show ?case by simp
next
  case (Cons x xs)
  from Cons.IH[of "min a (g x)"]
  have a: "fold (\<lambda>i m. min m (g i)) xs (min a (g x)) \<le> min a (g x)"
    and b: "\<forall>y \<in> set xs. fold (\<lambda>i m. min m (g i)) xs (min a (g x)) \<le> g y" by simp_all
  show ?case using a b by auto
qed

lemma fold_min_upt_le:
  fixes g :: "nat \<Rightarrow> int"
  assumes "c < n"
  shows "fold (\<lambda>i m. min m (g i)) [1 ..< n] (g 0) \<le> g c"
proof (cases "c = 0")
  case True
  then show ?thesis using fold_min_le[of g "[1 ..< n]" "g 0"] by simp
next
  case False
  then have "c \<in> set [1 ..< n]" using assms by simp
  then show ?thesis using fold_min_le[of g "[1 ..< n]" "g 0"] by blast
qed

lemma row_minimum_le: "c < n \<Longrightarrow> row_minimum M r n \<le> mat_at M r c"
  unfolding row_minimum_def by (rule fold_min_upt_le)

lemma column_minimum_le: "r < n \<Longrightarrow> column_minimum M c n \<le> mat_at M r c"
  unfolding column_minimum_def by (rule fold_min_upt_le)

lemma row_minimum_cong:
  "(\<And>c. mat_at t r c = mat_at M r c) \<Longrightarrow> row_minimum t r n = row_minimum M r n"
  by (simp add: row_minimum_def)

lemma column_minimum_cong:
  "(\<And>r. mat_at t r c = mat_at M r c) \<Longrightarrow> column_minimum t c n = column_minimum M c n"
  by (simp add: column_minimum_def)

lemma subtract_row_minima_spec:
  assumes "sq n M"
  shows "sq n (subtract_row_minima M n) \<and>
         (\<forall>r c. mat_at (subtract_row_minima M n) r c =
                  (if r < n \<and> c < n then mat_at M r c - row_minimum M r n else mat_at M r c))"
proof -
  let ?P = "\<lambda>k t. sq n t \<and>
         (\<forall>r c. mat_at t r c =
                  (if r < k \<and> c < n then mat_at M r c - row_minimum M r n else mat_at M r c))"
  have "?P n (subtract_row_minima M n)"
    unfolding subtract_row_minima_def
  proof (rule fold_upt_inv[where P = ?P])
    show "?P 0 M" using assms by simp
  next
    fix k t assume k: "k < n" and t: "?P k t"
    from t have ts: "sq n t"
      and te: "\<And>r c. mat_at t r c =
                  (if r < k \<and> c < n then mat_at M r c - row_minimum M r n else mat_at M r c)"
      by blast+
    have rm: "row_minimum t k n = row_minimum M k n"
      by (rule row_minimum_cong) (simp add: te)
    from fold_row_update[OF ts k, of "\<lambda>x. x - row_minimum M k n"]
    show "?P (Suc k) (let row_min = row_minimum t k n
                       in fold (\<lambda>j m. mat_set m k j (mat_at m k j - row_min)) [0 ..< n] t)"
      unfolding Let_def rm by (auto simp add: te less_Suc_eq)
  qed
  then show ?thesis by simp
qed

lemma subtract_column_minima_spec:
  assumes "sq n M"
  shows "sq n (subtract_column_minima M n) \<and>
         (\<forall>r c. mat_at (subtract_column_minima M n) r c =
                  (if r < n \<and> c < n then mat_at M r c - column_minimum M c n else mat_at M r c))"
proof -
  let ?P = "\<lambda>k t. sq n t \<and>
         (\<forall>r c. mat_at t r c =
                  (if c < k \<and> r < n then mat_at M r c - column_minimum M c n else mat_at M r c))"
  have "?P n (subtract_column_minima M n)"
    unfolding subtract_column_minima_def
  proof (rule fold_upt_inv[where P = ?P])
    show "?P 0 M" using assms by simp
  next
    fix k t assume k: "k < n" and t: "?P k t"
    from t have ts: "sq n t"
      and te: "\<And>r c. mat_at t r c =
                  (if c < k \<and> r < n then mat_at M r c - column_minimum M c n else mat_at M r c)"
      by blast+
    have cm: "column_minimum t k n = column_minimum M k n"
      by (rule column_minimum_cong) (simp add: te)
    from fold_col_update[OF ts k, of "\<lambda>x. x - column_minimum M k n"]
    show "?P (Suc k) (let col_min = column_minimum t k n
                       in fold (\<lambda>j m. mat_set m j k (mat_at m j k - col_min)) [0 ..< n] t)"
      unfolding Let_def cm by (auto simp add: te less_Suc_eq)
  qed
  then show ?thesis by auto
qed

lemma steps_1_2_reduced:
  assumes "sq n C0"
  shows "reduced n C0 (subtract_column_minima (subtract_row_minima C0 n) n)"
proof -
  let ?M1 = "subtract_row_minima C0 n"
  let ?M2 = "subtract_column_minima ?M1 n"
  from subtract_row_minima_spec[OF assms]
  have sq1: "sq n ?M1"
    and e1: "\<And>r c. r < n \<Longrightarrow> c < n \<Longrightarrow> mat_at ?M1 r c = mat_at C0 r c - row_minimum C0 r n"
    by simp_all
  from subtract_column_minima_spec[OF sq1]
  have sq2: "sq n ?M2"
    and e2: "\<And>r c. r < n \<Longrightarrow> c < n \<Longrightarrow> mat_at ?M2 r c = mat_at ?M1 r c - column_minimum ?M1 c n"
    by simp_all
  have nn: "\<forall>r < n. \<forall>c < n. 0 \<le> mat_at ?M2 r c"
    using e2 column_minimum_le[of _ n ?M1] by simp
  have "\<forall>r < n. \<forall>c < n. mat_at ?M2 r c =
          mat_at C0 r c - (\<lambda>r. row_minimum C0 r n) r - (\<lambda>c. column_minimum ?M1 c n) c"
    using e1 e2 by simp
  then have "\<exists>u v. \<forall>r < n. \<forall>c < n. mat_at ?M2 r c = mat_at C0 r c - u r - v c"
    by (intro exI)
  then show ?thesis unfolding reduced_def using sq2 nn by simp
qed
subsection \<open>The cost matrix\<close>

lemma filter_upt_Cons:
  "filter P [i ..< n] = j # rest \<Longrightarrow> i \<le> j \<and> j < n \<and> P j \<and> rest = filter P [Suc j ..< n]"
proof (induction "n - i" arbitrary: i)
  case 0
  then show ?case by simp
next
  case (Suc d)
  then have lt: "i < n" by simp
  then have e: "[i ..< n] = i # [Suc i ..< n]" by (rule upt_conv_Cons)
  show ?case
  proof (cases "P i")
    case True
    have "filter P (i # [Suc i ..< n]) = j # rest" using Suc.prems by (simp only: e)
    then have "j = i \<and> rest = filter P [Suc i ..< n]" using True by auto
    then have ij: "j = i" and r: "rest = filter P [Suc i ..< n]" by blast+
    show ?thesis unfolding ij using True lt r by simp
  next
    case False
    have "filter P (i # [Suc i ..< n]) = j # rest" using Suc.prems by (simp only: e)
    then have "filter P [Suc i ..< n] = j # rest" using False by simp
    moreover have "d = n - Suc i" using Suc.hyps(2) by simp
    ultimately have "Suc i \<le> j \<and> j < n \<and> P j \<and> rest = filter P [Suc j ..< n]"
      by (rule Suc.hyps(1)[rotated])
    then show ?thesis by simp
  qed
qed

lemma next_used_cell_filter:
  "next_used_cell cells idx =
     (case filter (\<lambda>k. cell_st (cells ! k) \<noteq> CELL_NOT_USED) [idx ..< length cells] of
        [] \<Rightarrow> None | j # rest \<Rightarrow> Some (Suc j))"
proof (induction cells idx rule: next_used_cell.induct)
  case (1 cells idx)
  show ?case
  proof (cases "length cells \<le> idx")
    case True
    then show ?thesis by (subst next_used_cell.simps) simp
  next
    case False
    then have e: "[idx ..< length cells] = idx # [Suc idx ..< length cells]"
      by (simp add: upt_conv_Cons)
    show ?thesis
    proof (cases "cell_st (cells ! idx) = CELL_NOT_USED")
      case True
      show ?thesis
        using 1[OF False True] False True
        by (subst next_used_cell.simps) (simp add: e)
    next
      case nu: False
      show ?thesis using False nu by (subst next_used_cell.simps) (simp add: e)
    qed
  qed
qed

lemma index_cells_filter:
  assumes nc: "n_cols \<noteq> 0"
  shows "k \<le> length (filter (\<lambda>k. cell_st (cells ! k) \<noteq> CELL_NOT_USED) [idx ..< length cells]) \<Longrightarrow>
     index_cells cells n_cols k idx =
       Some (if k = 0 then idx
             else Suc (filter (\<lambda>k. cell_st (cells ! k) \<noteq> CELL_NOT_USED) [idx ..< length cells] ! (k - 1)),
             map (coord_of n_cols)
               (take k (filter (\<lambda>k. cell_st (cells ! k) \<noteq> CELL_NOT_USED) [idx ..< length cells])))"
proof (induction k arbitrary: idx)
  case 0
  then show ?case by simp
next
  case (Suc k)
  let ?P = "\<lambda>k. cell_st (cells ! k) \<noteq> CELL_NOT_USED"
  from Suc.prems obtain j rest where jr: "filter ?P [idx ..< length cells] = j # rest"
    by (cases "filter ?P [idx ..< length cells]") auto
  from filter_upt_Cons[OF jr] have rest: "rest = filter ?P [Suc j ..< length cells]" by simp
  have nu: "next_used_cell cells idx = Some (Suc j)" by (simp add: next_used_cell_filter jr)
  have "k \<le> length (filter ?P [Suc j ..< length cells])" using Suc.prems jr rest by simp
  from Suc.IH[OF this]
  have ih: "index_cells cells n_cols k (Suc j) =
       Some (if k = 0 then Suc j else Suc (rest ! (k - 1)), map (coord_of n_cols) (take k rest))"
    by (simp only: rest)
  have last: "(if k = 0 then Suc j else Suc (rest ! (k - 1))) = Suc ((j # rest) ! k)"
    by (cases k) simp_all
  show ?case
    by (simp add: nu ih nc c_assert_def jr coord_of_def last del: nth_Cons_Suc)
qed
lemma those_all_map:
  "(\<And>x. x \<in> set xs \<Longrightarrow> g x = Some (h x)) \<Longrightarrow> those_all (map g xs) = Some (map h xs)"
  by (induction xs) simp_all

lemma used_idx_less: "k \<in> set (used_idx cells) \<Longrightarrow> k < length cells"
  by (simp add: used_idx_def)

lemma CELL_IDX_coord_of: "n_cols \<noteq> 0 \<Longrightarrow> CELL_IDX (fst (coord_of n_cols k)) (snd (coord_of n_cols k)) n_cols = k"
  by (simp add: CELL_IDX_def coord_of_def)

lemma float_to_int_floor:
  assumes "0 \<le> x" "x < 2147483648"
  shows "float_to_int x = Some \<lfloor>x\<rfloor>"
  using assms by (simp add: float_to_int_def INT_MAX_def INT_MIN_def)

lemma cell_cost_used:
  assumes fit: "costs_fit G f"
    and u: "u \<in> set (f_ents f)" and k: "k \<in> set (used_idx (f_cells f))"
  shows "cell_cost G (f_cells f) (f_ncols f) (fe_G_Pos_GetXZ G u) (coord_of (f_ncols f) k)
         = Some (assignment_cost G f u (coord_of (f_ncols f) k))"
    and "0 \<le> assignment_cost G f u (coord_of (f_ncols f) k)"
proof -
  let ?c = "cell_cost G (f_cells f) (f_ncols f) (fe_G_Pos_GetXZ G u) (coord_of (f_ncols f) k)"
  from fit have "\<forall>k \<in> set (used_idx (f_cells f)).
      (case cell_cost G (f_cells f) (f_ncols f) (fe_G_Pos_GetXZ G u) (coord_of (f_ncols f) k) of
         None \<Rightarrow> False | Some c \<Rightarrow> 0 \<le> c)"
    unfolding costs_fit_def using u by (rule bspec)
  then have c: "case ?c of None \<Rightarrow> False | Some c \<Rightarrow> 0 \<le> c"
    using k by (rule bspec)
  then show "?c = Some (assignment_cost G f u (coord_of (f_ncols f) k))"
    by (cases ?c) (simp_all add: assignment_cost_def)
  from c show "0 \<le> assignment_cost G f u (coord_of (f_ncols f) k)"
    by (cases ?c) (simp_all add: assignment_cost_def)
qed

lemma create_cost_matrix_spec:
  assumes ok: "grid_ok f" and fit: "costs_fit G f"
  shows "create_cost_matrix G f
         = Some (cost_matrix G f, map (coord_of (f_ncols f)) (used_idx (f_cells f)))"
proof (cases "f_ents f = []")
  case True
  then have "used_idx (f_cells f) = []" "f_nrows f * f_ncols f = 0"
    using ok by (simp_all add: grid_ok_def)
  then show ?thesis
    using True by (simp add: create_cost_matrix_def cost_matrix_def c_assert_def)
next
  case False
  let ?U = "used_idx (f_cells f)" and ?n = "length (f_ents f)"
  from ok False have nc: "f_ncols f \<noteq> 0" and len: "length ?U = ?n"
    and last: "Suc (last ?U) = f_nrows f * f_ncols f"
    by (simp_all add: grid_ok_def)
  have n0: "?n \<noteq> 0" using False by simp
  have U0: "?U \<noteq> []" using len n0 by auto
  have "?n \<le> length (filter (\<lambda>k. cell_st (f_cells f ! k) \<noteq> CELL_NOT_USED) [0 ..< length (f_cells f)])"
    using len by (simp add: used_idx_def)
  from index_cells_filter[OF nc this]
  have ic: "index_cells (f_cells f) (f_ncols f) ?n 0
            = Some (Suc (?U ! (?n - 1)), map (coord_of (f_ncols f)) (take ?n ?U))"
    using n0 by (simp add: used_idx_def)
  have l: "?U ! (?n - 1) = last ?U" using U0 len by (simp add: last_conv_nth)
  have ic': "index_cells (f_cells f) (f_ncols f) ?n 0
            = Some (f_nrows f * f_ncols f, map (coord_of (f_ncols f)) ?U)"
    using ic l last len by simp
  have rows: "those_all (map (\<lambda>u. those_all (map (cell_cost G (f_cells f) (f_ncols f) (fe_G_Pos_GetXZ G u))
                     (map (coord_of (f_ncols f)) ?U))) (f_ents f))
        = Some (cost_matrix G f)"
    unfolding cost_matrix_def
  proof (rule those_all_map)
    fix u assume u: "u \<in> set (f_ents f)"
    have "those_all (map (cell_cost G (f_cells f) (f_ncols f) (fe_G_Pos_GetXZ G u) \<circ> coord_of (f_ncols f)) ?U)
          = Some (map (assignment_cost G f u \<circ> coord_of (f_ncols f)) ?U)"
      by (rule those_all_map) (simp add: cell_cost_used(1)[OF fit u])
    then show "those_all (map (cell_cost G (f_cells f) (f_ncols f) (fe_G_Pos_GetXZ G u)) (map (coord_of (f_ncols f)) ?U))
          = Some (map (assignment_cost G f u) (map (coord_of (f_ncols f)) ?U))"
      by simp
  qed
  show ?thesis
    unfolding create_cost_matrix_def Let_def ic' using rows by (simp add: c_assert_def)
qed
subsection \<open>Writing the assignment\<close>

lemma zip_upt_map: "length xs = n \<Longrightarrow> zip xs [0 ..< n] = map (\<lambda>i. (xs ! i, i)) [0 ..< n]"
  by (rule nth_equalityI) simp_all

lemma assign_loop_spec:
  assumes dist: "distinct (f_ents f)" and n: "n = length (f_ents f)"
    and a: "a = map (\<lambda>r. (r, s r)) [0 ..< n]"
    and s: "\<And>r. r < n \<Longrightarrow> s r < n"
    and inb: "\<And>j. j < n \<Longrightarrow>
               CELL_IDX (fst (idx ! j)) (snd (idx ! j)) (f_ncols f) < length (f_cells f)"
    and res: "f' = fold (assign_cell a idx) (zip (f_ents f) [0 ..< n]) f"
  shows "\<forall>i < n. f_assignment f' (f_ents f ! i) = Some (idx ! s i)"
    and "\<forall>i < n. cell_st (f_cells f ! CELL_IDX (fst (idx ! s i)) (snd (idx ! s i)) (f_ncols f))
                     \<noteq> CELL_NOT_PLACED \<longrightarrow>
                 cell_st (f_cells f' ! CELL_IDX (fst (idx ! s i)) (snd (idx ! s i)) (f_ncols f))
                     = CELL_OCCUPIED"
proof -
  let ?m = "\<lambda>i. CELL_IDX (fst (idx ! s i)) (snd (idx ! s i)) (f_ncols f)"
  let ?P = "\<lambda>k (g::subformation). f_ncols g = f_ncols f \<and> length (f_cells g) = length (f_cells f) \<and>
      (\<forall>m < length (f_cells f). (cell_st (f_cells g ! m) = CELL_NOT_PLACED)
                                   = (cell_st (f_cells f ! m) = CELL_NOT_PLACED)) \<and>
      (\<forall>i < k. f_assignment g (f_ents f ! i) = Some (idx ! s i)) \<and>
      (\<forall>i < k. cell_st (f_cells f ! ?m i) \<noteq> CELL_NOT_PLACED \<longrightarrow>
                 cell_st (f_cells g ! ?m i) = CELL_OCCUPIED)"
  have e: "f' = fold (\<lambda>i. assign_cell a idx (f_ents f ! i, i)) [0 ..< n] f"
    unfolding res zip_upt_map[OF n[symmetric]] by (simp add: fold_map comp_def)
  have "?P n f'"
    unfolding e
  proof (rule fold_upt_inv[where P = ?P])
    show "?P 0 f" by simp
  next
    fix k g assume k: "k < n" and g: "?P k g"
    from g have g1: "f_ncols g = f_ncols f" and g2: "length (f_cells g) = length (f_cells f)"
      and g3: "\<And>m. m < length (f_cells f) \<Longrightarrow>
                 (cell_st (f_cells g ! m) = CELL_NOT_PLACED) = (cell_st (f_cells f ! m) = CELL_NOT_PLACED)"
      and g4: "\<And>i. i < k \<Longrightarrow> f_assignment g (f_ents f ! i) = Some (idx ! s i)"
      and g5: "\<And>i. i < k \<Longrightarrow> cell_st (f_cells f ! ?m i) \<noteq> CELL_NOT_PLACED \<Longrightarrow>
                 cell_st (f_cells g ! ?m i) = CELL_OCCUPIED"
      by simp_all
    have ak: "snd (a ! k) = s k" using k by (simp add: a)
    have mk: "?m k < length (f_cells f)" using inb[OF s[OF k]] .
    let ?g = "assign_cell a idx (f_ents f ! k, k) g"
    have ga: "f_assignment ?g = (f_assignment g)(f_ents f ! k \<mapsto> idx ! s k)"
      by (simp add: assign_cell_def Let_def ak)
    have gc: "f_cells ?g = (if cell_st (f_cells g ! ?m k) \<noteq> CELL_NOT_PLACED
                then (f_cells g)[?m k := (f_cells g ! ?m k)\<lparr> cell_st := CELL_OCCUPIED \<rparr>]
                else f_cells g)"
      by (simp add: assign_cell_def Let_def ak g1)
    have gn: "f_ncols ?g = f_ncols f" by (simp add: assign_cell_def Let_def g1)
    have gl: "length (f_cells ?g) = length (f_cells f)" by (simp add: gc g2)
    have cell: "cell_st (f_cells ?g ! m) =
        (if m = ?m k \<and> cell_st (f_cells f ! ?m k) \<noteq> CELL_NOT_PLACED then CELL_OCCUPIED
         else cell_st (f_cells g ! m))" if m: "m < length (f_cells f)" for m
      using m mk g3[OF mk] by (simp add: gc g2 nth_list_update)
    have p3: "(cell_st (f_cells ?g ! m) = CELL_NOT_PLACED) = (cell_st (f_cells f ! m) = CELL_NOT_PLACED)"
      if m: "m < length (f_cells f)" for m
      using cell[OF m] g3[OF m] by auto
    have p4: "f_assignment ?g (f_ents f ! i) = Some (idx ! s i)" if i: "i < Suc k" for i
    proof (cases "i = k")
      case True
      then show ?thesis by (simp add: ga)
    next
      case False
      then have ik: "i < k" using i by simp
      have "f_ents f ! i \<noteq> f_ents f ! k"
        using dist ik k n by (simp add: nth_eq_iff_index_eq)
      then show ?thesis using g4[OF ik] by (simp add: ga)
    qed
    have p5: "cell_st (f_cells ?g ! ?m i) = CELL_OCCUPIED"
      if i: "i < Suc k" and np: "cell_st (f_cells f ! ?m i) \<noteq> CELL_NOT_PLACED" for i
    proof -
      have mi: "?m i < length (f_cells f)" using inb[OF s, of i] i k by simp
      show ?thesis
      proof (cases "?m i = ?m k")
        case True
        then show ?thesis using cell[OF mi] np by simp
      next
        case False
        then have "i \<noteq> k" by auto
        then have "i < k" using i by simp
        from g5[OF this np] show ?thesis using cell[OF mi] False by simp
      qed
    qed
    show "?P (Suc k) ?g" using gn gl p3 p4 p5 by simp
  qed
  then show "\<forall>i < n. f_assignment f' (f_ents f ! i) = Some (idx ! s i)"
    and "\<forall>i < n. cell_st (f_cells f ! ?m i) \<noteq> CELL_NOT_PLACED \<longrightarrow>
                 cell_st (f_cells f' ! ?m i) = CELL_OCCUPIED"
    by simp_all
qed
subsection \<open>The assignment of a subformation\<close>

lemma distinct_used_idx: "distinct (used_idx cells)"
  by (simp add: used_idx_def)

lemma coord_of_inj:
  assumes nz: "n_cols \<noteq> 0" and e: "coord_of n_cols k = coord_of n_cols k'"
  shows "k = k'"
proof -
  have "k = CELL_IDX (fst (coord_of n_cols k)) (snd (coord_of n_cols k)) n_cols"
    by (simp only: CELL_IDX_coord_of[OF nz])
  also have "\<dots> = CELL_IDX (fst (coord_of n_cols k')) (snd (coord_of n_cols k')) n_cols"
    by (simp only: e)
  also have "\<dots> = k'" by (rule CELL_IDX_coord_of[OF nz])
  finally show ?thesis .
qed

lemma sq_cost_matrix:
  "length (used_idx (f_cells f)) = length (f_ents f) \<Longrightarrow> sq (length (f_ents f)) (cost_matrix G f)"
  by (auto simp add: sq_def cost_matrix_def)

lemma cost_matrix_at:
  assumes "i < length (f_ents f)" "j < length (used_idx (f_cells f))"
  shows "mat_at (cost_matrix G f) i j
         = assignment_cost G f (f_ents f ! i) (coord_of (f_ncols f) (used_idx (f_cells f) ! j))"
  using assms by (simp add: mat_at_def cost_matrix_def)

lemma sum_over_list:
  assumes "distinct xs"
  shows "(\<Sum>u \<in> set xs. F u) = (\<Sum>i < length xs. F (xs ! i))"
proof -
  have "bij_betw ((!) xs) {..<length xs} (set xs)" by (rule bij_betw_nth[OF assms]) simp_all
  from sum.reindex_bij_betw[OF this, of F] show ?thesis by simp
qed
lemma cell_assignment_main:
  assumes ok: "grid_ok f" and fit: "costs_fit G f" and nov: "no_overflow G f"
  shows "\<exists>f' s. compute_cell_assignment G f = Some f' \<and>
           (\<forall>r < length (f_ents f). s r < length (f_ents f)) \<and>
           inj_on s {..<length (f_ents f)} \<and>
           (\<forall>i < length (f_ents f). f_assignment f' (f_ents f ! i)
                = Some (coord_of (f_ncols f) (used_idx (f_cells f) ! s i))) \<and>
           (\<forall>i < length (f_ents f).
               cell_st (f_cells f ! (used_idx (f_cells f) ! s i)) \<noteq> CELL_NOT_PLACED \<longrightarrow>
               cell_st (f_cells f' ! (used_idx (f_cells f) ! s i)) = CELL_OCCUPIED) \<and>
           (\<forall>g. bij_betw g {..<length (f_ents f)} {..<length (f_ents f)} \<longrightarrow>
                (\<Sum>r < length (f_ents f). mat_at (cost_matrix G f) r (s r))
                  \<le> (\<Sum>r < length (f_ents f). mat_at (cost_matrix G f) r (g r)))"
proof -
  let ?n = "length (f_ents f)" and ?U = "used_idx (f_cells f)"
  let ?idx = "map (coord_of (f_ncols f)) ?U"
  let ?C0 = "cost_matrix G f"
  let ?M2 = "subtract_column_minima (subtract_row_minima ?C0 ?n) ?n"
  from ok have dist: "distinct (f_ents f)" and len: "length ?U = ?n"
    by (simp_all add: grid_ok_def)
  have nc: "f_ncols f \<noteq> 0" if "j < ?n" for j
    using ok that by (auto simp add: grid_ok_def split: if_splits)
  have ccm: "create_cost_matrix G f = Some (?C0, ?idx)" by (rule create_cost_matrix_spec[OF ok fit])
  have red: "reduced ?n ?C0 ?M2" by (rule steps_1_2_reduced[OF sq_cost_matrix[OF len]])
  have bd: "in_bound ?n ?M2" using nov by (simp add: no_overflow_def)
  from assignment_loop_total[OF red bd, of "mat_const ?n 0" "replicate ?n (0, 0)"]
  obtain s where
    al: "assignment_loop ?M2 (mat_const ?n 0) (replicate ?n (0, 0)) ?n
           = Some (map (\<lambda>r. (r, s r)) [0 ..< ?n])"
    and sb: "\<forall>r < ?n. s r < ?n" and inj: "inj_on s {..<?n}"
    and opt: "\<forall>g. bij_betw g {..<?n} {..<?n} \<longrightarrow>
                (\<Sum>r < ?n. mat_at ?C0 r (s r)) \<le> (\<Sum>r < ?n. mat_at ?C0 r (g r))"
    by auto
  let ?a = "map (\<lambda>r. (r, s r)) [0 ..< ?n]"
  let ?f' = "fold (assign_cell ?a ?idx) (zip (f_ents f) [0 ..< ?n]) f"
  have comp: "compute_cell_assignment G f = Some ?f'"
    unfolding compute_cell_assignment_def Let_def ccm by (simp add: al)
  have ix: "?idx ! j = coord_of (f_ncols f) (?U ! j)" if "j < ?n" for j
    using that len by simp
  have cx: "CELL_IDX (fst (?idx ! j)) (snd (?idx ! j)) (f_ncols f) = ?U ! j" if j: "j < ?n" for j
    unfolding ix[OF j] by (rule CELL_IDX_coord_of[OF nc[OF j]])
  have inb: "CELL_IDX (fst (?idx ! j)) (snd (?idx ! j)) (f_ncols f) < length (f_cells f)"
    if j: "j < ?n" for j
    unfolding cx[OF j] using j len by (intro used_idx_less) simp
  have sr: "\<And>r. r < ?n \<Longrightarrow> s r < ?n" using sb by simp
  note sp = assign_loop_spec[OF dist refl refl sr inb refl]
  have A: "\<forall>i < ?n. f_assignment ?f' (f_ents f ! i) = Some (coord_of (f_ncols f) (?U ! s i))"
    using sp(1) ix sb by simp
  have B: "\<forall>i < ?n. cell_st (f_cells f ! (?U ! s i)) \<noteq> CELL_NOT_PLACED \<longrightarrow>
               cell_st (f_cells ?f' ! (?U ! s i)) = CELL_OCCUPIED"
    using sp(2) cx sb by simp
  show ?thesis
    apply (rule exI[of _ ?f'])
    apply (rule exI[of _ s])
    apply (intro conjI)
         apply (rule comp)
        apply (rule sb)
       apply (rule inj)
      apply (rule A)
     apply (rule B)
    apply (rule opt)
    done
qed
lemma cell_assignment_bijection:
  assumes ok: "grid_ok f" and fit: "costs_fit G f" and nov: "no_overflow G f"
  shows "\<exists>f'. compute_cell_assignment G f = Some f' \<and>
     bij_betw (\<lambda>u. the (f_assignment f' u)) (set (f_ents f)) (used_coords f) \<and>
     (\<forall>u \<in> set (f_ents f).
        cell_st (f_cells f ! CELL_IDX (fst (the (f_assignment f' u)))
                               (snd (the (f_assignment f' u))) (f_ncols f)) \<noteq> CELL_NOT_PLACED \<longrightarrow>
        cell_st (f_cells f' ! CELL_IDX (fst (the (f_assignment f' u)))
                                (snd (the (f_assignment f' u))) (f_ncols f)) = CELL_OCCUPIED) \<and>
     (\<forall>g. bij_betw g (set (f_ents f)) (used_coords f) \<longrightarrow>
        (\<Sum>u \<in> set (f_ents f). assignment_cost G f u (the (f_assignment f' u)))
          \<le> (\<Sum>u \<in> set (f_ents f). assignment_cost G f u (g u)))"
proof -
  let ?n = "length (f_ents f)" and ?U = "used_idx (f_cells f)"
  let ?e = "\<lambda>i. f_ents f ! i"
  let ?d = "\<lambda>j. coord_of (f_ncols f) (?U ! j)"
  from ok have dist: "distinct (f_ents f)" and len: "length ?U = ?n"
    by (simp_all add: grid_ok_def)
  have nc: "f_ncols f \<noteq> 0" if "j < ?n" for j
    using ok that by (auto simp add: grid_ok_def split: if_splits)
  from cell_assignment_main[OF ok fit nov] obtain f' s where
    comp: "compute_cell_assignment G f = Some f'"
    and sb: "\<And>r. r < ?n \<Longrightarrow> s r < ?n" and inj: "inj_on s {..<?n}"
    and A: "\<And>i. i < ?n \<Longrightarrow> f_assignment f' (?e i) = Some (?d (s i))"
    and B: "\<And>i. i < ?n \<Longrightarrow> cell_st (f_cells f ! (?U ! s i)) \<noteq> CELL_NOT_PLACED \<Longrightarrow>
               cell_st (f_cells f' ! (?U ! s i)) = CELL_OCCUPIED"
    and opt: "\<And>g. bij_betw g {..<?n} {..<?n} \<Longrightarrow>
                (\<Sum>r < ?n. mat_at (cost_matrix G f) r (s r))
                  \<le> (\<Sum>r < ?n. mat_at (cost_matrix G f) r (g r))"
    by auto
  let ?asg = "\<lambda>u. the (f_assignment f' u)"
  have asg: "?asg (?e i) = ?d (s i)" if "i < ?n" for i using A[OF that] by simp
  have ebij: "bij_betw ?e {..<?n} (set (f_ents f))" by (rule bij_betw_nth[OF dist]) simp_all
  have dinj: "inj_on ?d {..<?n}"
  proof (rule inj_onI)
    fix j j' assume a: "j \<in> {..<?n}" "j' \<in> {..<?n}" "?d j = ?d j'"
    then have j: "j < ?n" "j' < ?n" by simp_all
    from coord_of_inj[OF nc[OF j(1)] a(3)] have "?U ! j = ?U ! j'" .
    then show "j = j'" using distinct_used_idx[of "f_cells f"] j len
      by (simp add: nth_eq_iff_index_eq)
  qed
  have dimg: "?d ` {..<?n} = used_coords f"
  proof -
    have "set ?U = (\<lambda>j. ?U ! j) ` {..<?n}"
      using len by (auto simp add: set_conv_nth)
    then show ?thesis unfolding used_coords_def by (simp add: image_image)
  qed
  have dbij: "bij_betw ?d {..<?n} (used_coords f)"
    using dinj dimg by (simp add: bij_betw_def)
  have simg: "s ` {..<?n} \<subseteq> {..<?n}" using sb by auto
  have "s ` {..<?n} = {..<?n}" by (rule endo_inj_surj[OF _ simg inj]) simp
  then have sbij: "bij_betw s {..<?n} {..<?n}" using inj by (simp add: bij_betw_def)
  have cmp: "bij_betw (?d \<circ> s \<circ> the_inv_into {..<?n} ?e) (set (f_ents f)) (used_coords f)"
    by (intro bij_betw_trans[OF bij_betw_the_inv_into[OF ebij]] bij_betw_trans[OF sbij] dbij)
  have einj: "inj_on ?e {..<?n}" using ebij by (simp add: bij_betw_def)
  have same: "(?d \<circ> s \<circ> the_inv_into {..<?n} ?e) u = ?asg u" if u: "u \<in> set (f_ents f)" for u
  proof -
    from u obtain i where i: "i < ?n" "u = ?e i" by (auto simp add: in_set_conv_nth)
    have "the_inv_into {..<?n} ?e (?e i) = i" using i(1) by (intro the_inv_into_f_f einj) simp
    then show ?thesis using asg[OF i(1)] i(2) by simp
  qed
  have bij: "bij_betw ?asg (set (f_ents f)) (used_coords f)"
    using cmp bij_betw_cong[of "set (f_ents f)" "?d \<circ> s \<circ> the_inv_into {..<?n} ?e" ?asg] same
    by blast
  have occ: "cell_st (f_cells f' ! CELL_IDX (fst (?asg u)) (snd (?asg u)) (f_ncols f)) = CELL_OCCUPIED"
    if u: "u \<in> set (f_ents f)"
      and np: "cell_st (f_cells f ! CELL_IDX (fst (?asg u)) (snd (?asg u)) (f_ncols f)) \<noteq> CELL_NOT_PLACED"
    for u
  proof -
    from u obtain i where i: "i < ?n" "u = ?e i" by (auto simp add: in_set_conv_nth)
    have c: "CELL_IDX (fst (?asg u)) (snd (?asg u)) (f_ncols f) = ?U ! s i"
      unfolding i(2) asg[OF i(1)] by (rule CELL_IDX_coord_of[OF nc[OF i(1)]])
    show ?thesis using B[OF i(1)] np unfolding c by simp
  qed
  have cost: "mat_at (cost_matrix G f) i j = assignment_cost G f (?e i) (?d j)"
    if "i < ?n" "j < ?n" for i j
    using cost_matrix_at[of i f j G] that len by simp
  have lhs: "(\<Sum>u \<in> set (f_ents f). assignment_cost G f u (?asg u))
             = (\<Sum>r < ?n. mat_at (cost_matrix G f) r (s r))"
    unfolding sum_over_list[OF dist]
    by (rule sum.cong) (simp_all add: asg cost sb)
  have best: "(\<Sum>u \<in> set (f_ents f). assignment_cost G f u (?asg u))
          \<le> (\<Sum>u \<in> set (f_ents f). assignment_cost G f u (g u))"
    if g: "bij_betw g (set (f_ents f)) (used_coords f)" for g
  proof -
    let ?p = "the_inv_into {..<?n} ?d \<circ> g \<circ> ?e"
    have pb: "bij_betw ?p {..<?n} {..<?n}"
      by (intro bij_betw_trans[OF ebij] bij_betw_trans[OF g] bij_betw_the_inv_into[OF dbij])
    have pr: "?p i < ?n" if "i < ?n" for i
      using pb that by (auto simp add: bij_betw_def)
    have dp: "?d (?p i) = g (?e i)" if i: "i < ?n" for i
    proof -
      have "?e i \<in> set (f_ents f)" using i by simp
      then have "g (?e i) \<in> used_coords f" using g by (auto simp add: bij_betw_def)
      from f_the_inv_into_f_bij_betw[OF dbij this] show ?thesis by simp
    qed
    have "(\<Sum>u \<in> set (f_ents f). assignment_cost G f u (g u))
          = (\<Sum>r < ?n. mat_at (cost_matrix G f) r (?p r))"
      unfolding sum_over_list[OF dist]
    proof (rule sum.cong)
      fix r assume "r \<in> {..<?n}"
      then have r: "r < ?n" by simp
      show "assignment_cost G f (?e r) (g (?e r)) = mat_at (cost_matrix G f) r (?p r)"
        unfolding cost[OF r pr[OF r]] dp[OF r] ..
    qed simp
    then show ?thesis unfolding lhs using opt[OF pb] by simp
  qed
  show ?thesis
    apply (rule exI[of _ f'])
    apply (intro conjI ballI allI impI)
       apply (rule comp)
      apply (rule bij)
     apply (rule occ; assumption)
    apply (rule best; assumption)
    done
qed
subsection \<open>A sufficient bound on the costs\<close>

lemma fold_min_ge:
  fixes g :: "nat \<Rightarrow> int"
  shows "l \<le> a \<Longrightarrow> (\<forall>x \<in> set xs. l \<le> g x) \<Longrightarrow> l \<le> fold (\<lambda>i m. min m (g i)) xs a"
  by (induction xs arbitrary: a) simp_all

lemma row_minimum_ge:
  assumes "0 < n" and "\<And>c. c < n \<Longrightarrow> l \<le> mat_at M r c"
  shows "l \<le> row_minimum M r n"
  unfolding row_minimum_def using assms by (intro fold_min_ge) simp_all

lemma column_minimum_ge:
  assumes "0 < n" and "\<And>r. r < n \<Longrightarrow> l \<le> mat_at M r c"
  shows "l \<le> column_minimum M c n"
  unfolding column_minimum_def using assms by (intro fold_min_ge) simp_all

lemma msum_le:
  assumes "\<And>r c. r < n \<Longrightarrow> c < n \<Longrightarrow> mat_at M r c \<le> K"
  shows "msum n M \<le> int n * (int n * K)"
proof -
  have "(\<Sum>c < n. mat_at M r c) \<le> int n * K" if "r < n" for r
    using sum_bounded_above[of "{..<n}" "\<lambda>c. mat_at M r c" K] assms[OF that] by simp
  then have "(\<Sum>r < n. \<Sum>c < n. mat_at M r c) \<le> int n * (int n * K)"
    using sum_bounded_above[of "{..<n}" "\<lambda>r. \<Sum>c < n. mat_at M r c" "int n * K"] by simp
  then show ?thesis by (simp add: msum_def)
qed

lemma no_overflow_small:
  assumes len: "length (used_idx (f_cells f)) = length (f_ents f)"
    and small: "\<And>i j. i < length (f_ents f) \<Longrightarrow> j < length (f_ents f) \<Longrightarrow>
                   0 \<le> mat_at (cost_matrix G f) i j \<and> mat_at (cost_matrix G f) i j \<le> K"
    and K: "(int (length (f_ents f)) + 1) * K \<le> INT_MAX"
  shows "no_overflow G f"
proof -
  let ?n = "length (f_ents f)" and ?C = "cost_matrix G f"
  let ?M1 = "subtract_row_minima ?C ?n"
  let ?M2 = "subtract_column_minima ?M1 ?n"
  have sqC: "sq ?n ?C" by (rule sq_cost_matrix[OF len])
  from subtract_row_minima_spec[OF sqC]
  have sq1: "sq ?n ?M1"
    and e1: "\<And>r c. r < ?n \<Longrightarrow> c < ?n \<Longrightarrow> mat_at ?M1 r c = mat_at ?C r c - row_minimum ?C r ?n"
    by simp_all
  from subtract_column_minima_spec[OF sq1]
  have e2: "\<And>r c. r < ?n \<Longrightarrow> c < ?n \<Longrightarrow> mat_at ?M2 r c = mat_at ?M1 r c - column_minimum ?M1 c ?n"
    by simp_all
  have le: "mat_at ?M2 r c \<le> K" if r: "r < ?n" and c: "c < ?n" for r c
  proof -
    have pos: "0 < ?n" using r by (cases "f_ents f") simp_all
    have rm: "0 \<le> row_minimum ?C r ?n"
      by (rule row_minimum_ge[OF pos]) (simp add: small r)
    have "0 \<le> mat_at ?M1 r' c" if "r' < ?n" for r'
      using e1[OF that c] row_minimum_le[OF c, of ?C r'] by simp
    then have cm: "0 \<le> column_minimum ?M1 c ?n" by (rule column_minimum_ge[OF pos])
    show ?thesis using e2[OF r c] e1[OF r c] rm cm small[OF r c] by simp
  qed
  have "int ?n * K + msum ?n ?M2 \<le> int ?n * K + int ?n * (int ?n * K)"
    using msum_le[of ?n ?M2 K] le by simp
  also have "\<dots> = int ?n * ((int ?n + 1) * K)" by (simp add: algebra_simps)
  also have "\<dots> \<le> int ?n * INT_MAX" using K by (intro mult_left_mono) simp_all
  finally have "int ?n * K + msum ?n ?M2 \<le> int ?n * INT_MAX" .
  then have "(\<forall>r < ?n. \<forall>c < ?n. mat_at ?M2 r c \<le> K) \<and>
             int ?n * K + msum ?n ?M2 \<le> int ?n * INT_MAX"
    using le by simp
  then have "in_bound ?n ?M2" unfolding in_bound_def by (intro exI)
  then show ?thesis by (simp add: no_overflow_def)
qed

subsection \<open>The sample subformations\<close>

lemma float_op_dyadic:
  assumes "\<bar>m\<bar> < 2 ^ 24" "n \<le> 104"
  shows "float_op (of_int m * 2 ^ n) = Some (of_int m * 2 ^ n)"
proof -
  have r: "float_round (of_int m * 2 ^ n) = of_int m * 2 ^ n"
    using float_round_dyadic[OF assms(1), of "int n"] by (simp only: powr_of_int_nat)
  have "\<bar>real_of_int m\<bar> \<le> 2 ^ 24 - 1"
  proof -
    have "\<bar>m\<bar> \<le> 2 ^ 24 - 1" using assms(1) by simp
    then have "real_of_int \<bar>m\<bar> \<le> real_of_int (2 ^ 24 - 1)" by (simp only: of_int_le_iff)
    then show ?thesis by simp
  qed
  moreover have "(2::real) ^ n \<le> 2 ^ 104" using assms(2) by (intro power_increasing) simp_all
  ultimately have "\<bar>real_of_int m\<bar> * 2 ^ n \<le> (2 ^ 24 - 1) * 2 ^ 104"
    by (intro mult_mono) simp_all
  then have "\<bar>of_int m * 2 ^ n :: real\<bar> \<le> FLT_MAX" by (simp add: abs_mult FLT_MAX_def)
  then show ?thesis by (simp add: float_op_def r)
qed

lemma float_op_fraction:
  assumes "\<bar>m\<bar> < 2 ^ 24" "n \<le> 149"
  shows "float_op (of_int m / 2 ^ n) = Some (of_int m / 2 ^ n)"
proof -
  have "- 149 \<le> - int n" using assms(2) by simp
  from float_round_dyadic[OF assms(1) this]
  have r: "float_round (of_int m / 2 ^ n) = of_int m / 2 ^ n"
    unfolding powr_of_int_neg_nat by simp
  have "\<bar>real_of_int m\<bar> \<le> 2 ^ 24 - 1"
  proof -
    have "\<bar>m\<bar> \<le> 2 ^ 24 - 1" using assms(1) by simp
    then have "real_of_int \<bar>m\<bar> \<le> real_of_int (2 ^ 24 - 1)" by (simp only: of_int_le_iff)
    then show ?thesis by simp
  qed
  moreover have "\<bar>real_of_int m\<bar> / 2 ^ n \<le> \<bar>real_of_int m\<bar>"
    by (simp add: divide_le_eq_1 field_simps mult_le_cancel_left1)
  ultimately have "\<bar>real_of_int m\<bar> / 2 ^ n \<le> FLT_MAX" by (simp add: FLT_MAX_def)
  then have "\<bar>of_int m / 2 ^ n :: real\<bar> \<le> FLT_MAX" by simp
  then show ?thesis by (simp add: float_op_def r)
qed

lemma float_op_values:
  "float_op 0 = Some 0" "float_op 1 = Some 1" "float_op (- 1) = Some (- 1)"
  "float_op 100 = Some 100" "float_op 10000 = Some 10000"
  "float_op 255 = Some 255" "float_op (8161 / 32) = Some (8161 / 32)"
  "float_op (4081 / 16) = Some (4081 / 16)"
  "float_op 25500 = Some 25500" "float_op (204025 / 8) = Some (204025 / 8)"
  "float_op (102025 / 4) = Some (102025 / 4)"
  "float_op (- 500) = Some (- 500)" "float_op 500 = Some 500" "float_op 50000 = Some 50000"
  "float_op 2500000000 = Some 2500000000"
  using float_op_dyadic[of 0 0] float_op_dyadic[of 1 0] float_op_dyadic[of "- 1" 0]
    float_op_dyadic[of 100 0] float_op_dyadic[of 10000 0]
    float_op_dyadic[of 255 0] float_op_fraction[of 8161 5] float_op_fraction[of 4081 4]
    float_op_dyadic[of 25500 0] float_op_fraction[of 204025 3] float_op_fraction[of 102025 2]
    float_op_dyadic[of "- 500" 0] float_op_dyadic[of 500 0] float_op_dyadic[of 50000 0]
    float_op_dyadic[of 9765625 8]
  by simp_all

lemma float_op_big:
  assumes "2 ^ (23 + n) \<le> \<bar>x\<bar>" "\<bar>x\<bar> < 2 ^ (24 + n)" "n \<le> 104" "\<bar>m\<bar> < 2 ^ 24"
    and "of_int m - 1 / 2 < x / 2 ^ n" "x / 2 ^ n < of_int m + 1 / 2"
  shows "float_op x = Some (of_int m * 2 ^ n)"
proof -
  have "round_even (x / 2 ^ n) = m" by (rule round_even_eqI[OF assms(5,6)])
  then have r: "float_round x = of_int m * 2 ^ n"
    using float_round_big[OF assms(1,2)] by simp
  have "float_op (of_int m * 2 ^ n) = Some (of_int m * 2 ^ n)"
    by (rule float_op_dyadic[OF assms(4,3)])
  then have "\<bar>float_round (of_int m * 2 ^ n)\<bar> \<le> FLT_MAX"
    by (simp add: float_op_def split: if_splits)
  moreover have "float_round (of_int m * 2 ^ n) = of_int m * 2 ^ n"
    using float_round_dyadic[OF assms(4), of "int n"] by (simp only: powr_of_int_nat)
  ultimately show ?thesis by (simp add: float_op_def r)
qed

lemma float_op_rounded:
  "float_op 650250000 = Some 650249984"
  "float_op (41626200625 / 64) = Some 650409408"
  "float_op (10409100625 / 16) = Some 650568768"
  using float_op_big[of 6 650250000 10160156] float_op_big[of 6 "41626200625 / 64" 10162647]
    float_op_big[of 6 "10409100625 / 16" 10165137]
  by simp_all

lemma PFM_Vec2_Len_x0: "PFM_Vec2_Len (a, 0) = \<bar>a\<bar>"
  by (simp add: PFM_Vec2_Len_def)

lemma sample_float_env_sel:
  "fe_G_Pos_GetXZ (sample_float_env p) = p"
  "fe_PFM_Vec2_Sub (sample_float_env p) (a, 0) (b, 0) = do { x \<leftarrow> float_op (a - b); Some (x, 0) }"
  "fe_PFM_Vec2_Len (sample_float_env p) (x, 0) = float_op \<bar>x\<bar>"
  "fe_mul (sample_float_env p) x y = float_op (x * y)"
  "0 \<le> x \<Longrightarrow> fe_powf (sample_float_env p) x 2 = float_op (x * x)"
proof -
  show "0 \<le> x \<Longrightarrow> fe_powf (sample_float_env p) x 2 = float_op (x * x)"
    by (cases "x = 0") (simp_all add: sample_float_env_def power2_eq_square)
qed (simp_all add: sample_float_env_def float_op_values)

lemma sample_used_idx: "used_idx (f_cells sample_formation) = [0, 1]"
  by (simp add: used_idx_def sample_formation_def numeral_2_eq_2)

lemma sample_grid_ok: "grid_ok sample_formation"
  unfolding grid_ok_def sample_used_idx by (simp add: sample_formation_def)

lemmas sample_cost_simps =
  cell_cost_def coord_of_def CELL_IDX_def sample_float_env_sel float_op_values float_op_rounded
  float_to_int_def INT_MAX_def INT_MIN_def

lemma sample_cell_cost:
  "cell_cost (sample_float_env sample_unit_pos) (f_cells sample_formation) 2 (0, 0) (0, 0) = Some 10000"
  "cell_cost (sample_float_env sample_unit_pos) (f_cells sample_formation) 2 (0, 0) (0, 1) = Some 0"
  "cell_cost (sample_float_env sample_unit_pos) (f_cells sample_formation) 2 (1, 0) (0, 0) = Some 0"
  "cell_cost (sample_float_env sample_unit_pos) (f_cells sample_formation) 2 (1, 0) (0, 1) = Some 10000"
  by (simp_all add: sample_cost_simps sample_formation_def)

lemma sample_costs_fit: "costs_fit (sample_float_env sample_unit_pos) sample_formation"
  unfolding costs_fit_def sample_used_idx
  using sample_cell_cost
  by (simp add: sample_formation_def sample_unit_pos_def sample_float_env_sel(1) coord_of_def)

lemma sample_cost_matrix:
  "cost_matrix (sample_float_env sample_unit_pos) sample_formation = [[10000, 0], [0, 10000]]"
  unfolding cost_matrix_def sample_used_idx
  using sample_cell_cost
  by (simp add: sample_formation_def sample_unit_pos_def sample_float_env_sel(1) coord_of_def
      assignment_cost_def)

lemma sample_no_overflow: "no_overflow (sample_float_env sample_unit_pos) sample_formation"
proof (rule no_overflow_small[where K = 10000])
  show "length (used_idx (f_cells sample_formation)) = length (f_ents sample_formation)"
    unfolding sample_used_idx by (simp add: sample_formation_def)
next
  fix i j
  assume "i < length (f_ents sample_formation)" "j < length (f_ents sample_formation)"
  then have "i < 2" "j < 2" by (simp_all add: sample_formation_def)
  then have "(i = 0 \<or> i = 1) \<and> (j = 0 \<or> j = 1)" by auto
  then show "0 \<le> mat_at (cost_matrix (sample_float_env sample_unit_pos) sample_formation) i j \<and>
        mat_at (cost_matrix (sample_float_env sample_unit_pos) sample_formation) i j \<le> 10000"
    unfolding sample_cost_matrix by (auto simp add: mat_at_def)
next
  show "(int (length (f_ents sample_formation)) + 1) * 10000 \<le> INT_MAX"
    by (simp add: sample_formation_def INT_MAX_def)
qed

text \<open>The second sample: the rounded costs and the costs of the claim.\<close>

lemma rounding_used_idx: "used_idx (f_cells rounding_formation) = [0, 1]"
  by (simp add: used_idx_def rounding_formation_def numeral_2_eq_2)

lemma rounding_grid_ok: "grid_ok rounding_formation"
  unfolding grid_ok_def rounding_used_idx by (simp add: rounding_formation_def)

lemma rounding_cell_cost:
  "cell_cost (sample_float_env rounding_unit_pos) (f_cells rounding_formation) 2 (0, 0) (0, 0)
     = Some 650249984"
  "cell_cost (sample_float_env rounding_unit_pos) (f_cells rounding_formation) 2 (0, 0) (0, 1)
     = Some 650409408"
  "cell_cost (sample_float_env rounding_unit_pos) (f_cells rounding_formation) 2 (- 1 / 32, 0) (0, 0)
     = Some 650409408"
  "cell_cost (sample_float_env rounding_unit_pos) (f_cells rounding_formation) 2 (- 1 / 32, 0) (0, 1)
     = Some 650568768"
  by (simp_all add: sample_cost_simps rounding_formation_def)

lemma rounding_costs_fit: "costs_fit (sample_float_env rounding_unit_pos) rounding_formation"
  unfolding costs_fit_def rounding_used_idx
  using rounding_cell_cost
  by (simp add: rounding_formation_def rounding_unit_pos_def sample_float_env_sel(1) coord_of_def)

lemma rounding_cost_matrix:
  "cost_matrix (sample_float_env rounding_unit_pos) rounding_formation
     = [[650249984, 650409408], [650409408, 650568768]]"
  unfolding cost_matrix_def rounding_used_idx
  using rounding_cell_cost
  by (simp add: rounding_formation_def rounding_unit_pos_def sample_float_env_sel(1) coord_of_def
      assignment_cost_def)

lemma rounding_no_overflow: "no_overflow (sample_float_env rounding_unit_pos) rounding_formation"
proof (rule no_overflow_small[where K = 650568768])
  show "length (used_idx (f_cells rounding_formation)) = length (f_ents rounding_formation)"
    unfolding rounding_used_idx by (simp add: rounding_formation_def)
next
  fix i j
  assume "i < length (f_ents rounding_formation)" "j < length (f_ents rounding_formation)"
  then have "i < 2" "j < 2" by (simp_all add: rounding_formation_def)
  then have "(i = 0 \<or> i = 1) \<and> (j = 0 \<or> j = 1)" by auto
  then show "0 \<le> mat_at (cost_matrix (sample_float_env rounding_unit_pos) rounding_formation) i j \<and>
        mat_at (cost_matrix (sample_float_env rounding_unit_pos) rounding_formation) i j \<le> 650568768"
    unfolding rounding_cost_matrix by (auto simp add: mat_at_def)
next
  show "(int (length (f_ents rounding_formation)) + 1) * 650568768 \<le> INT_MAX"
    by (simp add: rounding_formation_def INT_MAX_def)
qed

lemma rounding_claimed_cost:
  "claimed_cost rounding_unit_pos rounding_formation 4 (0, 0) = 650250000"
  "claimed_cost rounding_unit_pos rounding_formation 4 (0, 1) = 650409384"
  "claimed_cost rounding_unit_pos rounding_formation 2 (0, 0) = 650409384"
  "claimed_cost rounding_unit_pos rounding_formation 2 (0, 1) = 650568789"
  by (simp_all add: claimed_cost_def rounding_formation_def rounding_unit_pos_def CELL_IDX_def
      PFM_Vec2_Sub_def PFM_Vec2_Len_x0 power2_eq_square)

lemma not_placed_cost:
  assumes ok: "grid_ok f" and c: "c \<in> used_coords f"
    and np: "cell_st (f_cells f ! CELL_IDX (fst c) (snd c) (f_ncols f)) = CELL_NOT_PLACED"
  shows "assignment_cost G f u c = INT_MAX"
proof -
  from c obtain k where k: "k \<in> set (used_idx (f_cells f))" and ck: "c = coord_of (f_ncols f) k"
    by (auto simp add: used_coords_def)
  have "used_idx (f_cells f) \<noteq> []" using k by auto
  then have "f_ents f \<noteq> []" using ok by (auto simp add: grid_ok_def)
  then have nc: "f_ncols f \<noteq> 0" using ok by (simp add: grid_ok_def)
  have i: "CELL_IDX (fst c) (snd c) (f_ncols f) = k" unfolding ck by (rule CELL_IDX_coord_of[OF nc])
  show ?thesis
    using np used_idx_less[OF k] unfolding i
    by (simp add: assignment_cost_def cell_cost_def ck CELL_IDX_coord_of[OF nc])
qed



lemma index_cells_grid_ok:
  assumes ok: "grid_ok f" and ne: "f_ents f \<noteq> []"
  shows "index_cells (f_cells f) (f_ncols f) (length (f_ents f)) 0
         = Some (f_nrows f * f_ncols f, map (coord_of (f_ncols f)) (used_idx (f_cells f)))"
proof -
  let ?U = "used_idx (f_cells f)" and ?n = "length (f_ents f)"
  from ok ne have nc: "f_ncols f \<noteq> 0" and len: "length ?U = ?n"
    and last: "Suc (last ?U) = f_nrows f * f_ncols f"
    by (simp_all add: grid_ok_def)
  have n0: "?n \<noteq> 0" using ne by simp
  have U0: "?U \<noteq> []" using len n0 by auto
  have "?n \<le> length (filter (\<lambda>k. cell_st (f_cells f ! k) \<noteq> CELL_NOT_USED) [0 ..< length (f_cells f)])"
    using len by (simp add: used_idx_def)
  from index_cells_filter[OF nc this]
  have ic: "index_cells (f_cells f) (f_ncols f) ?n 0
            = Some (Suc (?U ! (?n - 1)), map (coord_of (f_ncols f)) (take ?n ?U))"
    using n0 by (simp add: used_idx_def)
  have l: "?U ! (?n - 1) = last ?U" using U0 len by (simp add: last_conv_nth)
  show ?thesis using ic l last len by simp
qed

lemma far_cell_cost:
  "cell_cost (sample_float_env far_unit_pos) (f_cells sample_formation) 2 (501, 0) (0, 0) = None"
  by (simp add: sample_cost_simps sample_formation_def)

lemma far_create_cost_matrix:
  "create_cost_matrix (sample_float_env far_unit_pos) sample_formation = None"
proof -
  have ne: "f_ents sample_formation \<noteq> []" by (simp add: sample_formation_def)
  have ic: "index_cells (f_cells sample_formation) (f_ncols sample_formation)
              (length (f_ents sample_formation)) 0 = Some (2, [(0, 0), (0, 1)])"
    unfolding index_cells_grid_ok[OF sample_grid_ok ne] sample_used_idx
    by (simp add: sample_formation_def coord_of_def)
  have e: "f_ents sample_formation = [4, 2]" "f_ncols sample_formation = 2"
    "f_nrows sample_formation = 1"
    by (simp_all add: sample_formation_def)
  show ?thesis
    unfolding create_cost_matrix_def Let_def ic
    by (simp add: e c_assert_def sample_float_env_sel(1) far_unit_pos_def far_cell_cost)
qed

lemma rounding_assignment:
  "compute_cell_assignment (sample_float_env rounding_unit_pos) rounding_formation \<noteq> None"
  "the (f_assignment
     (the (compute_cell_assignment (sample_float_env rounding_unit_pos) rounding_formation)) 4)
   = (0, 0)"
  "the (f_assignment
     (the (compute_cell_assignment (sample_float_env rounding_unit_pos) rounding_formation)) 2)
   = (0, 1)"
proof -
  let ?E = "sample_float_env rounding_unit_pos" and ?F = "rounding_formation"
  from cell_assignment_bijection[OF rounding_grid_ok rounding_costs_fit rounding_no_overflow]
  obtain f' where comp: "compute_cell_assignment ?E ?F = Some f'"
    and bij: "bij_betw (\<lambda>u. the (f_assignment f' u)) (set (f_ents ?F)) (used_coords ?F)"
    and opt: "\<forall>g. bij_betw g (set (f_ents ?F)) (used_coords ?F) \<longrightarrow>
        (\<Sum>u \<in> set (f_ents ?F). assignment_cost ?E ?F u (the (f_assignment f' u)))
          \<le> (\<Sum>u \<in> set (f_ents ?F). assignment_cost ?E ?F u (g u))"
    by (elim exE conjE)
  define a where "a u = the (f_assignment f' u)" for u
  have ents: "set (f_ents ?F) = {4, 2}" by (simp add: rounding_formation_def)
  have used: "used_coords ?F = {(0, 0), (0, 1)}"
    unfolding used_coords_def rounding_used_idx
    by (simp add: rounding_formation_def coord_of_def)
  have cost: "assignment_cost ?E ?F 4 (0, 0) = 650249984" "assignment_cost ?E ?F 4 (0, 1) = 650409408"
    "assignment_cost ?E ?F 2 (0, 0) = 650409408" "assignment_cost ?E ?F 2 (0, 1) = 650568768"
    using rounding_cell_cost
    by (simp_all add: assignment_cost_def sample_float_env_sel(1) rounding_unit_pos_def
        rounding_formation_def)
  have bij': "bij_betw a {4, 2} {(0, 0), (0, 1)}"
    using bij unfolding ents used a_def .
  then have im: "a ` {4, 2} = {(0, 0), (0, 1)}" and inj: "inj_on a {4, 2}"
    by (simp_all add: bij_betw_def)
  have a4: "a 4 = (0, 0) \<or> a 4 = (0, 1)" and a2: "a 2 = (0, 0) \<or> a 2 = (0, 1)"
    using im by auto
  have ne: "a 4 \<noteq> a 2" using inj by (auto simp add: inj_on_def)
  have "bij_betw (\<lambda>u. if u = (4::nat) then (0::nat, 0::nat) else (0, 1)) {4, 2} {(0, 0), (0, 1)}"
    by (auto simp add: bij_betw_def inj_on_def)
  then have "bij_betw (\<lambda>u. if u = 4 then (0, 0) else (0, 1)) (set (f_ents ?F)) (used_coords ?F)"
    unfolding ents used .
  with opt have "(\<Sum>u \<in> set (f_ents ?F). assignment_cost ?E ?F u (the (f_assignment f' u)))
          \<le> (\<Sum>u \<in> set (f_ents ?F). assignment_cost ?E ?F u (if u = 4 then (0, 0) else (0, 1)))"
    by (elim allE impE)
  then have le: "assignment_cost ?E ?F 4 (a 4) + assignment_cost ?E ?F 2 (a 2) \<le> 1300818752"
    unfolding ents a_def by (simp add: cost cost[unfolded One_nat_def])
  have r: "a 4 = (0, 0) \<and> a 2 = (0, 1)"
  proof (rule ccontr)
    assume "\<not> (a 4 = (0, 0) \<and> a 2 = (0, 1))"
    then have "a 4 = (0, 1) \<and> a 2 = (0, 0)" using a4 a2 ne by auto
    then show False using le by (simp add: cost cost[unfolded One_nat_def])
  qed
  show "compute_cell_assignment ?E ?F \<noteq> None" using comp by simp
  show "the (f_assignment (the (compute_cell_assignment ?E ?F)) 4) = (0, 0)"
    using r by (simp add: comp a_def)
  show "the (f_assignment (the (compute_cell_assignment ?E ?F)) 2) = (0, 1)"
    using r by (simp add: comp a_def)
qed


end
